(* ===== verification/Prelude.thy ===== *)
theory Prelude
  imports Main "HOL-Library.Word"
begin

text \<open>
  What every component of the development shares: the machine integers of the C++ sources, the
  exceptions and the three ways a call can end, the collections of rewrite rules, and generic
  lemmas on words, on power-of-two masks and on lists.
\<close>

unbundle bit_operations_syntax

named_theorems outcome_simps \<open>rewriting of sequenced calls\<close>
named_theorems index_simps \<open>arithmetic of power-of-two indices\<close>

type_synonym u8 = "8 word"
type_synonym u32 = "32 word"
type_synonym u64 = "64 word"

section \<open>Exceptions and outcomes\<close>

text \<open>
  The exception classes the sources throw, with their message. A C++ exception does not undo the
  writes made before it: \<open>Threw\<close> therefore carries the state the object is left in.
  \<open>Diverges\<close> is a call that does not return.
\<close>

datatype exn =
    Invalid_argument string
  | Overflow_error string
  | Logic_error string
  | Runtime_error string
  | Out_of_range string

datatype 's outcome = Done 's | Threw exn 's | Diverges

text \<open>\<open>seq r f\<close> is \<open>r; f\<close> on one object: the second call runs only if the first returned.\<close>

fun seq :: "'s outcome \<Rightarrow> ('s \<Rightarrow> 's outcome) \<Rightarrow> 's outcome" where
  "seq (Done s) f = f s"
| "seq (Threw x s) f = Threw x s"
| "seq Diverges f = Diverges"

text \<open>\<open>within put r\<close> runs a member's method: \<open>put\<close> writes the member back into its object.\<close>

definition within :: "('l \<Rightarrow> 'b) \<Rightarrow> 'l outcome \<Rightarrow> 'b outcome" where
  "within put r = map_outcome put r"

lemma within_simps [simp, outcome_simps]:
  "within put (Done l) = Done (put l)"
  "within put (Threw x l) = Threw x (put l)"
  "within put Diverges = Diverges"
  by (simp_all add: within_def)

lemma seq_Done_iff: "seq r f = Done s \<longleftrightarrow> (\<exists>t. r = Done t \<and> f t = Done s)"
  by (cases r) auto

lemma seq_Threw_iff:
  "seq r f = Threw x s \<longleftrightarrow> r = Threw x s \<or> (\<exists>t. r = Done t \<and> f t = Threw x s)"
  by (cases r) auto

text \<open>A call that returns a value and writes no state: a value, an exception, or no return.\<close>

datatype 'a result = Value 'a | Raise exn | Loops

fun with_value :: "'s \<Rightarrow> 'a result \<Rightarrow> ('a \<Rightarrow> 's outcome) \<Rightarrow> 's outcome" where
  "with_value s (Value a) f = f a"
| "with_value s (Raise x) f = Threw x s"
| "with_value s Loops f = Diverges"

text \<open>A call whose value goes to the next one.\<close>

fun and_then :: "'a result \<Rightarrow> ('a \<Rightarrow> 'b result) \<Rightarrow> 'b result" where
  "and_then (Value a) f = f a"
| "and_then (Raise x) f = Raise x"
| "and_then Loops f = Loops"

lemma and_then_Value_iff: "and_then r f = Value b \<longleftrightarrow> (\<exists>a. r = Value a \<and> f a = Value b)"
  by (cases r) auto

lemma and_then_ValueE:
  assumes "and_then r f = Value b"
  obtains a where "r = Value a" "f a = Value b"
  using assms by (auto simp: and_then_Value_iff)

text \<open>A loop that calls \<open>f\<close> on each element and stops at the first exception.\<close>

fun for_each_value :: "('a \<Rightarrow> 'b result) \<Rightarrow> 'a list \<Rightarrow> 'b list result" where
  "for_each_value f [] = Value []"
| "for_each_value f (x # xs) =
     (case f x of
        Value y \<Rightarrow> (case for_each_value f xs of Value ys \<Rightarrow> Value (y # ys) | Raise e \<Rightarrow> Raise e | Loops \<Rightarrow> Loops)
      | Raise e \<Rightarrow> Raise e
      | Loops \<Rightarrow> Loops)"

lemma for_each_value_all:
  "(\<And>x. x \<in> set xs \<Longrightarrow> f x = Value (g x)) \<Longrightarrow> for_each_value f xs = Value (map g xs)"
  by (induction xs) simp_all

definition map_value :: "('a \<Rightarrow> 'b) \<Rightarrow> 'a result \<Rightarrow> 'b result" where
  "map_value f r = map_result f r"

lemma map_value_simps [simp]:
  "map_value f (Value a) = Value (f a)" "map_value f (Raise x) = Raise x" "map_value f Loops = Loops"
  by (simp_all add: map_value_def)

section \<open>Words\<close>

lemma unat_less_2p64: "unat (w :: u64) < 18446744073709551616"
  using unsigned_less [of w] by simp

lemma unat_plus_u64:
  "unat (a :: u64) + unat b < 2 ^ 64 \<Longrightarrow> unat (a + b) = unat a + unat b"
  using unat_add_lem [of a b] by simp

lemma unat_minus_u64: "unat (b :: u64) \<le> unat a \<Longrightarrow> unat (a - b) = unat a - unat b"
  by (simp add: unat_sub_if')

text \<open>\<open>UINT64_MAX\<close>, \<open>std::numeric_limits<Quantity>::max()\<close>.\<close>

abbreviation uint64_max :: u64 where
  "uint64_max \<equiv> 18446744073709551615"

text \<open>The overflow test of the sources, \<open>max() - level < quantity\<close>, decides overflow exactly.\<close>

lemma overflow_guard: "uint64_max - l < q \<longleftrightarrow> 2 ^ 64 \<le> unat l + unat q"
proof -
  have l: "unat l < 2 ^ 64" using unat_less_2p64 [of l] by simp
  then have "unat l \<le> unat uint64_max"
    using unat_less_2p64 [of l] by simp
  then have "unat (uint64_max - l) = 2 ^ 64 - 1 - unat l"
    by (simp add: unat_minus_u64)
  with l show ?thesis
    unfolding word_less_nat_alt by simp arith
qed

lemma unat_zero_iff [simp]: "unat (w :: u64) = 0 \<longleftrightarrow> w = 0"
  by (simp add: unat_eq_zero)

lemma unat_pos_iff [simp]: "0 < unat (w :: u64) \<longleftrightarrow> w \<noteq> 0"
  by (simp add: unat_gt_0)

lemma of_nat_unat_u64 [simp]: "of_nat (unat (w :: u64)) = w"
  by simp

lemma unat_of_nat_u64: "n < 2 ^ 64 \<Longrightarrow> unat (of_nat n :: u64) = n"
  by (simp add: unat_of_nat take_bit_nat_eq_self)

end
