(* ===== verification/Book_Types.thy ===== *)
theory Book_Types
  imports Prelude
begin

text \<open>
  The data the order-book versions share: sides, canonical events, price levels, orders; the
  identifier mixer that chooses hash-table slots; and the FNV-1a digest by which the versions
  are compared.
\<close>

section \<open>Identifiers, sides, events, levels, orders\<close>

type_synonym order_id = u64
type_synonym price = u64
type_synonym quantity = u64

datatype side = Bid | Ask

datatype event_type =
    Add
  | Cancel
  | Execute
  | Delete
  | Replace
  | OrderUpsert
  | OrderDelete

record event =
  ev_type :: event_type
  ev_order_id :: order_id
  ev_replacement_order_id :: order_id
  ev_side :: side
  ev_price_ticks :: price
  ev_quantity :: quantity

record level =
  lvl_price_ticks :: price
  lvl_quantity :: quantity

record order =
  ord_side :: side
  ord_price_ticks :: price
  ord_remaining_quantity :: quantity

text \<open>The order map every version represents: live identifiers to their displayed state.\<close>

type_synonym orders = "order_id \<rightharpoonup> order"

instantiation side :: linorder
begin

definition less_eq_side :: "side \<Rightarrow> side \<Rightarrow> bool" where
  "less_eq_side a b \<longleftrightarrow> a = Bid \<or> b = Ask"

definition less_side :: "side \<Rightarrow> side \<Rightarrow> bool" where
  "less_side a b \<longleftrightarrow> a = Bid \<and> b = Ask"

instance
proof
  fix a b c :: side
  show "a < b \<longleftrightarrow> a \<le> b \<and> \<not> b \<le> a"
    by (cases a; cases b) (simp_all add: less_eq_side_def less_side_def)
  show "a \<le> a" by (cases a) (simp_all add: less_eq_side_def)
  show "a \<le> b \<Longrightarrow> b \<le> c \<Longrightarrow> a \<le> c"
    by (auto simp: less_eq_side_def)
  show "a \<le> b \<Longrightarrow> b \<le> a \<Longrightarrow> a = b"
    by (auto simp: less_eq_side_def)
  show "a \<le> b \<or> b \<le> a" by (cases a; cases b) (simp_all add: less_eq_side_def)
qed

end

instance side :: finite
proof
  have "(UNIV :: side set) = {Bid, Ask}"
    using side.exhaust by blast
  then show "finite (UNIV :: side set)"
    by (metis finite.emptyI finite.insertI)
qed

section \<open>The order-identifier mixer\<close>

definition mix_order_id :: "u64 \<Rightarrow> u64" where
  "mix_order_id v =
     (let value = v + 0x9E3779B97F4A7C15;
          value = (value XOR drop_bit 30 value) * 0xBF58476D1CE4E5B9;
          value = (value XOR drop_bit 27 value) * 0x94D049BB133111EB
      in value XOR drop_bit 31 value)"

text \<open>
  The sources have four more copies of the mixer: in the parity book, in the two ladder books with tombstones, and in the fixed
  index. All are the same function, so that one home slot serves all indexes.
\<close>

definition parity_mix_order_id :: "u64 \<Rightarrow> u64" where
  "parity_mix_order_id v =
     (let value = v + 0x9E3779B97F4A7C15;
          value = (value XOR drop_bit 30 value) * 0xBF58476D1CE4E5B9;
          value = (value XOR drop_bit 27 value) * 0x94D049BB133111EB
      in value XOR drop_bit 31 value)"

definition dense_mix :: "u64 \<Rightarrow> u64" where
  "dense_mix x =
     (let x = x + 0x9E3779B97F4A7C15;
          x = (x XOR drop_bit 30 x) * 0xBF58476D1CE4E5B9;
          x = (x XOR drop_bit 27 x) * 0x94D049BB133111EB
      in x XOR drop_bit 31 x)"

definition bitmap_mix :: "u64 \<Rightarrow> u64" where
  "bitmap_mix x =
     (let x = x + 0x9E3779B97F4A7C15;
          x = (x XOR drop_bit 30 x) * 0xBF58476D1CE4E5B9;
          x = (x XOR drop_bit 27 x) * 0x94D049BB133111EB
      in x XOR drop_bit 31 x)"

definition mix_fixed_order_id :: "u64 \<Rightarrow> u64" where
  "mix_fixed_order_id v =
     (let value = v + 0x9E3779B97F4A7C15;
          value = (value XOR drop_bit 30 value) * 0xBF58476D1CE4E5B9;
          value = (value XOR drop_bit 27 value) * 0x94D049BB133111EB
      in value XOR drop_bit 31 value)"

lemma mixers_same:
  "parity_mix_order_id = mix_order_id" "dense_mix = mix_order_id" "bitmap_mix = mix_order_id" "mix_fixed_order_id = mix_order_id"
  by (simp_all add: fun_eq_iff parity_mix_order_id_def dense_mix_def bitmap_mix_def mix_fixed_order_id_def mix_order_id_def)

section \<open>The FNV-1a state digest\<close>

definition kFnvOffsetBasis :: u64 where
  "kFnvOffsetBasis = 14695981039346656037"

definition kFnvPrime :: u64 where
  "kFnvPrime = 1099511628211"

definition hash_byte :: "u64 \<Rightarrow> u8 \<Rightarrow> u64" where
  "hash_byte hash byte = (hash XOR ucast byte) * kFnvPrime"

function hash_u64_from :: "nat \<Rightarrow> u64 \<Rightarrow> u64 \<Rightarrow> u64" where
  "hash_u64_from shift hash v =
     (if shift < 64
      then hash_u64_from (shift + 8) (hash_byte hash (ucast (drop_bit shift v))) v
      else hash)"
  by pat_completeness auto
termination
  by (relation "measure (\<lambda>(shift, hash, v). 64 - shift)") auto

declare hash_u64_from.simps [simp del]

definition hash_u64 :: "u64 \<Rightarrow> u64 \<Rightarrow> u64" where
  "hash_u64 hash v = hash_u64_from 0 hash v"

definition side_byte :: "side \<Rightarrow> u8" where
  "side_byte s = (case s of Bid \<Rightarrow> 0 | Ask \<Rightarrow> 1)"

text \<open>
  The parts of \<open>state_digest\<close> every version runs: the number of levels of a side and the
  levels in ascending price order, then the live orders in ascending identifier order.
\<close>

definition hash_levels :: "u64 \<Rightarrow> (price \<times> quantity) list \<Rightarrow> u64" where
  "hash_levels hash levels =
     foldl (\<lambda>h (p, q). hash_u64 (hash_u64 h p) q) (hash_u64 hash (of_nat (length levels))) levels"

definition hash_order :: "u64 \<Rightarrow> order_id \<Rightarrow> order \<Rightarrow> u64" where
  "hash_order hash oid ord =
     hash_u64 (hash_u64 (hash_byte (hash_u64 hash oid) (side_byte (ord_side ord)))
       (ord_price_ticks ord)) (ord_remaining_quantity ord)"

definition digest :: "u64 \<Rightarrow> (price \<times> quantity) list \<Rightarrow> (price \<times> quantity) list
    \<Rightarrow> (order_id \<times> order) list \<Rightarrow> u64" where
  "digest live bids asks ords =
     foldl (\<lambda>h (oid, ord). hash_order h oid ord)
       (hash_levels (hash_levels (hash_u64 kFnvOffsetBasis live) bids) asks) ords"

section \<open>The mixer is injective\<close>

lemma xor_shift_inj:
  fixes x y :: u64
  assumes "0 < k" "x XOR drop_bit k x = y XOR drop_bit k y"
  shows "x = y"
proof -
  have b: "bit x i \<noteq> bit x (i + k) \<longleftrightarrow> bit y i \<noteq> bit y (i + k)" for i
    using arg_cong [OF assms(2), of "\<lambda>w. bit w i"] by (simp add: bit_xor_iff bit_drop_bit_eq add.commute)
  have "bit x i \<longleftrightarrow> bit y i" for i
  proof (induction "64 - i" arbitrary: i rule: less_induct)
    case less
    show ?case
    proof (cases "i < 64")
      case True
      then have "bit x (i + k) \<longleftrightarrow> bit y (i + k)" using less [of "i + k"] assms(1) by simp
      with b [of i] show ?thesis by blast
    next
      case False
      then show ?thesis using bit_imp_le_length [of x i] bit_imp_le_length [of y i] by auto
    qed
  qed
  then show ?thesis by (simp add: bit_eq_iff)
qed

lemma odd_mult_inj:
  fixes a b c d :: u64
  assumes "c * d = 1" "a * c = b * c"
  shows "a = b"
proof -
  have "a * c * d = b * c * d" using assms(2) by simp
  then show ?thesis by (simp add: mult.assoc assms(1))
qed

text \<open>The inverses of the two multipliers modulo \<open>2\<^sup>6\<^sup>4\<close>.\<close>

lemma mix_inverse_1: "(0xBF58476D1CE4E5B9 :: u64) * 0x96DE1B173F119089 = 1"
  by simp

lemma mix_inverse_2: "(0x94D049BB133111EB :: u64) * 0x319642B2D24D8EC3 = 1"
  by simp

text \<open>
  The identifier mixer that chooses hash-table slots is injective on 64-bit identifiers: no two
  identifiers have the same mixed value.
\<close>

theorem mix_order_id_injective: "mix_order_id a = mix_order_id b \<longleftrightarrow> a = b"
  by (auto simp: mix_order_id_def Let_def dest!: xor_shift_inj [rotated]
      odd_mult_inj [OF mix_inverse_1] odd_mult_inj [OF mix_inverse_2])

end
