(* ===== verification/L3_Spec.thy ===== *)
theory L3_Spec
  imports Book_Types
begin

text \<open>
  The abstract specification of the L3 order book, after \<open>specs/l3_order_book.md\<close>: a finite map
  from live identifiers to orders, the aggregate quantity of a price level, best bid and ask, the
  canonical digest, and the partial transition each canonical event makes. The locales state what
  a price-level store promises to a book and what a book promises to its caller; every version of
  the book is an instance.
\<close>

section \<open>Level aggregates\<close>

definition contrib :: "side \<Rightarrow> price \<Rightarrow> order \<Rightarrow> nat" where
  "contrib s p r =
     (if ord_side r = s \<and> ord_price_ticks r = p then unat (ord_remaining_quantity r) else 0)"

definition level_total :: "orders \<Rightarrow> side \<Rightarrow> price \<Rightarrow> nat" where
  "level_total m s p = (\<Sum>i \<in> dom m. contrib s p (the (m i)))"

lemma level_total_empty [simp]: "level_total Map.empty s p = 0"
  by (simp add: level_total_def)

lemma level_total_drop:
  "m i = Some r \<Longrightarrow> level_total m s p = contrib s p r + level_total (m(i := None)) s p"
  unfolding level_total_def
  by (subst sum.remove [of _ i]) (auto intro!: sum.cong)

lemma level_total_upd:
  "level_total (m(i \<mapsto> r)) s p = contrib s p r + level_total (m(i := None)) s p"
  by (subst level_total_drop [of "m(i \<mapsto> r)" i r]) simp_all

lemma level_total_same [simp]: "m i = None \<Longrightarrow> level_total (m(i := None)) s p = level_total m s p"
  by (metis fun_upd_triv)

lemma level_total_new: "m i = None \<Longrightarrow> level_total (m(i \<mapsto> r)) s p = contrib s p r + level_total m s p"
  by (simp add: level_total_upd)

lemma level_total_ge:
  "m i = Some r \<Longrightarrow> unat (ord_remaining_quantity r) \<le> level_total m (ord_side r) (ord_price_ticks r)"
  by (simp add: level_total_drop contrib_def)

lemma level_total_pos_ex:
  "0 < level_total m s p \<longleftrightarrow>
     (\<exists>i r. m i = Some r \<and> ord_side r = s \<and> ord_price_ticks r = p \<and> ord_remaining_quantity r \<noteq> 0)"
proof
  assume "0 < level_total m s p"
  then obtain i where "i \<in> dom m" "contrib s p (the (m i)) \<noteq> 0"
    unfolding level_total_def by (metis neq0_conv sum.neutral)
  then show "\<exists>i r. m i = Some r \<and> ord_side r = s \<and> ord_price_ticks r = p \<and> ord_remaining_quantity r \<noteq> 0"
    by (intro exI [of _ i] exI [of _ "the (m i)"]) (auto simp: contrib_def split: if_splits)
next
  assume "\<exists>i r. m i = Some r \<and> ord_side r = s \<and> ord_price_ticks r = p \<and> ord_remaining_quantity r \<noteq> 0"
  then show "0 < level_total m s p"
    using level_total_ge unat_pos_iff by (metis le_zero_eq neq0_conv)
qed

section \<open>Observations\<close>

definition spec_prices :: "orders \<Rightarrow> side \<Rightarrow> price set" where
  "spec_prices m s = {p. 0 < level_total m s p}"

definition spec_best :: "orders \<Rightarrow> side \<Rightarrow> level option" where
  "spec_best m s =
     (if spec_prices m s = {} then None
      else let p = (case s of Bid \<Rightarrow> Max (spec_prices m s) | Ask \<Rightarrow> Min (spec_prices m s))
           in Some \<lparr>lvl_price_ticks = p, lvl_quantity = of_nat (level_total m s p)\<rparr>)"

definition spec_levels :: "orders \<Rightarrow> side \<Rightarrow> (price \<times> quantity) list" where
  "spec_levels m s =
     map (\<lambda>p. (p, of_nat (level_total m s p))) (sorted_list_of_set (spec_prices m s))"

definition spec_orders :: "orders \<Rightarrow> (order_id \<times> order) list" where
  "spec_orders m = map (\<lambda>i. (i, the (m i))) (sorted_list_of_set (dom m))"

definition spec_digest :: "orders \<Rightarrow> u64" where
  "spec_digest m =
     digest (of_nat (card (dom m))) (spec_levels m Bid) (spec_levels m Ask) (spec_orders m)"

text \<open>
  The correctness contract of the specification: non-zero identifiers, no zero quantity, and
  every aggregate representable.
\<close>

definition valid_orders :: "orders \<Rightarrow> bool" where
  "valid_orders m \<longleftrightarrow>
     (\<forall>i r. m i = Some r \<longrightarrow> i \<noteq> 0 \<and> ord_remaining_quantity r \<noteq> 0) \<and>
     (\<forall>s p. level_total m s p < 2 ^ 64)"

section \<open>The transitions of the canonical events\<close>

definition l3_add :: "orders \<Rightarrow> order_id \<Rightarrow> order \<Rightarrow> orders option" where
  "l3_add m i r =
     (if i \<noteq> 0 \<and> ord_remaining_quantity r \<noteq> 0 \<and> m i = None \<and>
         level_total (m(i \<mapsto> r)) (ord_side r) (ord_price_ticks r) < 2 ^ 64
      then Some (m(i \<mapsto> r)) else None)"

definition l3_remove :: "orders \<Rightarrow> order_id \<Rightarrow> orders option" where
  "l3_remove m i = (case m i of None \<Rightarrow> None | Some r \<Rightarrow> Some (m(i := None)))"

definition l3_reduce :: "orders \<Rightarrow> order_id \<Rightarrow> quantity \<Rightarrow> bool \<Rightarrow> orders option" where
  "l3_reduce m i q full =
     (case m i of
        None \<Rightarrow> None
      | Some r \<Rightarrow>
          if q = 0 \<or> q > ord_remaining_quantity r \<or> (\<not> full \<and> q = ord_remaining_quantity r)
          then None
          else if q = ord_remaining_quantity r then Some (m(i := None))
          else Some (m(i \<mapsto> r\<lparr>ord_remaining_quantity := ord_remaining_quantity r - q\<rparr>)))"

definition l3_upsert :: "orders \<Rightarrow> order_id \<Rightarrow> order \<Rightarrow> orders option" where
  "l3_upsert m i r =
     (if i \<noteq> 0 \<and> ord_remaining_quantity r \<noteq> 0 \<and>
         level_total (m(i \<mapsto> r)) (ord_side r) (ord_price_ticks r) < 2 ^ 64
      then Some (m(i \<mapsto> r)) else None)"

definition ev_order :: "event \<Rightarrow> order" where
  "ev_order e = \<lparr>ord_side = ev_side e, ord_price_ticks = ev_price_ticks e,
                 ord_remaining_quantity = ev_quantity e\<rparr>"

definition l3_step :: "orders \<Rightarrow> event \<Rightarrow> orders option" where
  "l3_step m e =
     (case ev_type e of
        Add \<Rightarrow> l3_add m (ev_order_id e) (ev_order e)
      | Cancel \<Rightarrow> l3_reduce m (ev_order_id e) (ev_quantity e) False
      | Execute \<Rightarrow> l3_reduce m (ev_order_id e) (ev_quantity e) True
      | Delete \<Rightarrow> l3_remove m (ev_order_id e)
      | OrderDelete \<Rightarrow> l3_remove m (ev_order_id e)
      | Replace \<Rightarrow>
          if ev_replacement_order_id e = ev_order_id e then None
          else Option.bind (l3_remove m (ev_order_id e))
                 (\<lambda>m'. l3_add m' (ev_replacement_order_id e) (ev_order e))
      | OrderUpsert \<Rightarrow> l3_upsert m (ev_order_id e) (ev_order e))"

text \<open>
  A bounded version takes new identifiers only while fewer than \<open>cap\<close> orders are live, and
  prices only in its range \<open>rng\<close>. \<open>admitted\<close> is the transition under these limits.
\<close>

definition fits :: "nat \<Rightarrow> (price \<Rightarrow> bool) \<Rightarrow> orders \<Rightarrow> event \<Rightarrow> bool" where
  "fits cap rng m e =
     (case ev_type e of
        Add \<Rightarrow> card (dom m) < cap \<and> rng (ev_price_ticks e)
      | Replace \<Rightarrow> rng (ev_price_ticks e)
      | OrderUpsert \<Rightarrow>
          (m (ev_order_id e) = None \<longrightarrow> card (dom m) < cap) \<and> rng (ev_price_ticks e)
      | _ \<Rightarrow> True)"

definition admitted :: "nat \<Rightarrow> (price \<Rightarrow> bool) \<Rightarrow> orders \<Rightarrow> event \<Rightarrow> orders option" where
  "admitted cap rng m e = (if fits cap rng m e then l3_step m e else None)"

fun l3_run :: "nat \<Rightarrow> (price \<Rightarrow> bool) \<Rightarrow> orders \<Rightarrow> event list \<Rightarrow> orders option" where
  "l3_run cap rng m [] = Some m"
| "l3_run cap rng m (e # es) = Option.bind (admitted cap rng m e) (\<lambda>m'. l3_run cap rng m' es)"

text \<open>\<open>for (const Event &event : events) book.apply(event);\<close>\<close>

fun run_events :: "('b \<Rightarrow> event \<Rightarrow> 'b outcome) \<Rightarrow> 'b \<Rightarrow> event list \<Rightarrow> 'b outcome" where
  "run_events f b [] = Done b"
| "run_events f b (e # es) = seq (f b e) (\<lambda>b'. run_events f b' es)"

section \<open>The transitions keep the contract\<close>

lemma valid_ordersD:
  "valid_orders m \<Longrightarrow> m i = Some r \<Longrightarrow> i \<noteq> 0 \<and> ord_remaining_quantity r \<noteq> 0"
  "valid_orders m \<Longrightarrow> level_total m s p < 2 ^ 64"
  by (auto simp: valid_orders_def)

lemma valid_orders_empty [simp]: "valid_orders Map.empty"
  by (simp add: valid_orders_def)

lemma card_valid_orders: "valid_orders m \<Longrightarrow> card (dom m) < 2 ^ 64"
proof -
  assume "valid_orders m"
  then have "dom m \<subset> (UNIV :: u64 set)"
    using valid_ordersD(1) [of m 0] by blast
  then have "card (dom m) < CARD(u64)" by (intro psubset_card_mono) simp_all
  then show ?thesis by (simp add: card_word)
qed

lemma level_total_drop_le: "level_total (m(i := None)) s p \<le> level_total m s p"
  by (cases "m i") (auto simp: level_total_drop)

lemma valid_orders_drop: "valid_orders m \<Longrightarrow> valid_orders (m(i := None))"
  unfolding valid_orders_def
  by (auto intro: le_less_trans [OF level_total_drop_le])

lemma valid_orders_upd:
  assumes "valid_orders m" "i \<noteq> 0" "ord_remaining_quantity r \<noteq> 0"
    and "level_total (m(i \<mapsto> r)) (ord_side r) (ord_price_ticks r) < 2 ^ 64"
  shows "valid_orders (m(i \<mapsto> r))"
proof -
  have "level_total (m(i \<mapsto> r)) s p < 2 ^ 64" for s p
  proof (cases "ord_side r = s \<and> ord_price_ticks r = p")
    case False
    then have "level_total (m(i \<mapsto> r)) s p = level_total (m(i := None)) s p"
      by (auto simp: level_total_upd contrib_def)
    then show ?thesis
      using valid_ordersD(2) [OF valid_orders_drop [OF assms(1)]] by simp
  qed (use assms(4) in auto)
  then show ?thesis using assms(1-3) by (auto simp: valid_orders_def)
qed

lemma reduced_total:
  assumes "m i = Some r" "q < ord_remaining_quantity r"
  shows "level_total (m(i \<mapsto> r\<lparr>ord_remaining_quantity := ord_remaining_quantity r - q\<rparr>)) s p
       = level_total m s p - (if ord_side r = s \<and> ord_price_ticks r = p then unat q else 0)"
proof -
  let ?r' = "r\<lparr>ord_remaining_quantity := ord_remaining_quantity r - q\<rparr>"
  have q: "unat q \<le> unat (ord_remaining_quantity r)"
    using assms(2) by (simp add: word_less_nat_alt)
  have "contrib s p ?r' = contrib s p r - (if ord_side r = s \<and> ord_price_ticks r = p then unat q else 0)"
    by (simp add: contrib_def unat_minus_u64 [OF q])
  moreover have "(if ord_side r = s \<and> ord_price_ticks r = p then unat q else 0) \<le> contrib s p r"
    using q by (simp add: contrib_def)
  moreover have "level_total m s p = contrib s p r + level_total (m(i := None)) s p"
    by (rule level_total_drop) (rule assms(1))
  ultimately show ?thesis
    by (simp only: level_total_upd)
qed

lemma l3_add_valid: "valid_orders m \<Longrightarrow> l3_add m i r = Some m' \<Longrightarrow> valid_orders m'"
  by (auto simp: l3_add_def valid_orders_upd split: if_splits)

lemma l3_upsert_valid: "valid_orders m \<Longrightarrow> l3_upsert m i r = Some m' \<Longrightarrow> valid_orders m'"
  by (auto simp: l3_upsert_def valid_orders_upd split: if_splits)

lemma l3_remove_valid: "valid_orders m \<Longrightarrow> l3_remove m i = Some m' \<Longrightarrow> valid_orders m'"
  by (auto simp: l3_remove_def valid_orders_drop split: option.splits)

lemma l3_reduce_valid:
  assumes "valid_orders m" "l3_reduce m i q full = Some m'"
  shows "valid_orders m'"
proof -
  obtain r where r: "m i = Some r" "q \<noteq> 0" "\<not> q > ord_remaining_quantity r"
    and m': "m' = (if q = ord_remaining_quantity r then m(i := None)
                   else m(i \<mapsto> r\<lparr>ord_remaining_quantity := ord_remaining_quantity r - q\<rparr>))"
    using assms(2) by (auto simp: l3_reduce_def split: option.splits if_splits)
  show ?thesis
  proof (cases "q = ord_remaining_quantity r")
    case True
    with m' assms(1) show ?thesis by (simp add: valid_orders_drop)
  next
    case False
    with r(3) have lt: "q < ord_remaining_quantity r" by simp
    have "level_total m' (ord_side r) (ord_price_ticks r) < 2 ^ 64"
      using valid_ordersD(2) [OF assms(1), of "ord_side r" "ord_price_ticks r"]
      by (simp add: m' False reduced_total [of m i r q] r(1) lt)
    moreover have "i \<noteq> 0" using valid_ordersD(1) [OF assms(1) r(1)] by simp
    ultimately show ?thesis
      using False assms(1) by (simp add: m' valid_orders_upd)
  qed
qed

lemma l3_step_valid: "valid_orders m \<Longrightarrow> l3_step m e = Some m' \<Longrightarrow> valid_orders m'"
  unfolding l3_step_def
  by (auto split: event_type.splits if_splits simp: bind_eq_Some_conv
      intro: l3_add_valid l3_remove_valid l3_reduce_valid l3_upsert_valid)

text \<open>A trace a tighter version admits is admitted by a roomier one, with the same result.\<close>

lemma admitted_mono:
  assumes "cap \<le> cap'" "\<And>p. rng p \<Longrightarrow> rng' p" "admitted cap rng m e = Some m'"
  shows "admitted cap' rng' m e = Some m'"
proof -
  have "fits cap rng m e" using assms(3) by (auto simp: admitted_def split: if_splits)
  then have "fits cap' rng' m e" using assms(1,2) by (auto simp: fits_def split: event_type.splits)
  with assms(3) show ?thesis by (auto simp: admitted_def split: if_splits)
qed

lemma l3_run_mono:
  assumes "cap \<le> cap'" "\<And>p. rng p \<Longrightarrow> rng' p"
  shows "l3_run cap rng m es = Some m' \<Longrightarrow> l3_run cap' rng' m es = Some m'"
proof (induction es arbitrary: m)
  case (Cons e es)
  then obtain m1 where "admitted cap rng m e = Some m1" "l3_run cap rng m1 es = Some m'"
    by (auto simp: bind_eq_Some_conv)
  with Cons.IH admitted_mono [OF assms] show ?case by simp
qed simp

section \<open>Sorted level lists\<close>

text \<open>
  A strictly ascending list of occupied levels that holds the aggregates of a side is the
  canonical level list, and the best levels are its ends.
\<close>

definition lookup0 :: "(price \<times> quantity) list \<Rightarrow> price \<Rightarrow> quantity" where
  "lookup0 xs p = (case map_of xs p of None \<Rightarrow> 0 | Some q \<Rightarrow> q)"

lemma sorted_pairs_eq:
  assumes "sorted_wrt (<) (map fst xs)"
  shows "xs = map (\<lambda>p. (p, the (map_of xs p))) (sorted_list_of_set (fst ` set xs))"
proof -
  have d: "distinct (map fst xs)" and s: "sorted (map fst xs)"
    using assms by (simp_all add: strict_sorted_iff)
  then have "sorted_list_of_set (fst ` set xs) = map fst xs"
    by (metis list.set_map sorted_list_of_set.idem_if_sorted_distinct)
  moreover have "map (\<lambda>p. (p, the (map_of xs p))) (map fst xs) = xs"
    unfolding map_map using d by (intro map_idI) auto
  ultimately show ?thesis by simp
qed

lemma levels_list_spec:
  assumes "sorted_wrt (<) (map fst xs)" "\<forall>(p, q) \<in> set xs. q \<noteq> 0"
    and "\<And>p. unat (lookup0 xs p) = level_total m s p"
  shows "xs = spec_levels m s"
proof -
  have d: "distinct (map fst xs)" using assms(1) by (simp add: strict_sorted_iff)
  have q: "map_of xs p = (if 0 < level_total m s p then Some (of_nat (level_total m s p)) else None)" for p
    using assms(2) unfolding assms(3) [symmetric] lookup0_def
    by (auto split: option.splits dest: map_of_SomeD)
  have "fst ` set xs = spec_prices m s"
    using q unfolding spec_prices_def dom_map_of_conv_image_fst [symmetric] by (auto simp: dom_def)
  then show ?thesis
    using sorted_pairs_eq [OF assms(1)]
    by (auto simp: spec_levels_def q spec_prices_def intro: map_cong)
qed

lemma last_sorted_list_of_set:
  "finite A \<Longrightarrow> A \<noteq> {} \<Longrightarrow> last (sorted_list_of_set A) = Max (A :: 'k :: linorder set)"
proof (rule Max_eqI [symmetric])
  fix y assume A: "finite A" "A \<noteq> {}" and "y \<in> A"
  then obtain i where i: "i < length (sorted_list_of_set A)" "y = sorted_list_of_set A ! i"
    by (metis in_set_conv_nth sorted_list_of_set.set_sorted_key_list_of_set)
  have "sorted_list_of_set A \<noteq> []" using A by simp
  then show "y \<le> last (sorted_list_of_set A)"
    using i by (auto simp: last_conv_nth intro!: sorted_nth_mono)
next
  assume A: "finite A" "A \<noteq> {}"
  then have "last (sorted_list_of_set A) \<in> set (sorted_list_of_set A)"
    by (intro last_in_set) simp
  with A show "last (sorted_list_of_set A) \<in> A" by simp
qed

lemma spec_best_Bid:
  "spec_best m Bid =
     (if spec_levels m Bid = [] then None
      else Some \<lparr>lvl_price_ticks = fst (last (spec_levels m Bid)),
                 lvl_quantity = snd (last (spec_levels m Bid))\<rparr>)"
  by (auto simp: spec_best_def spec_levels_def last_map last_sorted_list_of_set Let_def)

lemma spec_best_Ask:
  "spec_best m Ask =
     (if spec_levels m Ask = [] then None
      else Some \<lparr>lvl_price_ticks = fst (hd (spec_levels m Ask)),
                 lvl_quantity = snd (hd (spec_levels m Ask))\<rparr>)"
  by (auto simp: spec_best_def spec_levels_def hd_map sorted_list_of_set_nonempty Let_def)

lemma spec_orders_sort:
  "distinct xs \<Longrightarrow> set xs = dom m \<Longrightarrow> map (\<lambda>i. (i, the (m i))) (sort xs) = spec_orders m"
  using sorted_list_of_set_sort_remdups [of xs]
  by (simp add: spec_orders_def distinct_remdups_id)

section \<open>What a price-level store promises\<close>

text \<open>
  A store of aggregate quantities: \<open>lvl\<close> reads it (0 where no level is occupied), and the two
  updates add to and subtract from one level. \<open>rng\<close> is the fixed set of prices it can hold. A
  refused addition leaves the store as it was.
\<close>

definition upd_lvl :: "(side \<Rightarrow> price \<Rightarrow> quantity) \<Rightarrow> side \<Rightarrow> price \<Rightarrow> quantity
    \<Rightarrow> side \<Rightarrow> price \<Rightarrow> quantity" where
  "upd_lvl f s p q = f(s := (f s)(p := q))"

lemma upd_lvl_apply [simp]: "upd_lvl f s p q s' p' = (if s' = s \<and> p' = p then q else f s' p')"
  by (simp add: upd_lvl_def)

text \<open>The store holds the aggregates of the order map \<open>m\<close>.\<close>

definition levels_match :: "(side \<Rightarrow> price \<Rightarrow> quantity) \<Rightarrow> orders \<Rightarrow> bool" where
  "levels_match f m \<longleftrightarrow> (\<forall>s p. unat (f s p) = level_total m s p)"

lemma levels_matchD: "levels_match f m \<Longrightarrow> unat (f s p) = level_total m s p"
  by (simp add: levels_match_def)

lemma levels_match_of_nat: "levels_match f m \<Longrightarrow> of_nat (level_total m s p) = f s p"
  by (metis levels_matchD of_nat_unat_u64)

locale level_store =
  fixes add_level :: "'l \<Rightarrow> side \<Rightarrow> price \<Rightarrow> quantity \<Rightarrow> 'l outcome"
    and sub_level :: "'l \<Rightarrow> side \<Rightarrow> price \<Rightarrow> quantity \<Rightarrow> 'l outcome"
    and lvl :: "'l \<Rightarrow> side \<Rightarrow> price \<Rightarrow> quantity"
    and linv :: "'l \<Rightarrow> bool"
    and rng :: "price \<Rightarrow> bool"
  assumes add_done: "linv l \<Longrightarrow> q \<noteq> 0 \<Longrightarrow> rng p \<Longrightarrow> unat (lvl l s p) + unat q < 2 ^ 64 \<Longrightarrow>
      \<exists>l'. add_level l s p q = Done l' \<and> linv l' \<and> lvl l' = upd_lvl (lvl l) s p (lvl l s p + q)"
    and add_refused: "linv l \<Longrightarrow> q \<noteq> 0 \<Longrightarrow> \<not> (rng p \<and> unat (lvl l s p) + unat q < 2 ^ 64) \<Longrightarrow>
      \<exists>x. add_level l s p q = Threw x l"
    and sub_done: "linv l \<Longrightarrow> q \<noteq> 0 \<Longrightarrow> q \<le> lvl l s p \<Longrightarrow>
      \<exists>l'. sub_level l s p q = Done l' \<and> linv l' \<and> lvl l' = upd_lvl (lvl l) s p (lvl l s p - q)"
begin

text \<open>Adding an order keeps the store the aggregate of the map, and is refused exactly on overflow.\<close>

lemma add_order_levels:
  assumes "linv l" "levels_match (lvl l) m" "m i = None" "ord_remaining_quantity r \<noteq> 0"
    and "rng (ord_price_ticks r)"
    and "level_total (m(i \<mapsto> r)) (ord_side r) (ord_price_ticks r) < 2 ^ 64"
  shows "\<exists>l'. add_level l (ord_side r) (ord_price_ticks r) (ord_remaining_quantity r) = Done l' \<and>
              linv l' \<and> levels_match (lvl l') (m(i \<mapsto> r))"
proof -
  let ?s = "ord_side r" and ?p = "ord_price_ticks r" and ?q = "ord_remaining_quantity r"
  have sum: "unat (lvl l ?s ?p) + unat ?q < 2 ^ 64"
    using assms(6) by (simp add: level_total_new assms(3) contrib_def levels_matchD [OF assms(2)])
  obtain l' where l': "add_level l ?s ?p ?q = Done l'" "linv l'"
      "lvl l' = upd_lvl (lvl l) ?s ?p (lvl l ?s ?p + ?q)"
    using add_done [OF assms(1,4,5) sum] by blast
  have "levels_match (lvl l') (m(i \<mapsto> r))"
    using assms(2,3) unat_plus_u64 [OF sum]
    by (auto simp: levels_match_def l'(3) level_total_new contrib_def)
  with l' show ?thesis by blast
qed

lemma add_order_refused:
  assumes "linv l" "levels_match (lvl l) m" "m i = None" "ord_remaining_quantity r \<noteq> 0"
    and "\<not> (rng (ord_price_ticks r) \<and>
            level_total (m(i \<mapsto> r)) (ord_side r) (ord_price_ticks r) < 2 ^ 64)"
  shows "\<exists>x. add_level l (ord_side r) (ord_price_ticks r) (ord_remaining_quantity r) = Threw x l"
  using assms(5) by (intro add_refused [OF assms(1,4)])
    (simp add: level_total_new assms(3) contrib_def levels_matchD [OF assms(2)] add.commute)

lemma add_threw_same:
  assumes "linv l" "q \<noteq> 0" "add_level l s p q = Threw x l'"
  shows "l' = l"
  using add_done [OF assms(1,2), of p s] add_refused [OF assms(1,2), of p s] assms(3)
  by (cases "rng p \<and> unat (lvl l s p) + unat q < 2 ^ 64") auto

lemma sub_order_levels:
  assumes "linv l" "levels_match (lvl l) m" "m i = Some r" "q \<noteq> 0" "q \<le> ord_remaining_quantity r"
  shows "\<exists>l'. sub_level l (ord_side r) (ord_price_ticks r) q = Done l' \<and> linv l' \<and>
              levels_match (lvl l')
                (if q = ord_remaining_quantity r then m(i := None)
                 else m(i \<mapsto> r\<lparr>ord_remaining_quantity := ord_remaining_quantity r - q\<rparr>))"
proof -
  let ?s = "ord_side r" and ?p = "ord_price_ticks r"
  have le: "unat q \<le> unat (lvl l ?s ?p)"
    using assms(5) level_total_ge [of m i r] levels_matchD [OF assms(2)] assms(3)
    by (simp add: word_le_nat_alt)
  then obtain l' where l': "sub_level l ?s ?p q = Done l'" "linv l'"
      "lvl l' = upd_lvl (lvl l) ?s ?p (lvl l ?s ?p - q)"
    using sub_done [OF assms(1,4)] by (metis word_le_nat_alt)
  have "unat (lvl l' s p) = level_total m s p - (if ?s = s \<and> ?p = p then unat q else 0)" for s p
    using le levels_matchD [OF assms(2)] by (auto simp: l'(3) unat_minus_u64)
  moreover have "level_total (m(i := None)) s p =
      level_total m s p - (if ?s = s \<and> ?p = p then unat (ord_remaining_quantity r) else 0)" for s p
    using assms(3) by (simp add: level_total_drop [of m i r] contrib_def)
  ultimately have "levels_match (lvl l')
                (if q = ord_remaining_quantity r then m(i := None)
                 else m(i \<mapsto> r\<lparr>ord_remaining_quantity := ord_remaining_quantity r - q\<rparr>))"
    using assms(3,5) by (auto simp: levels_match_def reduced_total)
  with l' show ?thesis by blast
qed

end

section \<open>What an order book promises\<close>

text \<open>
  \<open>refines view ok r spec\<close>: the call \<open>r\<close> did what the specification allows. Where the
  specification has a successor, the call returned and the book represents it; where it has none,
  the call threw.
\<close>

definition refines :: "('b \<Rightarrow> orders) \<Rightarrow> ('b \<Rightarrow> bool) \<Rightarrow> 'b outcome \<Rightarrow> orders option \<Rightarrow> bool" where
  "refines view ok r spec =
     (case spec of
        Some m \<Rightarrow> \<exists>b. r = Done b \<and> ok b \<and> view b = m
      | None \<Rightarrow> \<exists>x b. r = Threw x b)"

lemma refines_Some [simp]: "refines view ok r (Some m) \<longleftrightarrow> (\<exists>b. r = Done b \<and> ok b \<and> view b = m)"
  by (simp add: refines_def)

lemma refines_None [simp]: "refines view ok r None \<longleftrightarrow> (\<exists>x b. r = Threw x b)"
  by (simp add: refines_def)

text \<open>
  The four private operations of a book and the dispatch of \<open>apply\<close> over them; \<open>x\<close> is what
  the version throws when a replacement keeps its identifier.
\<close>

definition dispatch :: "('b \<Rightarrow> order_id \<Rightarrow> side \<Rightarrow> price \<Rightarrow> quantity \<Rightarrow> 'b outcome)
    \<Rightarrow> ('b \<Rightarrow> order_id \<Rightarrow> 'b outcome) \<Rightarrow> ('b \<Rightarrow> order_id \<Rightarrow> quantity \<Rightarrow> bool \<Rightarrow> 'b outcome)
    \<Rightarrow> ('b \<Rightarrow> order_id \<Rightarrow> side \<Rightarrow> price \<Rightarrow> quantity \<Rightarrow> 'b outcome) \<Rightarrow> exn
    \<Rightarrow> 'b \<Rightarrow> event \<Rightarrow> 'b outcome" where
  "dispatch add remove reduce upsert x b e =
     (case ev_type e of
        Add \<Rightarrow> add b (ev_order_id e) (ev_side e) (ev_price_ticks e) (ev_quantity e)
      | Cancel \<Rightarrow> reduce b (ev_order_id e) (ev_quantity e) False
      | Execute \<Rightarrow> reduce b (ev_order_id e) (ev_quantity e) True
      | Delete \<Rightarrow> remove b (ev_order_id e)
      | OrderDelete \<Rightarrow> remove b (ev_order_id e)
      | Replace \<Rightarrow>
          if ev_replacement_order_id e = ev_order_id e then Threw x b
          else seq (remove b (ev_order_id e))
                 (\<lambda>b'. add b' (ev_replacement_order_id e) (ev_side e) (ev_price_ticks e) (ev_quantity e))
      | OrderUpsert \<Rightarrow> upsert b (ev_order_id e) (ev_side e) (ev_price_ticks e) (ev_quantity e))"

text \<open>
  The laws of the four operations give the law of \<open>apply\<close> for every event, and from it the law
  of a whole trace.
\<close>

locale book_ops =
  fixes apply_ev :: "'b \<Rightarrow> event \<Rightarrow> 'b outcome"
    and add :: "'b \<Rightarrow> order_id \<Rightarrow> side \<Rightarrow> price \<Rightarrow> quantity \<Rightarrow> 'b outcome"
    and remove :: "'b \<Rightarrow> order_id \<Rightarrow> 'b outcome"
    and reduce :: "'b \<Rightarrow> order_id \<Rightarrow> quantity \<Rightarrow> bool \<Rightarrow> 'b outcome"
    and upsert :: "'b \<Rightarrow> order_id \<Rightarrow> side \<Rightarrow> price \<Rightarrow> quantity \<Rightarrow> 'b outcome"
    and same_id :: exn
    and view :: "'b \<Rightarrow> orders"
    and ok :: "'b \<Rightarrow> bool"
    and cap :: nat
    and rng :: "price \<Rightarrow> bool"
  assumes apply_dispatch: "apply_ev b e = dispatch add remove reduce upsert same_id b e"
    and live_le_cap: "ok b \<Longrightarrow> card (dom (view b)) \<le> cap"
    and add_refines: "ok b \<Longrightarrow> r = \<lparr>ord_side = s, ord_price_ticks = p, ord_remaining_quantity = q\<rparr> \<Longrightarrow>
      refines view ok (add b i s p q)
        (if card (dom (view b)) < cap \<and> rng p then l3_add (view b) i r else None)"
    and remove_refines: "ok b \<Longrightarrow> refines view ok (remove b i) (l3_remove (view b) i)"
    and reduce_refines: "ok b \<Longrightarrow> refines view ok (reduce b i q full) (l3_reduce (view b) i q full)"
    and upsert_refines: "ok b \<Longrightarrow> r = \<lparr>ord_side = s, ord_price_ticks = p, ord_remaining_quantity = q\<rparr> \<Longrightarrow>
      refines view ok (upsert b i s p q)
        (if (view b i = None \<longrightarrow> card (dom (view b)) < cap) \<and> rng p then l3_upsert (view b) i r else None)"
begin

lemma replace_refines:
  assumes "ok b" "i \<noteq> j" "r = \<lparr>ord_side = s, ord_price_ticks = p, ord_remaining_quantity = q\<rparr>"
  shows "refines view ok (seq (remove b i) (\<lambda>b'. add b' j s p q))
           (if rng p then Option.bind (l3_remove (view b) i) (\<lambda>m'. l3_add m' j r) else None)"
proof (cases "view b i")
  case None
  then show ?thesis
    using remove_refines [OF assms(1), of i] by (auto simp: l3_remove_def)
next
  case (Some r0)
  then have rm: "l3_remove (view b) i = Some ((view b)(i := None))"
    by (simp add: l3_remove_def)
  then obtain b' where b': "remove b i = Done b'" "ok b'" "view b' = (view b)(i := None)"
    using remove_refines [OF assms(1), of i] by auto
  have "card (dom (view b')) < card (dom (view b))"
    unfolding b'(3) dom_fun_upd using Some by (auto intro!: psubset_card_mono)
  then have "card (dom (view b')) < cap"
    using live_le_cap [OF assms(1)] by simp
  then show ?thesis
    using add_refines [OF b'(2) assms(3), of j]
    by (simp add: b'(1) rm b'(3) [symmetric] split: if_splits)
qed

text \<open>One event: the book does exactly the admitted transition, and throws where there is none.\<close>

lemma apply_refines:
  assumes "ok b"
  shows "refines view ok (apply_ev b e) (admitted cap rng (view b) e)"
proof -
  note laws = add_refines [OF assms refl] remove_refines [OF assms] reduce_refines [OF assms]
    upsert_refines [OF assms refl]
  show ?thesis
  proof (cases "ev_type e = Replace")
    case True
    then show ?thesis
      using replace_refines [OF assms _ refl, of "ev_order_id e" "ev_replacement_order_id e"
        "ev_side e" "ev_price_ticks e" "ev_quantity e"]
      by (cases "ev_replacement_order_id e = ev_order_id e")
         (simp_all add: apply_dispatch dispatch_def admitted_def fits_def l3_step_def ev_order_def
            split: if_splits)
  next
    case False
    then show ?thesis
      using laws by (cases "ev_type e")
        (simp_all add: apply_dispatch dispatch_def admitted_def fits_def l3_step_def ev_order_def
           cong: if_cong split del: if_split)
  qed
qed

lemma apply_admitted:
  assumes "ok b" "admitted cap rng (view b) e = Some m"
  obtains b' where "apply_ev b e = Done b'" "ok b'" "view b' = m"
  using apply_refines [OF assms(1), of e] assms(2) by auto

text \<open>A whole trace of admitted events runs to its end, and the book represents the final map.\<close>

lemma run_refines:
  "ok b \<Longrightarrow> l3_run cap rng (view b) es = Some m \<Longrightarrow>
     \<exists>b'. run_events apply_ev b es = Done b' \<and> ok b' \<and> view b' = m"
proof (induction es arbitrary: b)
  case Nil
  then show ?case by simp
next
  case (Cons e es)
  then obtain m1 where m1: "admitted cap rng (view b) e = Some m1" "l3_run cap rng m1 es = Some m"
    by (auto simp: bind_eq_Some_conv)
  obtain b1 where "apply_ev b e = Done b1" "ok b1" "view b1 = m1"
    using Cons.prems(1) m1(1) by (rule apply_admitted)
  then show ?case using Cons.IH [of b1] m1(2) by simp
qed

end

text \<open>The observations a book offers, each the specification's value.\<close>

locale l3_book = book_ops +
  fixes best_bid :: "'a \<Rightarrow> level option result"
    and best_ask :: "'a \<Rightarrow> level option result"
    and live_order_count :: "'a \<Rightarrow> u64"
    and state_digest :: "'a \<Rightarrow> u64 result"
  assumes best_bid_spec: "ok b \<Longrightarrow> best_bid b = Value (spec_best (view b) Bid)"
    and best_ask_spec: "ok b \<Longrightarrow> best_ask b = Value (spec_best (view b) Ask)"
    and live_spec: "ok b \<Longrightarrow> live_order_count b = of_nat (card (dom (view b)))"
    and digest_spec: "ok b \<Longrightarrow> state_digest b = Value (spec_digest (view b))"
begin

lemma run_observations:
  assumes "ok b" "l3_run cap rng (view b) es = Some m"
  shows "\<exists>b'. run_events apply_ev b es = Done b' \<and>
     best_bid b' = Value (spec_best m Bid) \<and> best_ask b' = Value (spec_best m Ask) \<and>
     live_order_count b' = of_nat (card (dom m)) \<and> state_digest b' = Value (spec_digest m)"
  using run_refines [OF assms] best_bid_spec best_ask_spec live_spec digest_spec by blast

end

end
