(* ===== verification/Indexed_Book.thy ===== *)
theory Indexed_Book
  imports L3_Spec
begin

text \<open>
  What the four operations of a book have in common in every version: the order index and the level
  store are updated together. \<open>book_ok\<close> is the invariant of a book: its index is well formed, its
  level store is well formed and holds exactly the aggregates of the live orders. The rules reduce
  the correctness of an operation to what it does after each answer of the level store.
\<close>

definition book_ok :: "('b \<Rightarrow> bool) \<Rightarrow> ('b \<Rightarrow> 'l) \<Rightarrow> ('l \<Rightarrow> bool) \<Rightarrow> ('l \<Rightarrow> side \<Rightarrow> price \<Rightarrow> quantity)
    \<Rightarrow> ('b \<Rightarrow> orders) \<Rightarrow> 'b \<Rightarrow> bool" where
  "book_ok iok levels_of linv lvl view b \<longleftrightarrow>
     iok b \<and> linv (levels_of b) \<and> levels_match (lvl (levels_of b)) (view b) \<and> valid_orders (view b)"

lemma book_okI:
  "iok b \<Longrightarrow> linv (levels_of b) \<Longrightarrow> levels_match (lvl (levels_of b)) (view b) \<Longrightarrow> valid_orders (view b) \<Longrightarrow>
     book_ok iok levels_of linv lvl view b"
  by (simp add: book_ok_def)

lemma book_okD:
  assumes "book_ok iok levels_of linv lvl view b"
  shows "iok b" "linv (levels_of b)" "levels_match (lvl (levels_of b)) (view b)" "valid_orders (view b)"
  using assms by (simp_all add: book_ok_def)

locale indexed_book = level_store add_level sub_level lvl linv rng
  for add_level :: "'l \<Rightarrow> side \<Rightarrow> price \<Rightarrow> quantity \<Rightarrow> 'l outcome"
    and sub_level :: "'l \<Rightarrow> side \<Rightarrow> price \<Rightarrow> quantity \<Rightarrow> 'l outcome"
    and lvl :: "'l \<Rightarrow> side \<Rightarrow> price \<Rightarrow> quantity"
    and linv :: "'l \<Rightarrow> bool"
    and rng :: "price \<Rightarrow> bool" +
  fixes levels_of :: "'b \<Rightarrow> 'l"
    and view :: "'b \<Rightarrow> orders"
    and iok :: "'b \<Rightarrow> bool"
    and cap :: nat
  assumes index_room: "iok b \<Longrightarrow> card (dom (view b)) \<le> cap"
begin

abbreviation ok :: "'b \<Rightarrow> bool" where
  "ok \<equiv> book_ok iok levels_of linv lvl view"

lemma add_rule:
  assumes b: "ok b" and r: "r = \<lparr>ord_side = s, ord_price_ticks = p, ord_remaining_quantity = q\<rparr>"
    and refused: "i = 0 \<or> q = 0 \<or> view b i \<noteq> None \<or> \<not> card (dom (view b)) < cap \<Longrightarrow> \<exists>x b'. res = Threw x b'"
    and done_: "\<And>l'. i \<noteq> 0 \<Longrightarrow> q \<noteq> 0 \<Longrightarrow> view b i = None \<Longrightarrow> card (dom (view b)) < cap \<Longrightarrow>
      add_level (levels_of b) s p q = Done l' \<Longrightarrow>
      \<exists>b'. res = Done b' \<and> iok b' \<and> levels_of b' = l' \<and> view b' = (view b)(i \<mapsto> r)"
    and threw: "\<And>x l'. i \<noteq> 0 \<Longrightarrow> q \<noteq> 0 \<Longrightarrow> view b i = None \<Longrightarrow> card (dom (view b)) < cap \<Longrightarrow>
      add_level (levels_of b) s p q = Threw x l' \<Longrightarrow> \<exists>x b'. res = Threw x b'"
  shows "refines view ok res (if card (dom (view b)) < cap \<and> rng p then l3_add (view b) i r else None)"
proof (cases "i = 0 \<or> q = 0 \<or> view b i \<noteq> None \<or> \<not> card (dom (view b)) < cap")
  case True
  with refused [OF True] show ?thesis by (auto simp: l3_add_def r)
next
  case False
  note b' = book_okD [OF b]
  have q: "ord_remaining_quantity r \<noteq> 0" and v: "view b i = None" using False by (auto simp: r)
  show ?thesis
  proof (cases "rng p \<and> level_total ((view b)(i \<mapsto> r)) s p < 2 ^ 64")
    case True
    obtain l' where l': "add_level (levels_of b) s p q = Done l'" "linv l'"
        "levels_match (lvl l') ((view b)(i \<mapsto> r))"
      using add_order_levels [OF b'(2,3) v q] True by (auto simp: r)
    have "valid_orders ((view b)(i \<mapsto> r))"
      using b'(4) False True by (intro valid_orders_upd) (auto simp: r)
    with done_ [OF _ _ _ _ l'(1)] False True l' show ?thesis
      by (auto simp: l3_add_def r book_ok_def)
  next
    case refuse: False
    then obtain x where "add_level (levels_of b) s p q = Threw x (levels_of b)"
      using add_order_refused [OF b'(2,3) v q] by (auto simp: r)
    with threw False refuse show ?thesis by (auto simp: l3_add_def r)
  qed
qed

lemma remove_rule:
  assumes b: "ok b" and unknown: "view b i = None \<Longrightarrow> \<exists>x b'. res = Threw x b'"
    and done_: "\<And>r l'. view b i = Some r \<Longrightarrow>
      sub_level (levels_of b) (ord_side r) (ord_price_ticks r) (ord_remaining_quantity r) = Done l' \<Longrightarrow>
      \<exists>b'. res = Done b' \<and> iok b' \<and> levels_of b' = l' \<and> view b' = (view b)(i := None)"
  shows "refines view ok res (l3_remove (view b) i)"
proof (cases "view b i")
  case None
  with unknown show ?thesis by (simp add: l3_remove_def)
next
  case (Some r)
  note b' = book_okD [OF b]
  have q: "ord_remaining_quantity r \<noteq> 0" using valid_ordersD(1) [OF b'(4) Some] by simp
  obtain l' where l': "sub_level (levels_of b) (ord_side r) (ord_price_ticks r) (ord_remaining_quantity r) = Done l'"
      "linv l'" "levels_match (lvl l') ((view b)(i := None))"
    using sub_order_levels [OF b'(2,3) Some q order_refl] by auto
  with done_ [OF Some l'(1)] Some valid_orders_drop [OF b'(4)] show ?thesis
    by (auto simp: l3_remove_def book_ok_def)
qed

lemma reduce_rule:
  assumes b: "ok b"
    and refused: "l3_reduce (view b) i q full = None \<Longrightarrow> \<exists>x b'. res = Threw x b'"
    and done_: "\<And>r l'. view b i = Some r \<Longrightarrow> q \<noteq> 0 \<Longrightarrow> q \<le> ord_remaining_quantity r \<Longrightarrow>
      full \<or> q \<noteq> ord_remaining_quantity r \<Longrightarrow>
      sub_level (levels_of b) (ord_side r) (ord_price_ticks r) q = Done l' \<Longrightarrow>
      \<exists>b'. res = Done b' \<and> iok b' \<and> levels_of b' = l' \<and>
        view b' = (if q = ord_remaining_quantity r then (view b)(i := None)
          else (view b)(i \<mapsto> r\<lparr>ord_remaining_quantity := ord_remaining_quantity r - q\<rparr>))"
  shows "refines view ok res (l3_reduce (view b) i q full)"
proof (cases "l3_reduce (view b) i q full")
  case None
  with refused show ?thesis by simp
next
  case (Some m)
  note b' = book_okD [OF b]
  obtain r where r: "view b i = Some r" "q \<noteq> 0" "q \<le> ord_remaining_quantity r" and g: "full \<or> q \<noteq> ord_remaining_quantity r"
    and m: "m = (if q = ord_remaining_quantity r then (view b)(i := None)
       else (view b)(i \<mapsto> r\<lparr>ord_remaining_quantity := ord_remaining_quantity r - q\<rparr>))"
    using Some by (auto simp: l3_reduce_def split: option.splits if_splits)
  obtain l' where l': "sub_level (levels_of b) (ord_side r) (ord_price_ticks r) q = Done l'" "linv l'"
      "levels_match (lvl l') m"
    using sub_order_levels [OF b'(2,3) r] by (auto simp: m)
  have v: "valid_orders m" using l3_reduce_valid [OF b'(4) Some] .
  obtain b'' where b'': "res = Done b''" "iok b''" "levels_of b'' = l'" "view b'' = m"
    using done_ [OF r g l'(1)] unfolding m [symmetric] by blast
  with l' v show ?thesis unfolding Some by (simp add: book_ok_def)
qed

text \<open>An update subtracts the old level first; only then is the new level tested.\<close>

lemma upsert_rule:
  assumes b: "ok b" and r: "r = \<lparr>ord_side = s, ord_price_ticks = p, ord_remaining_quantity = q\<rparr>"
    and refused: "i = 0 \<or> q = 0 \<Longrightarrow> \<exists>x b'. res = Threw x b'"
    and new: "i \<noteq> 0 \<Longrightarrow> q \<noteq> 0 \<Longrightarrow> view b i = None \<Longrightarrow>
      refines view ok res (if card (dom (view b)) < cap \<and> rng p then l3_add (view b) i r else None)"
    and done_: "\<And>o1 l1 l2. i \<noteq> 0 \<Longrightarrow> q \<noteq> 0 \<Longrightarrow> view b i = Some o1 \<Longrightarrow>
      sub_level (levels_of b) (ord_side o1) (ord_price_ticks o1) (ord_remaining_quantity o1) = Done l1 \<Longrightarrow>
      add_level l1 s p q = Done l2 \<Longrightarrow>
      \<exists>b'. res = Done b' \<and> iok b' \<and> levels_of b' = l2 \<and> view b' = (view b)(i \<mapsto> r)"
    and threw: "\<And>o1 l1 l2 x. i \<noteq> 0 \<Longrightarrow> q \<noteq> 0 \<Longrightarrow> view b i = Some o1 \<Longrightarrow>
      sub_level (levels_of b) (ord_side o1) (ord_price_ticks o1) (ord_remaining_quantity o1) = Done l1 \<Longrightarrow>
      add_level l1 s p q = Threw x l2 \<Longrightarrow> \<exists>x b'. res = Threw x b'"
  shows "refines view ok res
     (if (view b i = None \<longrightarrow> card (dom (view b)) < cap) \<and> rng p then l3_upsert (view b) i r else None)"
proof (cases "i = 0 \<or> q = 0")
  case True
  with refused show ?thesis by (auto simp: l3_upsert_def r)
next
  case False
  show ?thesis
  proof (cases "view b i")
    case None
    with new False show ?thesis by (auto simp: l3_add_def l3_upsert_def r split: if_splits)
  next
    case (Some o1)
    note b' = book_okD [OF b]
    define m where "m = (view b)(i := None)"
    have m: "m i = None" "(view b)(i \<mapsto> r) = m(i \<mapsto> r)" by (simp_all add: m_def)
    have q0: "ord_remaining_quantity o1 \<noteq> 0" using valid_ordersD(1) [OF b'(4) Some] by simp
    have q: "ord_remaining_quantity r \<noteq> 0" using False by (simp add: r)
    obtain l1 where l1: "sub_level (levels_of b) (ord_side o1) (ord_price_ticks o1) (ord_remaining_quantity o1) = Done l1"
        "linv l1" "levels_match (lvl l1) m"
      using sub_order_levels [OF b'(2,3) Some q0 order_refl] by (auto simp: m_def)
    show ?thesis
    proof (cases "rng p \<and> level_total (m(i \<mapsto> r)) s p < 2 ^ 64")
      case True
      obtain l2 where l2: "add_level l1 s p q = Done l2" "linv l2" "levels_match (lvl l2) (m(i \<mapsto> r))"
        using add_order_levels [OF l1(2,3) m(1) q] True by (auto simp: r)
      have "valid_orders (m(i \<mapsto> r))"
        using valid_orders_drop [OF b'(4), of i] False True by (intro valid_orders_upd) (auto simp: r m_def)
      with done_ [OF _ _ Some l1(1) l2(1)] False True Some l2 m(2) show ?thesis
        by (auto simp: l3_upsert_def r book_ok_def)
    next
      case refuse: False
      then obtain x where "add_level l1 s p q = Threw x l1"
        using add_order_refused [OF l1(2,3) m(1) q] by (auto simp: r)
      with threw [OF _ _ Some l1(1)] False refuse Some m(2) show ?thesis by (auto simp: l3_upsert_def r)
    qed
  qed
qed

text \<open>
  On a well-formed book a refused level addition leaves the levels as they were, and a level
  subtraction for a live order never throws.
\<close>

lemma add_threw_levels:
  assumes "ok b" "q \<noteq> 0" "add_level (levels_of b) s p q = Threw x l'"
  shows "l' = levels_of b"
  using book_okD(2) [OF assms(1)] assms(2,3) by (rule add_threw_same)

lemma sub_returns:
  assumes "ok b" "view b i = Some r" "q \<noteq> 0" "q \<le> ord_remaining_quantity r"
  shows "\<exists>l'. sub_level (levels_of b) (ord_side r) (ord_price_ticks r) q = Done l'"
  using sub_order_levels [OF book_okD(2,3) [OF assms(1)] assms(2-)] by blast

lemma sub_whole_returns:
  assumes "ok b" "view b i = Some r"
  shows "\<exists>l'. sub_level (levels_of b) (ord_side r) (ord_price_ticks r) (ord_remaining_quantity r) = Done l'"
  using sub_returns [OF assms _ order_refl] valid_ordersD(1) [OF book_okD(4) [OF assms(1)] assms(2)] by blast

end

text \<open>The events that touch one order and no other price: on these a book that throws is unchanged.\<close>

definition single_order_event :: "event \<Rightarrow> bool" where
  "single_order_event e \<longleftrightarrow> ev_type e \<in> {Add, Cancel, Execute, Delete, OrderDelete}"

text \<open>Two events for the examples: an order for 5 at tick 1005, and one with no quantity.\<close>

definition sample_add :: event where
  "sample_add = \<lparr>ev_type = Add, ev_order_id = 7, ev_replacement_order_id = 0, ev_side = Bid,
                 ev_price_ticks = 1005, ev_quantity = 5\<rparr>"

definition sample_zero :: event where
  "sample_zero = sample_add\<lparr>ev_quantity := 0\<rparr>"

end
