(* ===== verification/Order_Book.thy ===== *)
theory Order_Book
  imports Indexed_Book "HOL-Library.AList"
begin

text \<open>
  Version 1, \<open>llab::order_book::OrderBook\<close> (\<open>cpp/include/llab/order_book.hpp\<close>,
  \<open>cpp/src/order_book.cpp\<close>): orders in a \<open>std::unordered_map\<close>, levels in two
  \<open>std::map\<close>s. An unordered map is an association list whose order is its iteration order; an
  ordered map is an association list in ascending key order.
\<close>

section \<open>Ordered maps\<close>

fun omap_put :: "'k :: linorder \<Rightarrow> 'v \<Rightarrow> ('k \<times> 'v) list \<Rightarrow> ('k \<times> 'v) list" where
  "omap_put k v [] = [(k, v)]"
| "omap_put k v ((a, b) # xs) =
     (if k < a then (k, v) # (a, b) # xs
      else if k = a then (k, v) # xs
      else (a, b) # omap_put k v xs)"

definition omap_erase :: "'k \<Rightarrow> ('k \<times> 'v) list \<Rightarrow> ('k \<times> 'v) list" where
  "omap_erase k xs = filter (\<lambda>(a, _). a \<noteq> k) xs"

lemma fst_set_omap_put: "fst ` set (omap_put k v xs) = insert k (fst ` set xs)"
  by (induction k v xs rule: omap_put.induct) auto

lemma set_omap_put: "set (omap_put k v xs) \<subseteq> insert (k, v) (set xs)"
  by (induction k v xs rule: omap_put.induct) auto

lemma sorted_omap_put:
  "sorted_wrt (<) (map fst xs) \<Longrightarrow> sorted_wrt (<) (map fst (omap_put k v xs))"
proof (induction k v xs rule: omap_put.induct)
  case (2 k v a b xs)
  have "a < x" if "\<not> k < a" "k \<noteq> a" "x \<in> fst ` set (omap_put k v xs)" for x
    using that "2.prems" by (auto simp: fst_set_omap_put)
  with 2 show ?case by (auto intro: less_trans)
qed simp

lemma map_of_omap_put:
  "sorted_wrt (<) (map fst xs) \<Longrightarrow> map_of (omap_put k v xs) = (map_of xs)(k \<mapsto> v)"
proof (induction k v xs rule: omap_put.induct)
  case (2 k v a b xs)
  then show ?case by (auto simp: fun_eq_iff)
qed simp

lemma sorted_omap_erase:
  "sorted_wrt (<) (map fst xs) \<Longrightarrow> sorted_wrt (<) (map fst (omap_erase k xs))"
  by (induction xs) (auto simp: omap_erase_def)

lemma map_of_omap_erase: "map_of (omap_erase k xs) = (map_of xs)(k := None)"
  by (induction xs) (auto simp: omap_erase_def fun_eq_iff)

section \<open>State\<close>

record level_maps =
  map_bids :: "(price \<times> quantity) list"
  map_asks :: "(price \<times> quantity) list"

record order_book =
  ob_orders :: "(order_id \<times> order) list"
  ob_levels :: level_maps

definition ob_new :: order_book where
  "ob_new = \<lparr>ob_orders = [], ob_levels = \<lparr>map_bids = [], map_asks = []\<rparr>\<rparr>"

definition levels_for :: "level_maps \<Rightarrow> side \<Rightarrow> (price \<times> quantity) list" where
  "levels_for l s = (if s = Bid then map_bids l else map_asks l)"

definition set_levels :: "level_maps \<Rightarrow> side \<Rightarrow> (price \<times> quantity) list \<Rightarrow> level_maps" where
  "set_levels l s xs = (if s = Bid then l\<lparr>map_bids := xs\<rparr> else l\<lparr>map_asks := xs\<rparr>)"

lemma levels_for_set [simp]: "levels_for (set_levels l s xs) s' = (if s' = s then xs else levels_for l s')"
  by (cases s; cases s') (simp_all add: levels_for_def set_levels_def)

section \<open>Price levels\<close>

text \<open>
  \<open>levels[price]\<close> creates a zero entry when there is none; the overflow test comes after it.
\<close>

definition add_to_level :: "level_maps \<Rightarrow> side \<Rightarrow> price \<Rightarrow> quantity \<Rightarrow> level_maps outcome" where
  "add_to_level l s p q =
     (let xs = (if map_of (levels_for l s) p = None then omap_put p 0 (levels_for l s)
                else levels_for l s);
          level = the (map_of xs p)
      in if uint64_max - level < q
         then Threw (Overflow_error ''price-level quantity overflow'') (set_levels l s xs)
         else Done (set_levels l s (omap_put p (level + q) xs)))"

definition subtract_from_level :: "level_maps \<Rightarrow> side \<Rightarrow> price \<Rightarrow> quantity \<Rightarrow> level_maps outcome" where
  "subtract_from_level l s p q =
     (case map_of (levels_for l s) p of
        None \<Rightarrow> Threw (Logic_error ''invalid price-level reduction'') l
      | Some level \<Rightarrow>
          if q = 0 \<or> q > level then Threw (Logic_error ''invalid price-level reduction'') l
          else let xs = omap_put p (level - q) (levels_for l s)
               in if level - q = 0 then Done (set_levels l s (omap_erase p xs))
                  else Done (set_levels l s xs))"

section \<open>Order operations\<close>

definition ob_add_order :: "order_book \<Rightarrow> order_id \<Rightarrow> side \<Rightarrow> price \<Rightarrow> quantity \<Rightarrow> order_book outcome" where
  "ob_add_order b oid s p q =
     (if oid = 0 \<or> q = 0 \<or> map_of (ob_orders b) oid \<noteq> None
      then Threw (Invalid_argument ''invalid add order'') b
      else seq (within (\<lambda>l. b\<lparr>ob_levels := l\<rparr>) (add_to_level (ob_levels b) s p q))
             (\<lambda>b. Done (b\<lparr>ob_orders := AList.update oid
                \<lparr>ord_side = s, ord_price_ticks = p, ord_remaining_quantity = q\<rparr> (ob_orders b)\<rparr>)))"

definition ob_remove_order :: "order_book \<Rightarrow> order_id \<Rightarrow> order_book outcome" where
  "ob_remove_order b oid =
     (case map_of (ob_orders b) oid of
        None \<Rightarrow> Threw (Invalid_argument ''unknown order identifier'') b
      | Some r \<Rightarrow>
          seq (within (\<lambda>l. b\<lparr>ob_levels := l\<rparr>)
                 (subtract_from_level (ob_levels b) (ord_side r) (ord_price_ticks r) (ord_remaining_quantity r)))
            (\<lambda>b. Done (b\<lparr>ob_orders := AList.delete oid (ob_orders b)\<rparr>)))"

definition ob_subtract_from_order ::
    "order_book \<Rightarrow> order_id \<Rightarrow> quantity \<Rightarrow> bool \<Rightarrow> order_book outcome" where
  "ob_subtract_from_order b oid q allow_full_removal =
     (case map_of (ob_orders b) oid of
        None \<Rightarrow> Threw (Invalid_argument ''invalid order reduction'') b
      | Some r \<Rightarrow>
          if q = 0 \<or> q > ord_remaining_quantity r \<or>
             (\<not> allow_full_removal \<and> q = ord_remaining_quantity r)
          then Threw (Invalid_argument ''invalid order reduction'') b
          else seq (within (\<lambda>l. b\<lparr>ob_levels := l\<rparr>)
                      (subtract_from_level (ob_levels b) (ord_side r) (ord_price_ticks r) q))
                 (\<lambda>b. if q = ord_remaining_quantity r
                      then Done (b\<lparr>ob_orders := AList.delete oid (ob_orders b)\<rparr>)
                      else Done (b\<lparr>ob_orders := AList.update oid
                             (r\<lparr>ord_remaining_quantity := ord_remaining_quantity r - q\<rparr>) (ob_orders b)\<rparr>)))"

text \<open>The order is stored before its level is increased.\<close>

definition ob_upsert_order ::
    "order_book \<Rightarrow> order_id \<Rightarrow> side \<Rightarrow> price \<Rightarrow> quantity \<Rightarrow> order_book outcome" where
  "ob_upsert_order b oid s p q =
     (if oid = 0 \<or> q = 0 then Threw (Invalid_argument ''invalid order upsert'') b
      else let r = \<lparr>ord_side = s, ord_price_ticks = p, ord_remaining_quantity = q\<rparr>
        in seq (case map_of (ob_orders b) oid of
                  Some old \<Rightarrow>
                    seq (within (\<lambda>l. b\<lparr>ob_levels := l\<rparr>)
                           (subtract_from_level (ob_levels b) (ord_side old) (ord_price_ticks old)
                              (ord_remaining_quantity old)))
                      (\<lambda>b. Done (b\<lparr>ob_orders := AList.update oid r (ob_orders b)\<rparr>))
                | None \<Rightarrow> Done (b\<lparr>ob_orders := AList.update oid r (ob_orders b)\<rparr>))
             (\<lambda>b. within (\<lambda>l. b\<lparr>ob_levels := l\<rparr>) (add_to_level (ob_levels b) s p q)))"

text \<open>
  The \<open>throw\<close> after the switch needs a value outside the enumeration, which the datatype does not
  have.
\<close>

definition ob_apply :: "order_book \<Rightarrow> event \<Rightarrow> order_book outcome" where
  "ob_apply b e =
     (case ev_type e of
        Add \<Rightarrow> ob_add_order b (ev_order_id e) (ev_side e) (ev_price_ticks e) (ev_quantity e)
      | Cancel \<Rightarrow> ob_subtract_from_order b (ev_order_id e) (ev_quantity e) False
      | Execute \<Rightarrow> ob_subtract_from_order b (ev_order_id e) (ev_quantity e) True
      | Delete \<Rightarrow> ob_remove_order b (ev_order_id e)
      | OrderDelete \<Rightarrow> ob_remove_order b (ev_order_id e)
      | Replace \<Rightarrow>
          if ev_replacement_order_id e = ev_order_id e
          then Threw (Invalid_argument ''replace requires a new order identifier'') b
          else seq (ob_remove_order b (ev_order_id e))
                 (\<lambda>b. ob_add_order b (ev_replacement_order_id e) (ev_side e) (ev_price_ticks e) (ev_quantity e))
      | OrderUpsert \<Rightarrow> ob_upsert_order b (ev_order_id e) (ev_side e) (ev_price_ticks e) (ev_quantity e))"

section \<open>Observers\<close>

definition ob_best_bid :: "order_book \<Rightarrow> level option" where
  "ob_best_bid b =
     (if map_bids (ob_levels b) = [] then None
      else let (p, q) = last (map_bids (ob_levels b)) in Some \<lparr>lvl_price_ticks = p, lvl_quantity = q\<rparr>)"

definition ob_best_ask :: "order_book \<Rightarrow> level option" where
  "ob_best_ask b =
     (if map_asks (ob_levels b) = [] then None
      else let (p, q) = hd (map_asks (ob_levels b)) in Some \<lparr>lvl_price_ticks = p, lvl_quantity = q\<rparr>)"

definition ob_level_quantity :: "order_book \<Rightarrow> side \<Rightarrow> price \<Rightarrow> quantity option" where
  "ob_level_quantity b s p = map_of (levels_for (ob_levels b) s) p"

definition ob_live_order_count :: "order_book \<Rightarrow> u64" where
  "ob_live_order_count b = of_nat (length (ob_orders b))"

definition ob_at :: "order_book \<Rightarrow> order_id \<Rightarrow> order result" where
  "ob_at b oid =
     (case map_of (ob_orders b) oid of None \<Rightarrow> Raise (Out_of_range ''unordered_map::at'') | Some r \<Rightarrow> Value r)"

definition ob_state_digest :: "order_book \<Rightarrow> u64 result" where
  "ob_state_digest b =
     map_value (digest (of_nat (length (ob_orders b))) (map_bids (ob_levels b)) (map_asks (ob_levels b)))
       (for_each_value (\<lambda>oid. map_value (Pair oid) (ob_at b oid)) (sort (map fst (ob_orders b))))"

section \<open>The level maps are a level store\<close>

definition level_maps_ok :: "level_maps \<Rightarrow> bool" where
  "level_maps_ok l \<longleftrightarrow>
     (\<forall>s. sorted_wrt (<) (map fst (levels_for l s)) \<and> (\<forall>(p, q) \<in> set (levels_for l s). q \<noteq> 0))"

definition level_maps_lvl :: "level_maps \<Rightarrow> side \<Rightarrow> price \<Rightarrow> quantity" where
  "level_maps_lvl l s p = lookup0 (levels_for l s) p"

lemma level_maps_okD:
  "level_maps_ok l \<Longrightarrow> sorted_wrt (<) (map fst (levels_for l s))"
  "level_maps_ok l \<Longrightarrow> \<forall>(p, q) \<in> set (levels_for l s). q \<noteq> 0"
  by (auto simp: level_maps_ok_def)

lemma level_maps_okI:
  assumes "level_maps_ok l" "sorted_wrt (<) (map fst xs)" "\<forall>(p, q) \<in> set xs. q \<noteq> 0"
  shows "level_maps_ok (set_levels l s xs)"
  using assms by (simp add: level_maps_ok_def)

lemma level_maps_ok_put:
  assumes "level_maps_ok l" "q \<noteq> 0"
  shows "level_maps_ok (set_levels l s (omap_put p q (levels_for l s)))"
proof (rule level_maps_okI [OF assms(1)])
  show "\<forall>(p, q) \<in> set (omap_put p q (levels_for l s)). q \<noteq> 0"
    using set_omap_put [of p q "levels_for l s"] level_maps_okD(2) [OF assms(1), of s] assms(2)
    by blast
qed (simp add: sorted_omap_put level_maps_okD [OF assms(1)])

lemma level_maps_ok_erase:
  assumes "level_maps_ok l"
  shows "level_maps_ok (set_levels l s (omap_erase p (levels_for l s)))"
proof (rule level_maps_okI [OF assms])
  show "\<forall>(p, q) \<in> set (omap_erase p (levels_for l s)). q \<noteq> 0"
    using level_maps_okD(2) [OF assms, of s] by (auto simp: omap_erase_def)
qed (simp add: sorted_omap_erase level_maps_okD [OF assms])

lemma omap_put_put:
  "sorted_wrt (<) (map fst xs) \<Longrightarrow> omap_put k v (omap_put k u xs) = omap_put k v xs"
  by (induction k u xs rule: omap_put.induct) auto

lemma omap_erase_put: "omap_erase k (omap_put k v xs) = omap_erase k xs"
  by (induction k v xs rule: omap_put.induct) (auto simp: omap_erase_def)

text \<open>\<open>add_to_level\<close> and \<open>subtract_from_level\<close> on sorted maps, without the zero entry.\<close>

lemma add_to_level_eq:
  assumes "level_maps_ok l" "q \<noteq> 0"
  shows "add_to_level l s p q =
     (if 2 ^ 64 \<le> unat (level_maps_lvl l s p) + unat q
      then Threw (Overflow_error ''price-level quantity overflow'') l
      else Done (set_levels l s (omap_put p (level_maps_lvl l s p + q) (levels_for l s))))"
proof (cases "map_of (levels_for l s) p")
  case None
  then show ?thesis
    using level_maps_okD(1) [OF assms(1), of s] unat_less_2p64 [of q]
    by (simp add: add_to_level_def map_of_omap_put omap_put_put overflow_guard level_maps_lvl_def lookup0_def)
next
  case (Some v)
  have "set_levels l s (levels_for l s) = l"
    by (cases s) (simp_all add: set_levels_def levels_for_def)
  with Some show ?thesis
    by (simp add: add_to_level_def overflow_guard level_maps_lvl_def lookup0_def)
qed

lemma subtract_from_level_eq:
  assumes "q \<noteq> 0" "q \<le> level_maps_lvl l s p"
  shows "subtract_from_level l s p q =
     Done (set_levels l s
       (if q = level_maps_lvl l s p then omap_erase p (levels_for l s)
        else omap_put p (level_maps_lvl l s p - q) (levels_for l s)))"
  using assms
  by (auto simp: subtract_from_level_def level_maps_lvl_def lookup0_def omap_erase_put Let_def
      split: option.splits)

lemma level_maps_lvl_put:
  "level_maps_ok l \<Longrightarrow> level_maps_lvl (set_levels l s (omap_put p q (levels_for l s))) =
     upd_lvl (level_maps_lvl l) s p q"
  by (auto simp: fun_eq_iff level_maps_lvl_def lookup0_def map_of_omap_put level_maps_okD(1))

lemma level_maps_lvl_erase:
  "level_maps_lvl (set_levels l s (omap_erase p (levels_for l s))) = upd_lvl (level_maps_lvl l) s p 0"
  by (auto simp: fun_eq_iff level_maps_lvl_def lookup0_def map_of_omap_erase)

interpretation maps: level_store add_to_level subtract_from_level level_maps_lvl level_maps_ok "\<lambda>_. True"
proof unfold_locales
  fix l s p and q :: quantity
  assume l: "level_maps_ok l" and q: "q \<noteq> 0"
  show "\<exists>l'. add_to_level l s p q = Done l' \<and> level_maps_ok l' \<and>
      level_maps_lvl l' = upd_lvl (level_maps_lvl l) s p (level_maps_lvl l s p + q)"
    if fit: "unat (level_maps_lvl l s p) + unat q < 2 ^ 64"
  proof -
    have "unat (level_maps_lvl l s p + q) \<noteq> 0"
      using q unat_plus_u64 [OF fit] by (simp del: unat_zero_iff)
    then have "level_maps_lvl l s p + q \<noteq> 0" by auto
    with l q fit show ?thesis
      by (simp add: add_to_level_eq level_maps_ok_put level_maps_lvl_put)
  qed
  show "\<exists>x. add_to_level l s p q = Threw x l"
    if "\<not> (True \<and> unat (level_maps_lvl l s p) + unat q < 2 ^ 64)"
    using that l q by (simp add: add_to_level_eq)
  show "\<exists>l'. subtract_from_level l s p q = Done l' \<and> level_maps_ok l' \<and>
      level_maps_lvl l' = upd_lvl (level_maps_lvl l) s p (level_maps_lvl l s p - q)"
    if le: "q \<le> level_maps_lvl l s p"
    using l q le
    by (auto simp: subtract_from_level_eq level_maps_ok_put level_maps_ok_erase level_maps_lvl_put
        level_maps_lvl_erase)
qed

section \<open>The book refines the specification\<close>

definition ob_view :: "order_book \<Rightarrow> orders" where
  "ob_view b = map_of (ob_orders b)"

definition ob_index_ok :: "order_book \<Rightarrow> bool" where
  "ob_index_ok b \<longleftrightarrow> distinct (map fst (ob_orders b))"

abbreviation ob_ok :: "order_book \<Rightarrow> bool" where
  "ob_ok \<equiv> book_ok ob_index_ok ob_levels level_maps_ok level_maps_lvl ob_view"

lemma ob_ok_new: "ob_ok ob_new" "ob_view ob_new = Map.empty"
  by (simp_all add: book_ok_def ob_index_ok_def ob_new_def ob_view_def level_maps_ok_def levels_match_def
      level_maps_lvl_def lookup0_def levels_for_def)

lemma ob_view_simps [simp]:
  "ob_view (b\<lparr>ob_orders := AList.update i r (ob_orders b')\<rparr>) = (ob_view b')(i \<mapsto> r)"
  "ob_view (b\<lparr>ob_orders := AList.delete i (ob_orders b')\<rparr>) = (ob_view b')(i := None)"
  "ob_view (b\<lparr>ob_levels := l\<rparr>) = ob_view b"
  by (simp_all add: ob_view_def update_conv' delete_conv')

lemma ob_index_ok_simps [simp]:
  "ob_index_ok b' \<Longrightarrow> ob_index_ok (b\<lparr>ob_orders := AList.update i r (ob_orders b')\<rparr>)"
  "ob_index_ok b' \<Longrightarrow> ob_index_ok (b\<lparr>ob_orders := AList.delete i (ob_orders b')\<rparr>)"
  "ob_index_ok (b\<lparr>ob_levels := l\<rparr>) = ob_index_ok b"
  by (simp_all add: ob_index_ok_def distinct_update distinct_delete)

interpretation obi: indexed_book add_to_level subtract_from_level level_maps_lvl level_maps_ok "\<lambda>_. True"
  ob_levels ob_view ob_index_ok "2 ^ 64"
proof unfold_locales
  fix b
  have "card (dom (ob_view b)) \<le> CARD(u64)" by (intro card_mono) simp_all
  then show "card (dom (ob_view b)) \<le> 2 ^ 64" by (simp add: card_word)
qed

lemma ob_room: "ob_ok b \<Longrightarrow> card (dom (ob_view b)) < 2 ^ 64"
  by (rule card_valid_orders) (rule book_okD)

lemma ob_add_refines:
  assumes ok: "ob_ok b" and r: "r = \<lparr>ord_side = s, ord_price_ticks = p, ord_remaining_quantity = q\<rparr>"
  shows "refines ob_view ob_ok (ob_add_order b i s p q)
     (if card (dom (ob_view b)) < 2 ^ 64 \<and> True then l3_add (ob_view b) i r else None)"
  using ob_room [OF ok] book_okD(1) [OF ok]
  by (intro obi.add_rule [OF ok r]) (auto simp: ob_add_order_def ob_view_def [of b, symmetric] r)

lemma ob_remove_refines:
  assumes ok: "ob_ok b"
  shows "refines ob_view ob_ok (ob_remove_order b i) (l3_remove (ob_view b) i)"
  using book_okD(1) [OF ok]
  by (intro obi.remove_rule [OF ok]) (auto simp: ob_remove_order_def ob_view_def [of b, symmetric])

lemma ob_reduce_refines:
  assumes ok: "ob_ok b"
  shows "refines ob_view ob_ok (ob_subtract_from_order b i q full) (l3_reduce (ob_view b) i q full)"
  using book_okD(1) [OF ok]
  by (intro obi.reduce_rule [OF ok])
     (auto simp: ob_subtract_from_order_def l3_reduce_def ob_view_def [of b, symmetric] split: option.splits if_splits)

lemma ob_upsert_refines:
  assumes ok: "ob_ok b" and r: "r = \<lparr>ord_side = s, ord_price_ticks = p, ord_remaining_quantity = q\<rparr>"
  shows "refines ob_view ob_ok (ob_upsert_order b i s p q)
     (if (ob_view b i = None \<longrightarrow> card (dom (ob_view b)) < 2 ^ 64) \<and> True
      then l3_upsert (ob_view b) i r else None)"
proof (intro obi.upsert_rule [OF ok r])
  note index = book_okD(1) [OF ok]
  show "\<exists>x b'. ob_upsert_order b i s p q = Threw x b'" if "i = 0 \<or> q = 0"
    using that by (auto simp: ob_upsert_order_def)
  show "refines ob_view ob_ok (ob_upsert_order b i s p q)
      (if card (dom (ob_view b)) < 2 ^ 64 \<and> True then l3_add (ob_view b) i r else None)"
    if "i \<noteq> 0" "q \<noteq> 0" "ob_view b i = None"
    using that ob_room [OF ok] index
    by (intro obi.add_rule [OF ok r]) (auto simp: ob_upsert_order_def ob_view_def [of b, symmetric] r Let_def)
  show "\<exists>b'. ob_upsert_order b i s p q = Done b' \<and> ob_index_ok b' \<and> ob_levels b' = l2 \<and>
      ob_view b' = (ob_view b)(i \<mapsto> r)"
    if "i \<noteq> 0" "q \<noteq> 0" "ob_view b i = Some o1"
      "subtract_from_level (ob_levels b) (ord_side o1) (ord_price_ticks o1) (ord_remaining_quantity o1) = Done l1"
      "add_to_level l1 s p q = Done l2" for o1 l1 l2
    using that index by (auto simp: ob_upsert_order_def ob_view_def [of b, symmetric] r Let_def)
  show "\<exists>x b'. ob_upsert_order b i s p q = Threw x b'"
    if "i \<noteq> 0" "q \<noteq> 0" "ob_view b i = Some o1"
      "subtract_from_level (ob_levels b) (ord_side o1) (ord_price_ticks o1) (ord_remaining_quantity o1) = Done l1"
      "add_to_level l1 s p q = Threw x l2" for o1 l1 l2 x
    using that by (auto simp: ob_upsert_order_def ob_view_def [of b, symmetric] Let_def)
qed

text \<open>The observers show the canonical levels and orders.\<close>

lemma ob_card: "ob_ok b \<Longrightarrow> card (dom (ob_view b)) = length (ob_orders b)"
  using distinct_card [of "map fst (ob_orders b)"] book_okD(1) [of ob_index_ok ob_levels level_maps_ok level_maps_lvl ob_view b]
  by (simp add: ob_index_ok_def ob_view_def dom_map_of_conv_image_fst)

lemma ob_levels_spec:
  assumes "ob_ok b"
  shows "levels_for (ob_levels b) s = spec_levels (ob_view b) s"
  using level_maps_okD [OF book_okD(2) [OF assms], of s] levels_matchD [OF book_okD(3) [OF assms], of s]
  by (intro levels_list_spec) (auto simp: level_maps_lvl_def)

lemma ob_sides:
  assumes "ob_ok b"
  shows "map_bids (ob_levels b) = spec_levels (ob_view b) Bid"
    and "map_asks (ob_levels b) = spec_levels (ob_view b) Ask"
  using ob_levels_spec [OF assms, of Bid] ob_levels_spec [OF assms, of Ask] by (simp_all add: levels_for_def)

lemma ob_digest:
  assumes "ob_ok b"
  shows "ob_state_digest b = Value (spec_digest (ob_view b))"
proof -
  have ids: "set (map fst (ob_orders b)) = dom (ob_view b)" "distinct (map fst (ob_orders b))"
    using book_okD(1) [OF assms] by (simp_all add: ob_view_def ob_index_ok_def dom_map_of_conv_image_fst)
  have "for_each_value (\<lambda>oid. map_value (Pair oid) (ob_at b oid)) (sort (map fst (ob_orders b))) =
      Value (map (\<lambda>i. (i, the (ob_view b i))) (sort (map fst (ob_orders b))))"
    using ids(1) by (intro for_each_value_all) (auto simp: ob_at_def ob_view_def)
  then show ?thesis
    by (simp add: ob_state_digest_def spec_digest_def ob_card [OF assms] ob_sides [OF assms]
        spec_orders_sort [OF ids(2,1)])
qed

interpretation ob: l3_book ob_apply ob_add_order ob_remove_order ob_subtract_from_order ob_upsert_order
  "Invalid_argument ''replace requires a new order identifier''" ob_view ob_ok "2 ^ 64" "\<lambda>_. True"
  "\<lambda>b. Value (ob_best_bid b)" "\<lambda>b. Value (ob_best_ask b)" ob_live_order_count ob_state_digest
proof unfold_locales
  fix b :: order_book assume ok: "ob_ok b"
  show "card (dom (ob_view b)) \<le> 2 ^ 64" using ob_room [OF ok] by simp
  show "Value (ob_best_bid b) = Value (spec_best (ob_view b) Bid)"
    by (simp add: ob_best_bid_def ob_sides [OF ok] spec_best_Bid split: prod.split)
  show "Value (ob_best_ask b) = Value (spec_best (ob_view b) Ask)"
    by (simp add: ob_best_ask_def ob_sides [OF ok] spec_best_Ask split: prod.split)
  show "ob_live_order_count b = of_nat (card (dom (ob_view b)))"
    by (simp add: ob_live_order_count_def ob_card [OF ok])
qed (simp add: ob_apply_def dispatch_def,
     (rule ob_add_refines ob_remove_refines ob_reduce_refines ob_upsert_refines ob_digest; assumption)+)

section \<open>Exceptions\<close>

lemma ob_add_safe:
  assumes ok: "ob_ok b" and "ob_add_order b i s p q = Threw x b'"
  shows "b' = b"
  using assms(2) obi.add_threw_levels [OF ok, of q s p]
  by (cases "add_to_level (ob_levels b) s p q") (auto simp: ob_add_order_def split: if_splits)

lemma ob_remove_safe:
  assumes ok: "ob_ok b" and threw: "ob_remove_order b i = Threw x b'"
  shows "b' = b"
proof (cases "ob_view b i")
  case (Some r)
  from obi.sub_whole_returns [OF ok Some] threw Some show ?thesis
    by (auto simp: ob_remove_order_def ob_view_def)
qed (use threw in \<open>simp add: ob_remove_order_def ob_view_def\<close>)

lemma ob_reduce_safe:
  assumes ok: "ob_ok b" and threw: "ob_subtract_from_order b i q full = Threw x b'"
  shows "b' = b"
proof (cases "ob_view b i")
  case (Some r)
  show ?thesis
  proof (cases "q = 0 \<or> q > ord_remaining_quantity r")
    case False
    then obtain l' where "subtract_from_level (ob_levels b) (ord_side r) (ord_price_ticks r) q = Done l'"
      using obi.sub_returns [OF ok Some, of q] by (auto simp: not_less)
    with threw Some show ?thesis
      by (auto simp: ob_subtract_from_order_def ob_view_def split: if_splits)
  qed (use threw Some in \<open>auto simp: ob_subtract_from_order_def ob_view_def\<close>)
qed (use threw in \<open>simp add: ob_subtract_from_order_def ob_view_def\<close>)


text \<open>
  Version 1: an add, cancel, execute or delete that throws leaves the well-formed book exactly as
  it was.
\<close>

theorem order_book_throw_leaves_book:
  assumes "ob_ok b" "single_order_event e" "ob_apply b e = Threw x b'"
  shows "b' = b"
  using assms ob_add_safe [OF assms(1)] ob_remove_safe [OF assms(1)] ob_reduce_safe [OF assms(1)]
  by (auto simp: single_order_event_def ob_apply_def split: event_type.splits)


text \<open>
  C8. Version 1 implements the specification on every event: where the specification (with the version's
  64-bit identifiers) has a transition, \<open>apply\<close> returns a well-formed book that represents its result; where it
  has none, \<open>apply\<close> throws.
\<close>

theorem order_book_refines_spec:
  assumes "ob_ok b"
  shows "refines ob_view (ob_ok) (ob_apply b e) (admitted (2 ^ 64) (\<lambda>_. True) (ob_view b) e)"
  using assms by (rule ob.apply_refines)

theorem order_book_refines_spec_witness:
  "refines ob_view ob_ok (ob_apply ob_new sample_add) (admitted (2 ^ 64) (\<lambda>_. True) (ob_view ob_new) sample_add)"
  by (rule order_book_refines_spec) (rule ob_ok_new)

theorem order_book_throw_leaves_book_witness:
  "\<exists>x b'. ob_apply ob_new sample_zero = Threw x b' \<and> b' = ob_new"
proof -
  obtain x b' where t: "ob_apply ob_new sample_zero = Threw x b'"
    by (simp add: ob_apply_def ob_add_order_def sample_zero_def sample_add_def)
  have "single_order_event sample_zero" by (simp add: single_order_event_def sample_zero_def sample_add_def)
  from order_book_throw_leaves_book [OF ob_ok_new(1) this t] t show ?thesis by blast
qed

end
