(* ===== verification/Probing.thy ===== *)
theory Probing
  imports Book_Types "HOL-Library.Multiset"
begin

text \<open>
  Open addressing with linear probing, as all five hash indices of the sources do it: a table of a
  power-of-two size, the home slot of an identifier, the circular walk from it, and the contents of
  a table as a map. A table is seen through its cells: \<open>Some (id, value)\<close> where a slot is
  occupied, \<open>None\<close> elsewhere.
\<close>

section \<open>Indices\<close>

text \<open>\<open>w & (slots_.size() - 1)\<close>, computed in \<open>std::size_t\<close>.\<close>

definition mask_index :: "nat \<Rightarrow> u64 \<Rightarrow> nat" where
  "mask_index n w = unat (w AND (of_nat n - 1))"

definition home :: "nat \<Rightarrow> order_id \<Rightarrow> nat" where
  "home n oid = mask_index n (mix_order_id oid)"

definition next_index :: "nat \<Rightarrow> nat \<Rightarrow> nat" where
  "next_index n i = mask_index n (of_nat i + 1)"

definition distance :: "nat \<Rightarrow> nat \<Rightarrow> nat \<Rightarrow> nat" where
  "distance n from to = mask_index n (of_nat to - of_nat from)"

definition pow2_size :: "nat \<Rightarrow> bool" where
  "pow2_size n \<longleftrightarrow> (\<exists>k. 3 \<le> k \<and> k \<le> 63 \<and> n = 2 ^ k)"

lemma pow2_sizeD:
  assumes "pow2_size n"
  shows "8 \<le> n" "n \<le> 2 ^ 63"
proof -
  from assms obtain k where k: "3 \<le> k" "k \<le> 63" "n = 2 ^ k" by (auto simp: pow2_size_def)
  have "(2 :: nat) ^ 3 \<le> 2 ^ k" and "(2 :: nat) ^ k \<le> 2 ^ 63"
    using k(1,2) by (intro power_increasing; simp)+
  then show "8 \<le> n" "n \<le> 2 ^ 63" by (simp_all add: k(3))
qed

lemma mask_index_mod:
  assumes "pow2_size n"
  shows "mask_index n w = unat w mod n"
proof -
  from assms obtain k where k: "k \<le> 63" "n = 2 ^ k" by (auto simp: pow2_size_def)
  have "(of_nat n :: u64) - 1 = mask k"
    by (simp add: k(2) mask_eq_exp_minus_1)
  then have "mask_index n w = unat (take_bit k w)"
    by (simp add: mask_index_def take_bit_eq_mask)
  also have "\<dots> = take_bit k (unat w)" by (simp add: unsigned_take_bit_eq)
  finally show ?thesis
    by (simp only: k(2) take_bit_eq_mod)
qed

lemma mask_index_less: "pow2_size n \<Longrightarrow> mask_index n w < n"
  using pow2_sizeD [of n] by (simp add: mask_index_mod)

lemma home_less: "pow2_size n \<Longrightarrow> home n oid < n"
  by (simp add: home_def mask_index_less)

lemma next_index_mod [index_simps]:
  assumes "pow2_size n" "i < n"
  shows "next_index n i = (i + 1) mod n"
proof -
  have "unat (of_nat i + 1 :: u64) = i + 1"
    using pow2_sizeD [OF assms(1)] assms(2) unat_of_nat_u64 [of "i + 1"] by (simp add: add.commute)
  then show ?thesis by (simp add: next_index_def mask_index_mod [OF assms(1)])
qed

lemma distance_mod [index_simps]:
  assumes "pow2_size n" "from < n" "to < n"
  shows "distance n from to = (to + n - from) mod n"
proof -
  obtain k where k: "n = 2 ^ k" "k \<le> 63" using assms(1) by (auto simp: pow2_size_def)
  have u: "unat (of_nat from :: u64) = from" "unat (of_nat to :: u64) = to"
    using assms pow2_sizeD [OF assms(1)] by (simp_all add: unat_of_nat_u64)
  have dvd: "n dvd 2 ^ 64" unfolding k(1) using k(2) by (intro le_imp_power_dvd) simp
  show ?thesis
  proof (cases "from \<le> to")
    case True
    then have "(to + n - from) mod n = (to - from) mod n"
      by (metis Nat.diff_add_assoc2 mod_add_self2)
    then show ?thesis
      using True u by (simp add: distance_def mask_index_mod [OF assms(1)] unat_sub_if')
  next
    case False
    then have "unat (of_nat to - of_nat from :: u64) = to + 2 ^ 64 - from"
      using u by (simp add: unat_sub_if')
    moreover obtain c where c: "2 ^ 64 = n * c" using dvd by (rule dvdE)
    moreover have "c \<noteq> 0" using c by (cases c) auto
    then have "to + n * c - from = (to + n - from) + n * (c - 1)"
      using assms(2) by (cases c) (simp_all add: algebra_simps)
    ultimately show ?thesis
      by (simp add: distance_def mask_index_mod [OF assms(1)])
  qed
qed

section \<open>The circular walk\<close>

text \<open>\<open>pos n h j\<close> is the slot \<open>j\<close> steps after \<open>h\<close>; \<open>dist n h i\<close> the steps from \<open>h\<close> to \<open>i\<close>.\<close>

definition pos :: "nat \<Rightarrow> nat \<Rightarrow> nat \<Rightarrow> nat" where
  "pos n h j = (h + j) mod n"

definition dist :: "nat \<Rightarrow> nat \<Rightarrow> nat \<Rightarrow> nat" where
  "dist n h i = (i + n - h) mod n"

lemma pos_less [simp]: "0 < n \<Longrightarrow> pos n h j < n"
  by (simp add: pos_def)

lemma dist_less [simp]: "0 < n \<Longrightarrow> dist n h i < n"
  by (simp add: dist_def)

lemma pos_0 [simp]: "h < n \<Longrightarrow> pos n h 0 = h"
  by (simp add: pos_def)

lemma pos_less_length: "j < length xs \<Longrightarrow> pos (length xs) h i < length xs"
  by (intro pos_less) auto

lemma dist_less_length: "j < length xs \<Longrightarrow> dist (length xs) h i < length xs"
  by (intro dist_less) auto

lemma pos_Suc: "Suc (pos n h j) mod n = pos n h (Suc j)"
  by (simp add: pos_def mod_Suc_eq)

lemma dist_if: "h < n \<Longrightarrow> i < n \<Longrightarrow> dist n h i = (if h \<le> i then i - h else i + n - h)"
  by (auto simp: dist_def le_mod_geq)

lemma pos_if: "h < n \<Longrightarrow> j < n \<Longrightarrow> pos n h j = (if h + j < n then h + j else h + j - n)"
  by (auto simp: pos_def le_mod_geq)

lemma pos_dist [simp]: "h < n \<Longrightarrow> i < n \<Longrightarrow> pos n h (dist n h i) = i"
  by (cases "h \<le> i") (simp_all add: pos_def dist_if)

lemma dist_pos [simp]: "h < n \<Longrightarrow> j < n \<Longrightarrow> dist n h (pos n h j) = j"
  by (auto simp: pos_if dist_if)

lemma pos_inj: "h < n \<Longrightarrow> i < n \<Longrightarrow> j < n \<Longrightarrow> pos n h i = pos n h j \<longleftrightarrow> i = j"
  by (metis dist_pos)

lemma dist_inj: "h < n \<Longrightarrow> i < n \<Longrightarrow> j < n \<Longrightarrow> dist n h i = dist n h j \<longleftrightarrow> i = j"
  by (metis pos_dist)

lemma pos_cover: "h < n \<Longrightarrow> i < n \<Longrightarrow> \<exists>j<n. pos n h j = i"
  by (metis dist_less gr_implies_not0 neq0_conv pos_dist)

section \<open>Cells as a map\<close>

type_synonym 'v cells = "(order_id \<times> 'v) option list"

fun entries :: "'v cells \<Rightarrow> (order_id \<times> 'v) list" where
  "entries [] = []"
| "entries (None # ys) = entries ys"
| "entries (Some e # ys) = e # entries ys"

definition cells_map :: "'v cells \<Rightarrow> (order_id \<rightharpoonup> 'v)" where
  "cells_map ys = map_of (entries ys)"

definition cells_distinct :: "'v cells \<Rightarrow> bool" where
  "cells_distinct ys \<longleftrightarrow> distinct (map fst (entries ys))"

lemma entries_append [simp]: "entries (xs @ ys) = entries xs @ entries ys"
  by (induction xs rule: entries.induct) simp_all

lemma set_entries: "e \<in> set (entries ys) \<longleftrightarrow> Some e \<in> set ys"
  by (induction ys rule: entries.induct) auto

lemma mset_entries: "mset (entries ys) = image_mset the (filter_mset (\<lambda>c. c \<noteq> None) (mset ys))"
  by (induction ys rule: entries.induct) simp_all

lemma entries_perm: "mset xs = mset ys \<Longrightarrow> mset (entries xs) = mset (entries ys)"
  by (simp add: mset_entries)

lemma cells_perm:
  assumes "mset xs = mset ys"
  shows "cells_distinct xs = cells_distinct ys" "cells_distinct xs \<Longrightarrow> cells_map xs = cells_map ys"
proof -
  have m: "mset (entries xs) = mset (entries ys)" by (rule entries_perm) (rule assms)
  then have "mset (map fst (entries xs)) = mset (map fst (entries ys))" by simp
  then show d: "cells_distinct xs = cells_distinct ys"
    unfolding cells_distinct_def by (rule mset_eq_imp_distinct_iff)
  have s: "set (entries xs) = set (entries ys)" using m by (metis set_mset_mset)
  assume "cells_distinct xs"
  with d s show "cells_map xs = cells_map ys"
    unfolding cells_map_def cells_distinct_def by (metis map_of_inject_set)
qed

lemma cells_map_iff:
  assumes "cells_distinct ys"
  shows "cells_map ys oid = Some v \<longleftrightarrow> (\<exists>i < length ys. ys ! i = Some (oid, v))"
proof -
  have "cells_map ys oid = Some v \<longleftrightarrow> (oid, v) \<in> set (entries ys)"
    using assms by (simp add: cells_map_def cells_distinct_def)
  also have "\<dots> \<longleftrightarrow> Some (oid, v) \<in> set ys" by (rule set_entries)
  finally show ?thesis by (auto simp: in_set_conv_nth)
qed

lemma cells_unique:
  assumes "cells_distinct ys" "i < length ys" "j < length ys"
    and "ys ! i = Some (oid, v)" "ys ! j = Some (oid, w)"
  shows "i = j"
  using assms
proof (induction ys arbitrary: i j)
  case (Cons y ys)
  show ?case
  proof (cases y)
    case None
    with Cons show ?thesis by (cases i; cases j) (auto simp: cells_distinct_def)
  next
    case (Some e)
    have "oid \<in> fst ` set (entries ys)" if "k < length ys" "ys ! k = Some (oid, u)" for k u
      using that nth_mem [of k ys] set_entries [of "(oid, u)" ys] by force
    then show ?thesis
      using Cons Some by (cases i; cases j) (fastforce simp: cells_distinct_def)+
  qed
qed simp

lemma cells_split:
  assumes "i < length ys"
  shows "ys[i := c] = take i ys @ c # drop (Suc i) ys" "ys = take i ys @ ys ! i # drop (Suc i) ys"
  using assms by (simp_all add: upd_conv_take_nth_drop id_take_nth_drop)

lemma map_of_mid:
  "k \<notin> fst ` set xs \<Longrightarrow> map_of (xs @ (k, v) # ys) = (map_of (xs @ ys))(k \<mapsto> v)"
  by (induction xs) (auto simp: fun_eq_iff)

lemma map_of_drop_key: "k \<notin> fst ` set xs \<Longrightarrow> (map_of xs)(k := None) = map_of xs"
  by (simp add: fun_upd_idem_iff map_of_eq_None_iff)

text \<open>Writing one cell: a new identifier, a new value for the same identifier, an empty cell.\<close>

lemma cells_insert:
  assumes "cells_distinct ys" "i < length ys" "ys ! i = None" "cells_map ys oid = None"
  shows "cells_distinct (ys[i := Some (oid, v)])"
    and "cells_map (ys[i := Some (oid, v)]) = (cells_map ys)(oid \<mapsto> v)"
proof -
  define a b where "a = entries (take i ys)" and "b = entries (drop (Suc i) ys)"
  have e: "entries ys = a @ b"
    by (subst cells_split(2) [OF assms(2)]) (simp add: assms(3) a_def b_def)
  have e': "entries (ys[i := Some (oid, v)]) = a @ (oid, v) # b"
    by (simp add: cells_split(1) [OF assms(2)] a_def b_def)
  have n: "oid \<notin> fst ` set (entries ys)"
    using assms(4) by (simp add: cells_map_def map_of_eq_None_iff)
  show "cells_distinct (ys[i := Some (oid, v)])"
    using assms(1) n unfolding cells_distinct_def e e' by auto
  show "cells_map (ys[i := Some (oid, v)]) = (cells_map ys)(oid \<mapsto> v)"
    unfolding cells_map_def e e' using n by (intro map_of_mid) (simp add: e image_Un)
qed

lemma cells_remove:
  assumes "cells_distinct ys" "i < length ys" "ys ! i = Some (oid, v)"
  shows "cells_distinct (ys[i := None])" "cells_map (ys[i := None]) = (cells_map ys)(oid := None)"
proof -
  define a b where "a = entries (take i ys)" and "b = entries (drop (Suc i) ys)"
  have e: "entries ys = a @ (oid, v) # b"
    by (subst cells_split(2) [OF assms(2)]) (simp add: assms(3) a_def b_def)
  have e': "entries (ys[i := None]) = a @ b"
    by (simp add: cells_split(1) [OF assms(2)] a_def b_def)
  have n: "oid \<notin> fst ` set a" "oid \<notin> fst ` set (a @ b)"
    using assms(1) by (auto simp: e cells_distinct_def)
  show "cells_distinct (ys[i := None])"
    using assms(1) unfolding cells_distinct_def e e' by auto
  show "cells_map (ys[i := None]) = (cells_map ys)(oid := None)"
    unfolding cells_map_def e e' map_of_mid [OF n(1)]
    using map_of_drop_key [OF n(2)] by (simp del: map_of_append)
qed

lemma cells_replace:
  assumes "cells_distinct ys" "i < length ys" "ys ! i = Some (oid, v)"
  shows "cells_distinct (ys[i := Some (oid, w)])"
    and "cells_map (ys[i := Some (oid, w)]) = (cells_map ys)(oid \<mapsto> w)"
proof -
  note rm = cells_remove [OF assms]
  have "cells_map (ys[i := None]) oid = None" by (simp add: rm(2))
  from cells_insert [OF rm(1) _ _ this, of i w]
  show "cells_distinct (ys[i := Some (oid, w)])"
    "cells_map (ys[i := Some (oid, w)]) = (cells_map ys)(oid \<mapsto> w)"
    using assms(2) by (simp_all add: rm(2))
qed

lemma card_cells_map: "cells_distinct ys \<Longrightarrow> card (dom (cells_map ys)) = length (entries ys)"
  using distinct_card [of "map fst (entries ys)"]
  by (simp add: cells_distinct_def cells_map_def dom_map_of_conv_image_fst)

lemma length_entries_le: "length (entries ys) \<le> length ys"
  by (induction ys rule: entries.induct) simp_all

lemma entries_full: "length (entries ys) = length ys \<longleftrightarrow> None \<notin> set ys"
proof (induction ys)
  case (Cons y ys)
  then show ?case using length_entries_le [of ys] by (cases y) auto
qed simp

section \<open>Probe paths\<close>

text \<open>
  \<open>path_full full ys\<close>: on the way from the home of an occupied cell to the cell itself every slot
  satisfies \<open>full\<close>, so that a search from the home does not stop before it.
\<close>

definition path_full :: "(nat \<Rightarrow> bool) \<Rightarrow> 'v cells \<Rightarrow> bool" where
  "path_full full ys \<longleftrightarrow>
     (\<forall>i < length ys. \<forall>oid v. ys ! i = Some (oid, v) \<longrightarrow>
        (\<forall>j < dist (length ys) (home (length ys) oid) i. full (pos (length ys) (home (length ys) oid) j)))"

lemma path_fullD:
  "path_full full ys \<Longrightarrow> i < length ys \<Longrightarrow> ys ! i = Some (oid, v) \<Longrightarrow>
     j < dist (length ys) (home (length ys) oid) i \<Longrightarrow> full (pos (length ys) (home (length ys) oid) j)"
  by (simp add: path_full_def)

lemma path_fullI:
  "(\<And>i oid v j. i < length ys \<Longrightarrow> ys ! i = Some (oid, v) \<Longrightarrow>
     j < dist (length ys) (home (length ys) oid) i \<Longrightarrow> full (pos (length ys) (home (length ys) oid) j))
   \<Longrightarrow> path_full full ys"
  by (simp add: path_full_def)

end
