(* ===== verification/Order_Index.thy ===== *)
theory Order_Index
  imports Probing
begin

text \<open>
  The contract of an order index: four operations over a finite map from identifiers to values, with
  a bound on the number of live entries. A client that runs any sequence of operations gets the
  replies of the map. The two hash indices of the sources are instances.
\<close>

datatype 'v index_op =
    Insert_op order_id 'v
  | Find_op order_id
  | Store_op order_id 'v
  | Erase_op order_id

datatype 'v index_reply =
    Inserted bool
  | Found "'v option"
  | Stored bool
  | Erased "'v option"

text \<open>One operation on the reference map, and on an index with the given methods.\<close>

definition map_op :: "nat \<Rightarrow> (order_id \<rightharpoonup> 'v) \<Rightarrow> 'v index_op \<Rightarrow> 'v index_reply \<times> (order_id \<rightharpoonup> 'v)" where
  "map_op cap m op =
     (case op of
        Insert_op i v \<Rightarrow>
          if m i = None \<and> card (dom m) < cap then (Inserted True, m(i \<mapsto> v)) else (Inserted False, m)
      | Find_op i \<Rightarrow> (Found (m i), m)
      | Store_op i v \<Rightarrow> if m i = None then (Stored False, m) else (Stored True, m(i \<mapsto> v))
      | Erase_op i \<Rightarrow> (Erased (m i), m(i := None)))"

fun map_ops :: "nat \<Rightarrow> (order_id \<rightharpoonup> 'v) \<Rightarrow> 'v index_op list \<Rightarrow> 'v index_reply list \<times> (order_id \<rightharpoonup> 'v)" where
  "map_ops cap m [] = ([], m)"
| "map_ops cap m (op # ops) =
     (let (r, m') = map_op cap m op; (rs, m'') = map_ops cap m' ops in (r # rs, m''))"

definition index_op :: "('x \<Rightarrow> order_id \<Rightarrow> 'v option) \<Rightarrow> ('x \<Rightarrow> order_id \<Rightarrow> 'v \<Rightarrow> 'x option)
    \<Rightarrow> ('x \<Rightarrow> order_id \<Rightarrow> 'v \<Rightarrow> 'x) \<Rightarrow> ('x \<Rightarrow> order_id \<Rightarrow> ('v option \<times> 'x) result)
    \<Rightarrow> 'x \<Rightarrow> 'v index_op \<Rightarrow> ('v index_reply \<times> 'x) option" where
  "index_op lookup ins store del x op =
     (case op of
        Insert_op i v \<Rightarrow>
          (case ins x i v of None \<Rightarrow> Some (Inserted False, x) | Some x' \<Rightarrow> Some (Inserted True, x'))
      | Find_op i \<Rightarrow> Some (Found (lookup x i), x)
      | Store_op i v \<Rightarrow>
          (case lookup x i of None \<Rightarrow> Some (Stored False, x) | Some _ \<Rightarrow> Some (Stored True, store x i v))
      | Erase_op i \<Rightarrow>
          (case del x i of Value (r, x') \<Rightarrow> Some (Erased r, x') | Raise _ \<Rightarrow> None | Loops \<Rightarrow> None))"

fun index_ops :: "('x \<Rightarrow> order_id \<Rightarrow> 'v option) \<Rightarrow> ('x \<Rightarrow> order_id \<Rightarrow> 'v \<Rightarrow> 'x option)
    \<Rightarrow> ('x \<Rightarrow> order_id \<Rightarrow> 'v \<Rightarrow> 'x) \<Rightarrow> ('x \<Rightarrow> order_id \<Rightarrow> ('v option \<times> 'x) result)
    \<Rightarrow> 'x \<Rightarrow> 'v index_op list \<Rightarrow> ('v index_reply list \<times> 'x) option" where
  "index_ops lookup ins store del x [] = Some ([], x)"
| "index_ops lookup ins store del x (op # ops) =
     (case index_op lookup ins store del x op of
        None \<Rightarrow> None
      | Some (r, x') \<Rightarrow>
          (case index_ops lookup ins store del x' ops of
             None \<Rightarrow> None | Some (rs, x'') \<Rightarrow> Some (r # rs, x'')))"

text \<open>Identifier 0 is reserved: the books never insert it.\<close>

definition op_valid :: "'v index_op \<Rightarrow> bool" where
  "op_valid op = (case op of Insert_op i v \<Rightarrow> i \<noteq> 0 | _ \<Rightarrow> True)"

locale order_index =
  fixes lookup :: "'x \<Rightarrow> order_id \<Rightarrow> 'v option"
    and ins :: "'x \<Rightarrow> order_id \<Rightarrow> 'v \<Rightarrow> 'x option"
    and store :: "'x \<Rightarrow> order_id \<Rightarrow> 'v \<Rightarrow> 'x"
    and del :: "'x \<Rightarrow> order_id \<Rightarrow> ('v option \<times> 'x) result"
    and imap :: "'x \<Rightarrow> (order_id \<rightharpoonup> 'v)"
    and iinv :: "'x \<Rightarrow> bool"
    and room :: "'x \<Rightarrow> nat"
  assumes find_map: "iinv x \<Longrightarrow> lookup x i = imap x i"
    and insert_done: "iinv x \<Longrightarrow> i \<noteq> 0 \<Longrightarrow> imap x i = None \<Longrightarrow> card (dom (imap x)) < room x \<Longrightarrow>
      \<exists>x'. ins x i v = Some x' \<and> iinv x' \<and> imap x' = (imap x)(i \<mapsto> v) \<and> room x' = room x"
    and insert_refused: "iinv x \<Longrightarrow> imap x i \<noteq> None \<or> \<not> card (dom (imap x)) < room x \<Longrightarrow> ins x i v = None"
    and store_done: "iinv x \<Longrightarrow> imap x i = Some u \<Longrightarrow>
      iinv (store x i v) \<and> imap (store x i v) = (imap x)(i \<mapsto> v) \<and> room (store x i v) = room x"
    and erase_done: "iinv x \<Longrightarrow>
      \<exists>x'. del x i = Value (imap x i, x') \<and> iinv x' \<and> imap x' = (imap x)(i := None) \<and> room x' = room x"
begin

lemma op_refines:
  assumes x: "iinv x" and op: "op_valid op"
  shows "\<exists>x'. index_op lookup ins store del x op = Some (fst (map_op (room x) (imap x) op), x') \<and>
     iinv x' \<and> imap x' = snd (map_op (room x) (imap x) op) \<and> room x' = room x"
proof (cases op)
  case (Insert_op i v)
  then show ?thesis
    using insert_done [OF x, of i v] insert_refused [OF x, of i v] op x
    by (cases "imap x i = None \<and> card (dom (imap x)) < room x")
       (auto simp: index_op_def map_op_def op_valid_def)
next
  case (Find_op i)
  then show ?thesis using x by (simp add: index_op_def map_op_def find_map)
next
  case (Store_op i v)
  then show ?thesis
    using store_done [OF x, of i] x
    by (cases "imap x i") (auto simp: index_op_def map_op_def find_map)
next
  case (Erase_op i)
  then show ?thesis
    using erase_done [OF x, of i] by (auto simp: index_op_def map_op_def)
qed

text \<open>Any sequence of operations returns, with the replies of the map.\<close>

lemma ops_refine:
  "iinv x \<Longrightarrow> list_all op_valid ops \<Longrightarrow>
     \<exists>x'. index_ops lookup ins store del x ops = Some (fst (map_ops (room x) (imap x) ops), x') \<and>
       iinv x' \<and> imap x' = snd (map_ops (room x) (imap x) ops) \<and> room x' = room x"
proof (induction ops arbitrary: x)
  case (Cons op ops)
  then obtain x1 where x1: "index_op lookup ins store del x op = Some (fst (map_op (room x) (imap x) op), x1)"
      "iinv x1" "imap x1 = snd (map_op (room x) (imap x) op)" "room x1 = room x"
    using op_refines [of x op] by auto
  with Cons.IH [of x1] Cons.prems(2) show ?case by (auto simp: split_beta Let_def)
qed simp

end

end
