(* ===== verification/Tombstone_Index.thy ===== *)
theory Tombstone_Index
  imports Order_Index
begin

text \<open>
  The order index of versions 2 to 4: linear probing with tombstones. The searches are the loops
  \<open>find_slot\<close> and \<open>insertion_slot\<close> of \<open>cpp/src/parity_order_book.cpp\<close> (\<open>find\<close>,
  \<open>insert_slot\<close> and \<open>insertion\<close> of the ladder books are the same loops); an index equal to the
  table size means that there is no such slot.
\<close>

datatype slot_state = Empty | Occupied | Tombstone

record 'o slot =
  sl_order_id :: order_id
  sl_order :: 'o
  sl_state :: slot_state

function find_from :: "'o slot list \<Rightarrow> order_id \<Rightarrow> nat \<Rightarrow> nat \<Rightarrow> nat" where
  "find_from slots oid index step =
     (if step < length slots then
        let slot = slots ! index in
        if sl_state slot = Empty then length slots
        else if sl_state slot = Occupied \<and> sl_order_id slot = oid then index
        else find_from slots oid (next_index (length slots) index) (step + 1)
      else length slots)"
  by pat_completeness auto
termination
  by (relation "measure (\<lambda>(slots, oid, index, step). length slots - step)") auto

definition find_slot :: "'o slot list \<Rightarrow> order_id \<Rightarrow> nat" where
  "find_slot slots oid = find_from slots oid (home (length slots) oid) 0"

function insertion_from :: "'o slot list \<Rightarrow> order_id \<Rightarrow> nat \<Rightarrow> nat \<Rightarrow> nat \<Rightarrow> nat" where
  "insertion_from slots oid index step first_tombstone =
     (if step < length slots then
        let slot = slots ! index in
        if sl_state slot = Empty
        then (if first_tombstone = length slots then index else first_tombstone)
        else let first_tombstone = (if sl_state slot = Tombstone \<and> first_tombstone = length slots
                                    then index else first_tombstone)
          in if sl_state slot = Occupied \<and> sl_order_id slot = oid then length slots
             else insertion_from slots oid (next_index (length slots) index) (step + 1) first_tombstone
      else first_tombstone)"
  by pat_completeness auto
termination
  by (relation "measure (\<lambda>(slots, oid, index, step, ft). length slots - step)") auto

definition insertion_slot :: "'o slot list \<Rightarrow> order_id \<Rightarrow> nat" where
  "insertion_slot slots oid = insertion_from slots oid (home (length slots) oid) 0 (length slots)"

declare find_from.simps [simp del] insertion_from.simps [simp del]

text \<open>The writes the books make at an index: a new order, a new state of an order, a tombstone.\<close>

definition occupy :: "'o slot list \<Rightarrow> nat \<Rightarrow> order_id \<Rightarrow> 'o \<Rightarrow> 'o slot list" where
  "occupy slots index oid r =
     slots[index := \<lparr>sl_order_id = oid, sl_order = r, sl_state = Occupied\<rparr>]"

definition set_order :: "'o slot list \<Rightarrow> nat \<Rightarrow> 'o \<Rightarrow> 'o slot list" where
  "set_order slots index r = slots[index := (slots ! index)\<lparr>sl_order := r\<rparr>]"

definition bury :: "'o slot list \<Rightarrow> nat \<Rightarrow> 'o slot list" where
  "bury slots index = slots[index := (slots ! index)\<lparr>sl_state := Tombstone\<rparr>]"

definition empty_slots :: "nat \<Rightarrow> 'o \<Rightarrow> 'o slot list" where
  "empty_slots n r = replicate n \<lparr>sl_order_id = 0, sl_order = r, sl_state = Empty\<rparr>"

section \<open>Contents and invariant\<close>

definition slot_cell :: "'o slot \<Rightarrow> (order_id \<times> 'o) option" where
  "slot_cell s = (if sl_state s = Occupied then Some (sl_order_id s, sl_order s) else None)"

definition slots_map :: "'o slot list \<Rightarrow> (order_id \<rightharpoonup> 'o)" where
  "slots_map slots = cells_map (map slot_cell slots)"

definition slots_ok :: "'o slot list \<Rightarrow> bool" where
  "slots_ok slots \<longleftrightarrow>
     pow2_size (length slots) \<and> cells_distinct (map slot_cell slots) \<and>
     path_full (\<lambda>i. sl_state (slots ! i) \<noteq> Empty) (map slot_cell slots)"

lemma slots_okD:
  assumes "slots_ok slots"
  shows "pow2_size (length slots)" "cells_distinct (map slot_cell slots)"
    and "path_full (\<lambda>i. sl_state (slots ! i) \<noteq> Empty) (map slot_cell slots)"
  using assms by (simp_all add: slots_ok_def)

lemma slots_ok_pos: "slots_ok slots \<Longrightarrow> 0 < length slots"
  using pow2_sizeD(1) [OF slots_okD(1)] by force

lemma slot_cell_Some: "slot_cell s = Some (oid, r) \<longleftrightarrow> sl_state s = Occupied \<and> sl_order_id s = oid \<and> sl_order s = r"
  by (auto simp: slot_cell_def)

lemma slots_map_iff:
  "slots_ok slots \<Longrightarrow> slots_map slots oid = Some r \<longleftrightarrow>
     (\<exists>i < length slots. sl_state (slots ! i) = Occupied \<and> sl_order_id (slots ! i) = oid \<and> sl_order (slots ! i) = r)"
  unfolding slots_map_def by (subst cells_map_iff) (auto simp: slots_okD slot_cell_Some)

lemma slots_map_None:
  "slots_ok slots \<Longrightarrow> slots_map slots oid = None \<longleftrightarrow>
     (\<forall>i < length slots. \<not> (sl_state (slots ! i) = Occupied \<and> sl_order_id (slots ! i) = oid))"
  using slots_map_iff [of slots oid] by (metis not_Some_eq)

lemma slots_ok_empty:
  assumes "pow2_size n"
  shows "slots_ok (empty_slots n r)" "slots_map (empty_slots n r) = Map.empty"
proof -
  have c: "map slot_cell (empty_slots n r) = replicate n None"
    by (simp add: empty_slots_def slot_cell_def)
  have e: "entries (replicate n None) = []" for n :: nat by (induction n) simp_all
  show "slots_map (empty_slots n r) = Map.empty" by (simp add: slots_map_def c cells_map_def e)
  show "slots_ok (empty_slots n r)"
    unfolding slots_ok_def c using assms
    by (simp add: cells_distinct_def e path_full_def) (simp add: empty_slots_def)
qed

section \<open>Searching\<close>

text \<open>Walking on: the next index is the next position of the walk.\<close>

lemma next_pos:
  "pow2_size n \<Longrightarrow> next_index n (pos n h step) = pos n h (Suc step)"
  using pow2_sizeD(1) [of n] by (simp add: index_simps pos_Suc)

definition holds_id :: "'o slot list \<Rightarrow> order_id \<Rightarrow> nat \<Rightarrow> bool" where
  "holds_id slots oid i \<longleftrightarrow> sl_state (slots ! i) = Occupied \<and> sl_order_id (slots ! i) = oid"

lemma find_from_hit:
  assumes n: "pow2_size (length slots)" and j: "j < length slots"
    and hit: "holds_id slots oid (pos (length slots) h j)"
    and path: "\<And>i. i < j \<Longrightarrow> sl_state (slots ! pos (length slots) h i) \<noteq> Empty \<and>
      \<not> holds_id slots oid (pos (length slots) h i)"
  shows "step \<le> j \<Longrightarrow> find_from slots oid (pos (length slots) h step) step = pos (length slots) h j"
proof (induction "j - step" arbitrary: step)
  case 0
  then have "step = j" by simp
  with hit j show ?case
    by (simp add: holds_id_def find_from.simps [of slots oid "pos (length slots) h j" j])
next
  case (Suc d)
  then have lt: "step < j" and d: "d = j - Suc step" by auto
  then have "find_from slots oid (pos (length slots) h (Suc step)) (Suc step) = pos (length slots) h j"
    using Suc.hyps(1) [OF d] by simp
  with path [OF lt] lt j show ?case
    by (auto simp: holds_id_def next_pos [OF n] Let_def
        find_from.simps [of slots oid "pos (length slots) h step" step])
qed

lemma find_from_miss:
  assumes n: "pow2_size (length slots)" and none: "\<And>i. i < length slots \<Longrightarrow> \<not> holds_id slots oid i"
  shows "step \<le> length slots \<Longrightarrow> find_from slots oid (pos (length slots) h step) step = length slots"
proof (induction "length slots - step" arbitrary: step)
  case 0
  then show ?case by (simp add: find_from.simps)
next
  case (Suc d)
  then have lt: "step < length slots" and d: "d = length slots - Suc step" by auto
  have "\<not> holds_id slots oid (pos (length slots) h step)"
    using none pos_less_length [OF lt] by blast
  with lt Suc.hyps(1) [OF d] show ?case
    by (auto simp: holds_id_def next_pos [OF n] Let_def
        find_from.simps [of slots oid "pos (length slots) h step" step])
qed

lemma insertion_from_dup:
  assumes n: "pow2_size (length slots)" and j: "j < length slots"
    and hit: "holds_id slots oid (pos (length slots) h j)"
    and path: "\<And>i. i < j \<Longrightarrow> sl_state (slots ! pos (length slots) h i) \<noteq> Empty"
  shows "step \<le> j \<Longrightarrow> insertion_from slots oid (pos (length slots) h step) step ft = length slots"
proof (induction "j - step" arbitrary: step ft)
  case 0
  then have "step = j" by simp
  with hit j show ?case
    by (simp add: holds_id_def insertion_from.simps [of slots oid "pos (length slots) h j" j])
next
  case (Suc d)
  then have lt: "step < j" and d: "d = j - Suc step" by auto
  then have "insertion_from slots oid (pos (length slots) h (Suc step)) (Suc step) ft' = length slots" for ft'
    using Suc.hyps(1) [OF d] by simp
  with path [OF lt] lt j show ?case
    by (auto simp: next_pos [OF n] Let_def
        insertion_from.simps [of slots oid "pos (length slots) h step" step])
qed

text \<open>
  Where the identifier is absent, the insertion search returns the first slot of the walk that is
  not occupied, and fails only on a table full of orders.
\<close>

definition free_at :: "'o slot list \<Rightarrow> nat \<Rightarrow> nat \<Rightarrow> bool" where
  "free_at slots h r \<longleftrightarrow>
     (if r = length slots then \<forall>i < length slots. sl_state (slots ! i) = Occupied
      else r < length slots \<and> sl_state (slots ! r) \<noteq> Occupied \<and>
           (\<forall>i < dist (length slots) h r. sl_state (slots ! pos (length slots) h i) \<noteq> Empty))"

lemma free_at_pos:
  assumes "h < length slots" "t < length slots" "sl_state (slots ! pos (length slots) h t) \<noteq> Occupied"
    and "\<And>i. i < t \<Longrightarrow> sl_state (slots ! pos (length slots) h i) \<noteq> Empty"
  shows "free_at slots h (pos (length slots) h t)"
proof -
  have "pos (length slots) h t < length slots" using assms(2) by (rule pos_less_length)
  then show ?thesis using assms by (simp add: free_at_def)
qed

lemma insertion_from_free:
  assumes n: "pow2_size (length slots)" and h: "h < length slots"
    and none: "\<And>i. i < length slots \<Longrightarrow> \<not> holds_id slots oid i"
  shows "step \<le> length slots \<Longrightarrow>
    (\<And>i. i < step \<Longrightarrow> sl_state (slots ! pos (length slots) h i) \<noteq> Empty) \<Longrightarrow>
    (if ft = length slots then \<forall>i < step. sl_state (slots ! pos (length slots) h i) = Occupied
     else free_at slots h ft) \<Longrightarrow>
    free_at slots h (insertion_from slots oid (pos (length slots) h step) step ft)"
proof (induction "length slots - step" arbitrary: step ft)
  case 0
  then have "\<forall>i < length slots. sl_state (slots ! i) = Occupied" if "ft = length slots"
    using that pos_cover [OF h] by (metis diff_is_0_eq le_trans less_le_trans)
  with 0 show ?case by (auto simp: insertion_from.simps free_at_def split: if_splits)
next
  case (Suc d)
  then have lt: "step < length slots" and d: "d = length slots - Suc step" by auto
  let ?p = "pos (length slots) h step"
  let ?ft = "if sl_state (slots ! ?p) = Tombstone \<and> ft = length slots then ?p else ft"
  have pl: "?p < length slots" using lt by (rule pos_less_length)
  have here: "free_at slots h ?p" if "sl_state (slots ! ?p) \<noteq> Occupied"
    using that h lt Suc.prems(2) by (intro free_at_pos) auto
  show ?case
  proof (cases "sl_state (slots ! ?p) = Empty")
    case True
    with here Suc.prems(3) lt show ?thesis
      by (auto simp: insertion_from.simps [of slots oid ?p step] split: if_splits)
  next
    case False
    have "free_at slots h (insertion_from slots oid (pos (length slots) h (Suc step)) (Suc step) ?ft)"
    proof (rule Suc.hyps(1) [OF d])
      show "Suc step \<le> length slots" using lt by simp
      show "sl_state (slots ! pos (length slots) h i) \<noteq> Empty" if "i < Suc step" for i
        using that False Suc.prems(2) by (auto simp: less_Suc_eq)
      show "if ?ft = length slots then \<forall>i < Suc step. sl_state (slots ! pos (length slots) h i) = Occupied
            else free_at slots h ?ft"
        using False Suc.prems(3) here pl slot_state.exhaust [of "sl_state (slots ! ?p)"]
        by (auto simp: less_Suc_eq split: if_splits)
    qed
    moreover have "\<not> holds_id slots oid ?p" using none pl by simp
    ultimately show ?thesis
      using False lt by (auto simp: insertion_from.simps [of slots oid ?p step] next_pos [OF n] Let_def holds_id_def)
  qed
qed

section \<open>The index operations on the map\<close>

lemma holds_id_path:
  assumes ok: "slots_ok slots" and i: "i < length slots" "holds_id slots oid i"
  shows "j < dist (length slots) (home (length slots) oid) i \<Longrightarrow>
     sl_state (slots ! pos (length slots) (home (length slots) oid) j) \<noteq> Empty \<and>
     \<not> holds_id slots oid (pos (length slots) (home (length slots) oid) j)"
proof -
  let ?n = "length slots" and ?h = "home (length slots) oid"
  assume j: "j < dist ?n ?h i"
  have hl: "?h < ?n" using home_less [OF slots_okD(1) [OF ok]] .
  have c: "map slot_cell slots ! i = Some (oid, sl_order (slots ! i))"
    using i by (simp add: slot_cell_Some holds_id_def)
  then have "sl_state (slots ! pos ?n ?h j) \<noteq> Empty"
    using path_fullD [OF slots_okD(3) [OF ok], of i oid] i j by simp
  moreover have "\<not> holds_id slots oid (pos ?n ?h j)"
  proof
    assume hit: "holds_id slots oid (pos ?n ?h j)"
    have p: "pos ?n ?h j < ?n" using i(1) by (rule pos_less_length)
    with hit have "map slot_cell slots ! pos ?n ?h j = Some (oid, sl_order (slots ! pos ?n ?h j))"
      by (simp add: slot_cell_Some holds_id_def)
    then have "i = pos ?n ?h j"
      using cells_unique [OF slots_okD(2) [OF ok]] c i(1) p by (metis length_map)
    moreover have "j < ?n" using j dist_less_length [OF i(1)] by (rule less_trans)
    ultimately show False using j hl by simp
  qed
  ultimately show ?thesis ..
qed

text \<open>\<open>find_slot\<close> decides the map: the slot that holds the identifier, or the table size.\<close>

lemma find_slot_hit:
  assumes "slots_ok slots" "i < length slots" "holds_id slots oid i"
  shows "find_slot slots oid = i"
proof -
  let ?n = "length slots" and ?h = "home (length slots) oid"
  have hl: "?h < ?n" using home_less [OF slots_okD(1) [OF assms(1)]] .
  have "dist ?n ?h i < ?n" using assms(2) by (rule dist_less_length)
  with find_from_hit [of slots "dist ?n ?h i" oid ?h 0] holds_id_path [OF assms] assms hl
  show ?thesis by (simp add: find_slot_def slots_okD)
qed

lemma find_slot_Some:
  assumes "slots_ok slots" "slots_map slots oid = Some r"
  shows "find_slot slots oid < length slots" "holds_id slots oid (find_slot slots oid)"
    and "sl_order (slots ! find_slot slots oid) = r"
proof -
  obtain i where "i < length slots" "holds_id slots oid i" "sl_order (slots ! i) = r"
    using assms by (auto simp: slots_map_iff holds_id_def)
  with find_slot_hit [OF assms(1)] show "find_slot slots oid < length slots"
    "holds_id slots oid (find_slot slots oid)" "sl_order (slots ! find_slot slots oid) = r"
    by simp_all
qed

lemma find_slot_None:
  assumes "slots_ok slots" "slots_map slots oid = None"
  shows "find_slot slots oid = length slots"
proof -
  have "\<not> holds_id slots oid i" if "i < length slots" for i
    using assms that by (simp add: slots_map_None holds_id_def)
  then show ?thesis
    using find_from_miss [of slots oid 0 "home (length slots) oid"] slots_okD(1) [OF assms(1)]
    by (simp add: find_slot_def home_less)
qed

lemma find_slot_missing_iff:
  "slots_ok slots \<Longrightarrow> find_slot slots oid = length slots \<longleftrightarrow> slots_map slots oid = None"
  using find_slot_None find_slot_Some(1) by (metis less_irrefl not_None_eq)

lemma insertion_slot_dup:
  assumes "slots_ok slots" "slots_map slots oid \<noteq> None"
  shows "insertion_slot slots oid = length slots"
proof -
  let ?n = "length slots" and ?h = "home (length slots) oid"
  obtain i where i: "i < ?n" "holds_id slots oid i"
    using assms by (auto simp: slots_map_iff holds_id_def)
  have hl: "?h < ?n" using home_less [OF slots_okD(1) [OF assms(1)]] .
  have "dist ?n ?h i < ?n" using i(1) by (rule dist_less_length)
  with insertion_from_dup [of slots "dist ?n ?h i" oid ?h 0] holds_id_path [OF assms(1) i] i hl
  show ?thesis by (simp add: insertion_slot_def slots_okD [OF assms(1)])
qed

lemma insertion_slot_free:
  assumes "slots_ok slots" "slots_map slots oid = None"
  shows "free_at slots (home (length slots) oid) (insertion_slot slots oid)"
proof -
  have "\<not> holds_id slots oid i" if "i < length slots" for i
    using assms that by (simp add: slots_map_None holds_id_def)
  then show ?thesis
    using insertion_from_free [of slots "home (length slots) oid" oid 0 "length slots"]
      slots_okD(1) [OF assms(1)]
    by (simp add: insertion_slot_def home_less)
qed

lemma card_slots_map: "slots_ok slots \<Longrightarrow> card (dom (slots_map slots)) = length (entries (map slot_cell slots))"
  unfolding slots_map_def by (rule card_cells_map) (rule slots_okD)

lemma card_slots_map_le: "slots_ok slots \<Longrightarrow> card (dom (slots_map slots)) \<le> length slots"
  using length_entries_le [of "map slot_cell slots"] by (simp add: card_slots_map)

text \<open>An insertion is refused exactly for a live identifier or on a table full of live orders.\<close>

lemma insertion_slot_refused_iff:
  assumes "slots_ok slots"
  shows "insertion_slot slots oid = length slots \<longleftrightarrow>
     slots_map slots oid \<noteq> None \<or> card (dom (slots_map slots)) = length slots"
proof -
  have "card (dom (slots_map slots)) = length slots \<longleftrightarrow> None \<notin> slot_cell ` set slots"
    using entries_full [of "map slot_cell slots"] by (simp add: card_slots_map [OF assms])
  also have "\<dots> \<longleftrightarrow> (\<forall>s \<in> set slots. sl_state s = Occupied)" by (force simp: slot_cell_def)
  finally have full: "card (dom (slots_map slots)) = length slots \<longleftrightarrow>
      (\<forall>i < length slots. sl_state (slots ! i) = Occupied)"
    by (simp add: all_set_conv_all_nth)
  show ?thesis
  proof (cases "slots_map slots oid")
    case None
    then show ?thesis
      using insertion_slot_free [OF assms None] by (auto simp: free_at_def full split: if_splits)
  next
    case (Some r)
    then show ?thesis using insertion_slot_dup [OF assms] by simp
  qed
qed

text \<open>The three writes keep the invariant and update the map.\<close>

lemma slots_ok_write:
  assumes ok: "slots_ok slots" and i: "i < length slots"
    and st: "sl_state s \<noteq> Empty"
    and dist: "cells_distinct (map slot_cell (slots[i := s]))"
    and path: "\<And>oid r j. slot_cell s = Some (oid, r) \<Longrightarrow> j < dist (length slots) (home (length slots) oid) i \<Longrightarrow>
      sl_state (slots ! pos (length slots) (home (length slots) oid) j) \<noteq> Empty"
  shows "slots_ok (slots[i := s])"
  unfolding slots_ok_def
proof (intro conjI path_fullI)
  show "pow2_size (length (slots[i := s]))" using slots_okD(1) [OF ok] by simp
  fix k oid r j
  let ?n = "length slots" and ?h = "home (length slots) oid"
  assume k: "k < length (map slot_cell (slots[i := s]))"
    and c: "map slot_cell (slots[i := s]) ! k = Some (oid, r)"
    and j: "j < dist (length (map slot_cell (slots[i := s]))) (home (length (map slot_cell (slots[i := s]))) oid) k"
  have "sl_state (slots ! pos ?n ?h j) \<noteq> Empty"
  proof (cases "k = i")
    case True
    with c i j path show ?thesis by simp
  next
    case False
    with c k have "map slot_cell slots ! k = Some (oid, r)" by simp
    with path_fullD [OF slots_okD(3) [OF ok], of k oid r j] k j show ?thesis by simp
  qed
  then show "sl_state (slots[i := s] ! pos (length (map slot_cell (slots[i := s])))
      (home (length (map slot_cell (slots[i := s]))) oid) j) \<noteq> Empty"
    using st by (cases "pos ?n ?h j = i") (simp_all add: i)
qed (rule dist)

lemma occupy_ok:
  assumes ok: "slots_ok slots" and none: "slots_map slots oid = None"
    and ins: "insertion_slot slots oid \<noteq> length slots"
  shows "slots_ok (occupy slots (insertion_slot slots oid) oid r)"
    and "slots_map (occupy slots (insertion_slot slots oid) oid r) = (slots_map slots)(oid \<mapsto> r)"
proof -
  let ?i = "insertion_slot slots oid"
  let ?s = "\<lparr>sl_order_id = oid, sl_order = r, sl_state = Occupied\<rparr>"
  have f: "?i < length slots" "sl_state (slots ! ?i) \<noteq> Occupied"
    "\<And>j. j < dist (length slots) (home (length slots) oid) ?i \<Longrightarrow>
       sl_state (slots ! pos (length slots) (home (length slots) oid) j) \<noteq> Empty"
    using insertion_slot_free [OF ok none] ins by (auto simp: free_at_def)
  have m: "map slot_cell (slots[?i := ?s]) = (map slot_cell slots)[?i := Some (oid, r)]"
    by (simp add: map_update slot_cell_def)
  note ins = cells_insert [OF slots_okD(2) [OF ok], of ?i oid r]
  have none': "cells_map (map slot_cell slots) oid = None" using none by (simp add: slots_map_def)
  have c: "map slot_cell slots ! ?i = None" using f by (simp add: slot_cell_def)
  show "slots_ok (occupy slots ?i oid r)"
    unfolding occupy_def
    by (rule slots_ok_write [OF ok f(1)]) (use f ins none' c in \<open>auto simp: m slot_cell_def\<close>)
  show "slots_map (occupy slots ?i oid r) = (slots_map slots)(oid \<mapsto> r)"
    using ins none' c f(1) by (simp add: slots_map_def occupy_def m)
qed

lemma set_order_ok:
  assumes ok: "slots_ok slots" and some: "slots_map slots oid = Some r0"
  shows "slots_ok (set_order slots (find_slot slots oid) r)"
    and "slots_map (set_order slots (find_slot slots oid) r) = (slots_map slots)(oid \<mapsto> r)"
proof -
  let ?i = "find_slot slots oid"
  note f = find_slot_Some [OF ok some]
  have m: "map slot_cell (slots[?i := (slots ! ?i)\<lparr>sl_order := r\<rparr>]) = (map slot_cell slots)[?i := Some (oid, r)]"
    using f(2) by (simp add: map_update slot_cell_def holds_id_def)
  have c: "map slot_cell slots ! ?i = Some (oid, r0)"
    using f by (simp add: slot_cell_Some holds_id_def)
  note rep = cells_replace [OF slots_okD(2) [OF ok], of ?i oid r0 r]
  show "slots_ok (set_order slots ?i r)"
    unfolding set_order_def
    by (rule slots_ok_write [OF ok f(1)])
       (use f rep c holds_id_path [OF ok f(1,2)] in \<open>auto simp: m slot_cell_Some holds_id_def\<close>)
  show "slots_map (set_order slots ?i r) = (slots_map slots)(oid \<mapsto> r)"
    using rep c f(1) by (simp add: slots_map_def set_order_def m)
qed

lemma bury_ok:
  assumes ok: "slots_ok slots" and some: "slots_map slots oid = Some r0"
  shows "slots_ok (bury slots (find_slot slots oid))"
    and "slots_map (bury slots (find_slot slots oid)) = (slots_map slots)(oid := None)"
proof -
  let ?i = "find_slot slots oid"
  note f = find_slot_Some [OF ok some]
  have m: "map slot_cell (slots[?i := (slots ! ?i)\<lparr>sl_state := Tombstone\<rparr>]) = (map slot_cell slots)[?i := None]"
    by (simp add: map_update slot_cell_def)
  have c: "map slot_cell slots ! ?i = Some (oid, r0)"
    using f by (simp add: slot_cell_Some holds_id_def)
  note rem = cells_remove [OF slots_okD(2) [OF ok], of ?i oid r0]
  show "slots_ok (bury slots ?i)"
    unfolding bury_def
    by (rule slots_ok_write [OF ok f(1)]) (use f rem c in \<open>auto simp: m slot_cell_def\<close>)
  show "slots_map (bury slots ?i) = (slots_map slots)(oid := None)"
    using rem c f(1) by (simp add: slots_map_def bury_def m)
qed

lemma length_writes [simp]:
  "length (occupy slots i oid r) = length slots"
  "length (set_order slots i r) = length slots"
  "length (bury slots i) = length slots"
  by (simp_all add: occupy_def set_order_def bury_def)


section \<open>The index contract\<close>

text \<open>The searches and writes of the books, put together as the four operations of an index.\<close>

definition slots_find :: "'o slot list \<Rightarrow> order_id \<Rightarrow> 'o option" where
  "slots_find slots oid =
     (let i = find_slot slots oid in if i = length slots then None else Some (sl_order (slots ! i)))"

definition slots_insert :: "'o slot list \<Rightarrow> order_id \<Rightarrow> 'o \<Rightarrow> 'o slot list option" where
  "slots_insert slots oid r =
     (let i = insertion_slot slots oid in if i = length slots then None else Some (occupy slots i oid r))"

definition slots_store :: "'o slot list \<Rightarrow> order_id \<Rightarrow> 'o \<Rightarrow> 'o slot list" where
  "slots_store slots oid r = set_order slots (find_slot slots oid) r"

definition slots_erase :: "'o slot list \<Rightarrow> order_id \<Rightarrow> ('o option \<times> 'o slot list) result" where
  "slots_erase slots oid =
     (let i = find_slot slots oid
      in if i = length slots then Value (None, slots) else Value (Some (sl_order (slots ! i)), bury slots i))"

lemma slots_find_map: "slots_ok slots \<Longrightarrow> slots_find slots oid = slots_map slots oid"
  using find_slot_Some [of slots oid] find_slot_None [of slots oid]
  by (cases "slots_map slots oid") (auto simp: slots_find_def Let_def)

interpretation tomb: order_index slots_find slots_insert slots_store slots_erase slots_map slots_ok length
proof unfold_locales
  fix slots :: "'a slot list" and i assume ok: "slots_ok slots"
  show "slots_find slots i = slots_map slots i" using ok by (rule slots_find_map)
  show "slots_insert slots i v = None"
    if "slots_map slots i \<noteq> None \<or> \<not> card (dom (slots_map slots)) < length slots" for v
    using that ok insertion_slot_refused_iff [OF ok, of i] card_slots_map_le [OF ok]
    by (auto simp: slots_insert_def)
  show "\<exists>slots'. slots_insert slots i v = Some slots' \<and> slots_ok slots' \<and>
      slots_map slots' = (slots_map slots)(i \<mapsto> v) \<and> length slots' = length slots"
    if "slots_map slots i = None" "card (dom (slots_map slots)) < length slots" for v
    using that insertion_slot_refused_iff [OF ok, of i] occupy_ok [OF ok that(1), of v]
    by (simp add: slots_insert_def)
  show "slots_ok (slots_store slots i v) \<and> slots_map (slots_store slots i v) = (slots_map slots)(i \<mapsto> v) \<and>
      length (slots_store slots i v) = length slots" if "slots_map slots i = Some u" for u v
    using set_order_ok [OF ok that] by (simp add: slots_store_def)
  show "\<exists>slots'. slots_erase slots i = Value (slots_map slots i, slots') \<and> slots_ok slots' \<and>
      slots_map slots' = (slots_map slots)(i := None) \<and> length slots' = length slots"
  proof (cases "slots_map slots i")
    case None
    with ok show ?thesis by (auto simp: slots_erase_def find_slot_None)
  next
    case (Some r)
    with find_slot_Some [OF ok Some] bury_ok [OF ok Some] show ?thesis
      by (simp add: slots_erase_def)
  qed
qed


section \<open>A table with its counter of live orders\<close>

definition table_ok :: "nat \<Rightarrow> 'o slot list \<Rightarrow> u64 \<Rightarrow> bool" where
  "table_ok n slots live \<longleftrightarrow> slots_ok slots \<and> length slots = n \<and> unat live = card (dom (slots_map slots))"

lemma table_okD:
  assumes "table_ok n slots live"
  shows "slots_ok slots" "length slots = n" "unat live = card (dom (slots_map slots))"
    and "card (dom (slots_map slots)) \<le> n"
  using assms card_slots_map_le by (auto simp: table_ok_def)

lemma table_live: "table_ok n slots live \<Longrightarrow> live = of_nat (card (dom (slots_map slots)))"
  by (metis table_okD(3) of_nat_unat_u64)

lemma table_ok_new: "pow2_size n \<Longrightarrow> table_ok n (empty_slots n r) 0"
  using slots_ok_empty [of n r] by (simp add: table_ok_def) (simp add: empty_slots_def)

lemma table_insertion:
  assumes t: "table_ok n slots live"
  shows "insertion_slot slots oid = n \<longleftrightarrow> slots_map slots oid \<noteq> None \<or> \<not> card (dom (slots_map slots)) < n"
  using insertion_slot_refused_iff [OF table_okD(1) [OF t], of oid] table_okD(2,4) [OF t] by auto

lemma table_occupy:
  assumes t: "table_ok n slots live" and "slots_map slots oid = None" "card (dom (slots_map slots)) < n"
  shows "table_ok n (occupy slots (insertion_slot slots oid) oid r) (live + 1)"
    and "slots_map (occupy slots (insertion_slot slots oid) oid r) = (slots_map slots)(oid \<mapsto> r)"
proof -
  note d = table_okD [OF t]
  have ins: "insertion_slot slots oid \<noteq> length slots"
    using table_insertion [OF t, of oid] assms(2,3) d(2) by simp
  note oc = occupy_ok [OF d(1) assms(2) ins, of r]
  show m: "slots_map (occupy slots (insertion_slot slots oid) oid r) = (slots_map slots)(oid \<mapsto> r)" by (rule oc)
  have "n \<le> 2 ^ 63" using pow2_sizeD(2) [OF slots_okD(1) [OF d(1)]] d(2) by simp
  then have "unat (live + 1) = unat live + 1" using unat_plus_u64 [of live 1] d(3) assms(3) by simp
  with oc d assms(2) show "table_ok n (occupy slots (insertion_slot slots oid) oid r) (live + 1)"
    by (simp add: table_ok_def m card_insert_if domIff)
qed

lemma table_bury:
  assumes t: "table_ok n slots live" and some: "slots_map slots oid = Some r"
  shows "table_ok n (bury slots (find_slot slots oid)) (live - 1)"
    and "slots_map (bury slots (find_slot slots oid)) = (slots_map slots)(oid := None)"
proof -
  note d = table_okD [OF t] and bu = bury_ok [OF table_okD(1) [OF t] some]
  show m: "slots_map (bury slots (find_slot slots oid)) = (slots_map slots)(oid := None)" by (rule bu)
  have dom: "oid \<in> dom (slots_map slots)" using some by auto
  then have "live \<noteq> 0" using d(3) by auto
  then have "unat (live - 1) = unat live - 1"
    using unat_minus_u64 [of 1 live] by (simp add: Suc_le_eq)
  with bu d dom show "table_ok n (bury slots (find_slot slots oid)) (live - 1)"
    by (simp add: table_ok_def m card_Diff_singleton)
qed

lemma table_set_order:
  assumes t: "table_ok n slots live" and some: "slots_map slots oid = Some r0"
  shows "table_ok n (set_order slots (find_slot slots oid) r) live"
    and "slots_map (set_order slots (find_slot slots oid) r) = (slots_map slots)(oid \<mapsto> r)"
proof -
  note so = set_order_ok [OF table_okD(1) [OF t] some, of r]
  show m: "slots_map (set_order slots (find_slot slots oid) r) = (slots_map slots)(oid \<mapsto> r)" by (rule so)
  have "dom ((slots_map slots)(oid \<mapsto> r)) = dom (slots_map slots)" using some by auto
  with so t show "table_ok n (set_order slots (find_slot slots oid) r) live" by (simp add: table_ok_def m)
qed

lemma table_find:
  assumes t: "table_ok n slots live"
  shows "find_slot slots oid = n \<longleftrightarrow> slots_map slots oid = None"
    and "slots_map slots oid = Some r \<Longrightarrow> sl_order (slots ! find_slot slots oid) = r"
  using find_slot_missing_iff [OF table_okD(1) [OF t], of oid] find_slot_Some(3) [OF table_okD(1) [OF t], of oid r]
    table_okD(2) [OF t] by simp_all

text \<open>The identifiers of the occupied slots, in slot order, are the live ones.\<close>

definition slot_ids :: "'o slot list \<Rightarrow> order_id list" where
  "slot_ids slots = map sl_order_id (filter (\<lambda>s. sl_state s = Occupied) slots)"

lemma slot_ids_entries: "slot_ids slots = map fst (entries (map slot_cell slots))"
  by (induction slots) (simp_all add: slot_ids_def slot_cell_def)

lemma slot_ids_map:
  assumes "slots_ok slots"
  shows "distinct (slot_ids slots)" "set (slot_ids slots) = dom (slots_map slots)"
  using slots_okD(2) [OF assms]
  by (simp_all add: slot_ids_entries cells_distinct_def slots_map_def cells_map_def dom_map_of_conv_image_fst)

lemmas table_simps = table_insertion table_occupy table_bury table_set_order table_find

section \<open>The index against a reference map\<close>

text \<open>
  C9. The tombstone index of versions 2 to 4, from an empty table: any sequence of insertions (of identifiers other than 0),
  searches, updates and removals gives the replies of a finite map, refusing an insertion exactly for
  a live identifier or a table full of live orders, however many tombstones it holds.
\<close>

theorem tombstone_index_is_map:
  assumes "pow2_size n" "list_all op_valid ops"
  shows "\<exists>slots. index_ops slots_find slots_insert slots_store slots_erase (empty_slots n r) ops =
       Some (fst (map_ops n Map.empty ops), slots) \<and>
     slots_ok slots \<and> slots_map slots = snd (map_ops n Map.empty ops) \<and> length slots = n"
  using tomb.ops_refine [OF slots_ok_empty(1) [OF assms(1), of r] assms(2)]
  by (simp add: slots_ok_empty(2) [OF assms(1)]) (simp add: empty_slots_def)

theorem tombstone_index_is_map_witness:
  "\<exists>slots. index_ops slots_find slots_insert slots_store slots_erase (empty_slots 8 (0 :: nat))
       [Insert_op 5 10, Insert_op 5 11, Erase_op 5, Find_op 5] =
     Some ([Inserted True, Inserted False, Erased (Some 10), Found None], slots) \<and>
     slots_ok slots \<and> slots_map slots = Map.empty \<and> length slots = 8"
proof -
  have "pow2_size 8" unfolding pow2_size_def by (rule exI [of _ 3]) simp
  from tombstone_index_is_map [OF this, of "[Insert_op 5 10, Insert_op 5 11, Erase_op 5, Find_op 5]" "0 :: nat"]
  show ?thesis by (simp add: op_valid_def map_op_def)
qed

end
