(* ===== verification/Table_Capacity.thy ===== *)
theory Table_Capacity
  imports Probing
begin

text \<open>
  The size of a hash table for a number of live orders: \<open>table_capacity\<close> of the parity book and
  \<open>fixed_order_index_capacity\<close> test the doubling for overflow, \<open>capacity\<close> of the two ladder
  books does not. The shift loop can wrap to zero, so it is a partial function.
\<close>

partial_function (option) grow_capacity :: "u64 \<Rightarrow> u64 \<Rightarrow> u64 option" where
  "grow_capacity c target =
     (if c < target then grow_capacity (push_bit 1 c) target else Some c)"

declare grow_capacity.simps [code]

definition grown :: "u64 \<Rightarrow> nat result" where
  "grown target = (case grow_capacity 8 target of None \<Rightarrow> Loops | Some c \<Rightarrow> Value (unat c))"

definition table_capacity :: "u64 \<Rightarrow> nat result" where
  "table_capacity n =
     (if n > uint64_max div 2 then Raise (Invalid_argument ''capacity overflow'')
      else grown (max 8 (n * 2)))"

definition fixed_order_index_capacity :: "u64 \<Rightarrow> nat result" where
  "fixed_order_index_capacity n =
     (if n > uint64_max div 2 then Raise (Invalid_argument ''fixed order index capacity overflow'')
      else grown (max 8 (n * 2)))"

definition ladder_capacity :: "u64 \<Rightarrow> nat result" where
  "ladder_capacity n = grown (max 8 (n * 2))"

section \<open>The loop\<close>

lemma unat_pow2: "k \<le> 63 \<Longrightarrow> unat (2 ^ k :: u64) = 2 ^ k"
  using unat_of_nat_u64 [of "2 ^ k"] power_strict_increasing [of k 64 "2 :: nat"] by simp

lemma push_bit_pow2: "push_bit 1 (2 ^ k :: u64) = 2 ^ Suc k"
  by (simp add: push_bit_eq_mult)

lemma pow2_le_63: "k \<le> 63 \<Longrightarrow> (2 :: nat) ^ k \<le> 2 ^ 63"
  by (intro power_increasing) simp_all

lemma grow_capacity_returns:
  "k \<le> 63 \<Longrightarrow> unat target \<le> 2 ^ 63 \<Longrightarrow>
     \<exists>j. k \<le> j \<and> j \<le> 63 \<and> grow_capacity (2 ^ k) target = Some (2 ^ j) \<and> unat target \<le> 2 ^ j \<and>
       (j = k \<or> 2 ^ (j - 1) < unat target)"
proof (induction "63 - k" arbitrary: k)
  case 0
  then have "k = 63" by simp
  then show ?case
    using 0 by (intro exI [of _ 63])
      (simp add: grow_capacity.simps [of 9223372036854775808] word_less_nat_alt)
next
  case (Suc d)
  show ?case
  proof (cases "(2 :: u64) ^ k < target")
    case False
    then show ?thesis
      using Suc.prems
      by (intro exI [of _ k]) (simp add: grow_capacity.simps [of "2 ^ k"] word_less_nat_alt unat_pow2)
  next
    case True
    have "d = 63 - Suc k" "Suc k \<le> 63" using Suc.hyps(2) by auto
    then obtain j where j: "Suc k \<le> j" "j \<le> 63" "grow_capacity (2 ^ Suc k) target = Some (2 ^ j)"
        "unat target \<le> 2 ^ j" "j = Suc k \<or> 2 ^ (j - 1) < unat target"
      using Suc.hyps(1) Suc.prems(2) by blast
    moreover have "2 ^ k < unat target"
      using True Suc.prems(1) by (simp add: word_less_nat_alt unat_pow2)
    ultimately show ?thesis
      using True by (intro exI [of _ j]) (auto simp: grow_capacity.simps [of "2 ^ k"] mult.commute)
  qed
qed

lemma grow_capacity_bound:
  assumes "grow_capacity c target = Some r" "c = 0 \<or> (\<exists>k\<le>63. c = 2 ^ k)"
  shows "unat target \<le> 2 ^ 63"
proof -
  have "c = 0 \<or> (\<exists>k\<le>63. c = 2 ^ k) \<longrightarrow> unat target \<le> 2 ^ 63"
  proof (rule grow_capacity.raw_induct [where P = "\<lambda>c t r. c = 0 \<or> (\<exists>k\<le>63. c = 2 ^ k) \<longrightarrow>
        unat t \<le> 2 ^ 63", OF _ assms(1)])
    fix f and c t r :: u64
    assume IH: "\<And>c t r. f c t = Some r \<Longrightarrow> c = 0 \<or> (\<exists>k\<le>63. c = 2 ^ k) \<longrightarrow> unat t \<le> 2 ^ 63"
      and eq: "(if c < t then f (push_bit 1 c) t else Some c) = Some r"
    show "c = 0 \<or> (\<exists>k\<le>63. c = 2 ^ k) \<longrightarrow> unat t \<le> 2 ^ 63"
    proof
      assume c: "c = 0 \<or> (\<exists>k\<le>63. c = 2 ^ k)"
      have "push_bit 1 c = 0 \<or> (\<exists>k\<le>63. push_bit 1 c = 2 ^ k)"
        using c
      proof
        assume "\<exists>k\<le>63. c = 2 ^ k"
        then obtain k where k: "k \<le> 63" "push_bit 1 c = 2 ^ Suc k" by (auto simp: push_bit_pow2)
        then show ?thesis by (cases "k = 63") (auto intro!: exI [of _ "Suc k"])
      qed simp
      then have "unat t \<le> 2 ^ 63" if "c < t"
        using IH [of "push_bit 1 c" t r] eq that by presburger
      moreover have "unat c \<le> 2 ^ 63" using c pow2_le_63 by (auto simp: unat_pow2)
      ultimately show "unat t \<le> 2 ^ 63" by (cases "c < t") (auto simp: word_less_nat_alt)
    qed
  qed
  with assms(2) show ?thesis by blast
qed

lemma grow_capacity_diverges:
  assumes "2 ^ 63 < unat target"
  shows "grow_capacity 8 target = None"
proof (rule ccontr)
  assume "grow_capacity 8 target \<noteq> None"
  then obtain r where "grow_capacity 8 target = Some r" by blast
  moreover have "\<exists>k\<le>63. (8 :: u64) = 2 ^ k" by (intro exI [of _ 3]) simp
  ultimately show False using grow_capacity_bound assms by fastforce
qed

section \<open>The capacities\<close>

lemma unat_double: "unat n < 2 ^ 63 \<Longrightarrow> unat (n * 2 :: u64) = 2 * unat n"
  using unat_plus_u64 [of n n] by (simp add: mult_2_right)

lemma unat_max_8: "unat n < 2 ^ 63 \<Longrightarrow> unat (max 8 (n * 2) :: u64) = max 8 (2 * unat n)"
  using unat_double [of n] by (auto simp: max_def word_le_nat_alt)

lemma grown_returns:
  assumes "unat n \<le> 2 ^ 62"
  shows "\<exists>c. grown (max 8 (n * 2)) = Value c \<and> pow2_size c \<and> 2 * unat n \<le> c \<and> (c = 8 \<or> c < 4 * unat n)"
proof -
  have t: "unat (max 8 (n * 2)) = max 8 (2 * unat n)" using assms by (intro unat_max_8) simp
  then have "unat (max 8 (n * 2)) \<le> 2 ^ 63" using assms by simp
  from grow_capacity_returns [of 3, OF _ this]
  obtain j where j: "3 \<le> j" "j \<le> 63" "grow_capacity 8 (max 8 (n * 2)) = Some (2 ^ j)"
      "max 8 (2 * unat n) \<le> 2 ^ j" "j = 3 \<or> 2 ^ (j - 1) < max 8 (2 * unat n)"
    unfolding t by auto
  have g: "grown (max 8 (n * 2)) = Value (2 ^ j)"
    using j(2,3) by (simp add: grown_def unat_pow2)
  have "pow2_size (2 ^ j)" using j(1,2) by (auto simp: pow2_size_def)
  moreover have "(2 :: nat) ^ j = 8 \<or> 2 ^ j < 4 * unat n"
  proof (cases "j = 3")
    case False
    then have "2 ^ (j - 1) < max 8 (2 * unat n)" using j(5) by simp
    moreover have "(8 :: nat) \<le> 2 ^ (j - 1)"
      using False j(1) power_increasing [of 3 "j - 1" "2 :: nat"] by simp
    ultimately have "2 * 2 ^ (j - 1) < 4 * unat n" by simp
    then show ?thesis using j(1) by (metis Suc_diff_1 less_le_trans power_Suc zero_less_numeral)
  qed simp
  ultimately show ?thesis using g j(4) by auto
qed

lemma grown_loops:
  assumes "2 ^ 62 < unat n" "unat n < 2 ^ 63"
  shows "grown (max 8 (n * 2)) = Loops"
proof -
  have "2 ^ 63 < unat (max 8 (n * 2))" using assms unat_max_8 [of n] by simp
  then show ?thesis by (simp add: grown_def grow_capacity_diverges)
qed

lemma half_max: "n > uint64_max div 2 \<longleftrightarrow> 2 ^ 63 \<le> unat n"
  by (simp add: word_less_nat_alt) arith

text \<open>
  C35. For at most \<open>2\<^sup>6\<^sup>2\<close> live orders all three capacity functions return the same size: a
  power of two, at least 8, at least twice the number of orders and, above 8, less than four times it.
\<close>

theorem capacities_return:
  assumes "unat n \<le> 2 ^ 62"
  shows "\<exists>c. table_capacity n = Value c \<and> fixed_order_index_capacity n = Value c \<and> ladder_capacity n = Value c \<and>
     pow2_size c \<and> 2 * unat n \<le> c \<and> (c = 8 \<or> c < 4 * unat n)"
proof -
  have "\<not> n > uint64_max div 2" unfolding half_max using assms by simp
  with grown_returns [OF assms] show ?thesis
    by (auto simp: table_capacity_def fixed_order_index_capacity_def ladder_capacity_def)
qed

theorem capacities_return_witness:
  "\<exists>c. table_capacity 100 = Value c \<and> fixed_order_index_capacity 100 = Value c \<and> ladder_capacity 100 = Value c \<and>
     pow2_size c \<and> 200 \<le> c \<and> (c = 8 \<or> c < 400)"
  using capacities_return [of 100] by simp

text \<open>
  C40. The overflow guard of \<open>table_capacity\<close> and \<open>fixed_order_index_capacity\<close> rejects only
  \<open>2\<^sup>6\<^sup>3\<close> orders and more. Between \<open>2\<^sup>6\<^sup>2\<close> and \<open>2\<^sup>6\<^sup>3\<close> the shift loop wraps to
  zero and never ends.
\<close>

theorem capacity_guard_misses_wrap:
  assumes "2 ^ 62 < unat n" "unat n < 2 ^ 63"
  shows "table_capacity n = Loops \<and> fixed_order_index_capacity n = Loops"
proof -
  have "\<not> n > uint64_max div 2" unfolding half_max using assms by simp
  then show ?thesis
    using grown_loops [OF assms] by (simp_all add: table_capacity_def fixed_order_index_capacity_def)
qed

theorem capacity_guard_misses_wrap_witness:
  "table_capacity 0x4000000000000001 = Loops \<and> fixed_order_index_capacity 0x4000000000000001 = Loops"
  using capacity_guard_misses_wrap [of "0x4000000000000001"] by simp

text \<open>
  \<open>capacity\<close> of the two ladder books has no guard: for \<open>2\<^sup>6\<^sup>3\<close> orders the doubled number
  wraps to zero and the table gets 8 slots.
\<close>

theorem ladder_capacity_wraps: "ladder_capacity 0x8000000000000000 = Value 8"
  by (simp add: ladder_capacity_def grown_def grow_capacity.simps [of 8])

end
