(* ===== verification/Parity_Order_Book.thy ===== *)
theory Parity_Order_Book
  imports Order_Book Tombstone_Index Table_Capacity
begin

text \<open>
  Version 2, \<open>llab::parity_order_book::OrderBook\<close> (\<open>cpp/include/llab/parity_order_book.hpp\<close>,
  \<open>cpp/src/parity_order_book.cpp\<close>): orders in a tombstone hash index, levels in two sorted
  vectors searched by \<open>std::lower_bound\<close>.
\<close>

section \<open>State\<close>

record level_vectors =
  vec_bids :: "level list"
  vec_asks :: "level list"

record parity_book =
  pob_slots :: "order slot list"
  pob_levels :: level_vectors
  pob_live_order_count :: u64

definition no_order :: order where
  "no_order = \<lparr>ord_side = Bid, ord_price_ticks = 0, ord_remaining_quantity = 0\<rparr>"

definition pob_new :: "u64 \<Rightarrow> parity_book result" where
  "pob_new maximum_live_orders =
     map_value (\<lambda>n. \<lparr>pob_slots = empty_slots n no_order, pob_levels = \<lparr>vec_bids = [], vec_asks = []\<rparr>,
                     pob_live_order_count = 0\<rparr>)
       (table_capacity maximum_live_orders)"

definition vec_levels_for :: "level_vectors \<Rightarrow> side \<Rightarrow> level list" where
  "vec_levels_for l s = (if s = Bid then vec_bids l else vec_asks l)"

definition vec_set_levels :: "level_vectors \<Rightarrow> side \<Rightarrow> level list \<Rightarrow> level_vectors" where
  "vec_set_levels l s xs = (if s = Bid then l\<lparr>vec_bids := xs\<rparr> else l\<lparr>vec_asks := xs\<rparr>)"

text \<open>
  \<open>std::lower_bound\<close> on a vector sorted by price: the number of elements whose price is below
  \<open>p\<close>, which are its first ones.
\<close>

definition lower_bound :: "level list \<Rightarrow> price \<Rightarrow> nat" where
  "lower_bound xs p = length (takeWhile (\<lambda>l. lvl_price_ticks l < p) xs)"

definition at_price :: "level list \<Rightarrow> nat \<Rightarrow> price \<Rightarrow> bool" where
  "at_price xs i p \<longleftrightarrow> i < length xs \<and> lvl_price_ticks (xs ! i) = p"

section \<open>Price levels\<close>

definition vec_add_to_level :: "level_vectors \<Rightarrow> side \<Rightarrow> price \<Rightarrow> quantity \<Rightarrow> level_vectors outcome" where
  "vec_add_to_level l s p q =
     (let xs = vec_levels_for l s; i = lower_bound xs p
      in if at_price xs i p
         then if uint64_max - lvl_quantity (xs ! i) < q then Threw (Overflow_error ''level overflow'') l
              else Done (vec_set_levels l s (xs[i := (xs ! i)\<lparr>lvl_quantity := lvl_quantity (xs ! i) + q\<rparr>]))
         else Done (vec_set_levels l s (take i xs @ \<lparr>lvl_price_ticks = p, lvl_quantity = q\<rparr> # drop i xs)))"

definition vec_subtract_from_level :: "level_vectors \<Rightarrow> side \<Rightarrow> price \<Rightarrow> quantity \<Rightarrow> level_vectors outcome" where
  "vec_subtract_from_level l s p q =
     (let xs = vec_levels_for l s; i = lower_bound xs p
      in if \<not> at_price xs i p \<or> q = 0 \<or> q > lvl_quantity (xs ! i)
         then Threw (Logic_error ''invalid level reduction'') l
         else let ys = xs[i := (xs ! i)\<lparr>lvl_quantity := lvl_quantity (xs ! i) - q\<rparr>]
              in if lvl_quantity (ys ! i) = 0 then Done (vec_set_levels l s (take i ys @ drop (i + 1) ys))
                 else Done (vec_set_levels l s ys))"

definition pob_add_to_level :: "parity_book \<Rightarrow> side \<Rightarrow> price \<Rightarrow> quantity \<Rightarrow> parity_book outcome" where
  "pob_add_to_level b s p q = within (\<lambda>l. b\<lparr>pob_levels := l\<rparr>) (vec_add_to_level (pob_levels b) s p q)"

definition pob_subtract_from_level :: "parity_book \<Rightarrow> side \<Rightarrow> price \<Rightarrow> quantity \<Rightarrow> parity_book outcome" where
  "pob_subtract_from_level b s p q =
     within (\<lambda>l. b\<lparr>pob_levels := l\<rparr>) (vec_subtract_from_level (pob_levels b) s p q)"

section \<open>Order operations\<close>

definition pob_require_slot :: "parity_book \<Rightarrow> order_id \<Rightarrow> nat result" where
  "pob_require_slot b oid =
     (let index = find_slot (pob_slots b) oid
      in if index = length (pob_slots b) then Raise (Invalid_argument ''unknown order id'') else Value index)"

definition pob_add_order :: "parity_book \<Rightarrow> order_id \<Rightarrow> side \<Rightarrow> price \<Rightarrow> quantity \<Rightarrow> parity_book outcome" where
  "pob_add_order b oid s p q =
     (if oid = 0 \<or> q = 0 then Threw (Invalid_argument ''invalid add'') b
      else let index = insertion_slot (pob_slots b) oid
        in if index = length (pob_slots b) then Threw (Invalid_argument ''duplicate id or full index'') b
           else seq (pob_add_to_level b s p q)
                  (\<lambda>b. Done (b\<lparr>pob_slots := occupy (pob_slots b) index oid
                                 \<lparr>ord_side = s, ord_price_ticks = p, ord_remaining_quantity = q\<rparr>,
                               pob_live_order_count := pob_live_order_count b + 1\<rparr>)))"

definition pob_remove_order :: "parity_book \<Rightarrow> order_id \<Rightarrow> parity_book outcome" where
  "pob_remove_order b oid =
     with_value b (pob_require_slot b oid) (\<lambda>index.
       let r = sl_order (pob_slots b ! index)
       in seq (pob_subtract_from_level b (ord_side r) (ord_price_ticks r) (ord_remaining_quantity r))
            (\<lambda>b. Done (b\<lparr>pob_slots := bury (pob_slots b) index,
                         pob_live_order_count := pob_live_order_count b - 1\<rparr>)))"

definition pob_subtract_from_order :: "parity_book \<Rightarrow> order_id \<Rightarrow> quantity \<Rightarrow> bool \<Rightarrow> parity_book outcome" where
  "pob_subtract_from_order b oid q allow_full_removal =
     with_value b (pob_require_slot b oid) (\<lambda>index.
       let r = sl_order (pob_slots b ! index)
       in if q = 0 \<or> q > ord_remaining_quantity r \<or> (\<not> allow_full_removal \<and> q = ord_remaining_quantity r)
          then Threw (Invalid_argument ''invalid reduction'') b
          else seq (pob_subtract_from_level b (ord_side r) (ord_price_ticks r) q)
                 (\<lambda>b. if q = ord_remaining_quantity r
                      then Done (b\<lparr>pob_slots := bury (pob_slots b) index,
                                   pob_live_order_count := pob_live_order_count b - 1\<rparr>)
                      else Done (b\<lparr>pob_slots := set_order (pob_slots b) index
                                     (r\<lparr>ord_remaining_quantity := ord_remaining_quantity r - q\<rparr>)\<rparr>)))"

definition pob_upsert_order :: "parity_book \<Rightarrow> order_id \<Rightarrow> side \<Rightarrow> price \<Rightarrow> quantity \<Rightarrow> parity_book outcome" where
  "pob_upsert_order b oid s p q =
     (if oid = 0 \<or> q = 0 then Threw (Invalid_argument ''invalid upsert'') b
      else let index = find_slot (pob_slots b) oid
        in if index = length (pob_slots b) then pob_add_order b oid s p q
           else let r = sl_order (pob_slots b ! index)
             in seq (pob_subtract_from_level b (ord_side r) (ord_price_ticks r) (ord_remaining_quantity r))
                  (\<lambda>b. seq (pob_add_to_level b s p q)
                    (\<lambda>b. Done (b\<lparr>pob_slots := set_order (pob_slots b) index
                            \<lparr>ord_side = s, ord_price_ticks = p, ord_remaining_quantity = q\<rparr>\<rparr>))))"

definition pob_apply :: "parity_book \<Rightarrow> event \<Rightarrow> parity_book outcome" where
  "pob_apply b e =
     (case ev_type e of
        Add \<Rightarrow> pob_add_order b (ev_order_id e) (ev_side e) (ev_price_ticks e) (ev_quantity e)
      | Cancel \<Rightarrow> pob_subtract_from_order b (ev_order_id e) (ev_quantity e) False
      | Execute \<Rightarrow> pob_subtract_from_order b (ev_order_id e) (ev_quantity e) True
      | Delete \<Rightarrow> pob_remove_order b (ev_order_id e)
      | OrderDelete \<Rightarrow> pob_remove_order b (ev_order_id e)
      | Replace \<Rightarrow>
          if ev_order_id e = ev_replacement_order_id e
          then Threw (Invalid_argument ''replace requires new id'') b
          else seq (pob_remove_order b (ev_order_id e))
                 (\<lambda>b. pob_add_order b (ev_replacement_order_id e) (ev_side e) (ev_price_ticks e) (ev_quantity e))
      | OrderUpsert \<Rightarrow> pob_upsert_order b (ev_order_id e) (ev_side e) (ev_price_ticks e) (ev_quantity e))"

section \<open>Observers\<close>

definition pob_best_bid :: "parity_book \<Rightarrow> level option" where
  "pob_best_bid b = (let xs = vec_bids (pob_levels b) in if xs = [] then None else Some (last xs))"

definition pob_best_ask :: "parity_book \<Rightarrow> level option" where
  "pob_best_ask b = (let xs = vec_asks (pob_levels b) in if xs = [] then None else Some (hd xs))"

definition pob_level_quantity :: "parity_book \<Rightarrow> side \<Rightarrow> price \<Rightarrow> quantity option" where
  "pob_level_quantity b s p =
     (let xs = vec_levels_for (pob_levels b) s; i = lower_bound xs p
      in if at_price xs i p then Some (lvl_quantity (xs ! i)) else None)"

definition pob_order_index_capacity :: "parity_book \<Rightarrow> nat" where
  "pob_order_index_capacity b = length (pob_slots b)"

definition level_pair :: "level \<Rightarrow> price \<times> quantity" where
  "level_pair l = (lvl_price_ticks l, lvl_quantity l)"

definition pob_state_digest :: "parity_book \<Rightarrow> u64 result" where
  "pob_state_digest b =
     map_value (digest (pob_live_order_count b) (map level_pair (vec_bids (pob_levels b)))
                  (map level_pair (vec_asks (pob_levels b))))
       (for_each_value (\<lambda>oid. map_value (\<lambda>i. (oid, sl_order (pob_slots b ! i))) (pob_require_slot b oid))
          (sort (slot_ids (pob_slots b))))"

section \<open>The vectors are a level store\<close>

text \<open>Read as an ordered map, the vectors make the updates of the maps of version 1.\<close>

definition as_maps :: "level_vectors \<Rightarrow> level_maps" where
  "as_maps l = \<lparr>map_bids = map level_pair (vec_bids l), map_asks = map level_pair (vec_asks l)\<rparr>"

definition vec_ok :: "level_vectors \<Rightarrow> bool" where
  "vec_ok l = level_maps_ok (as_maps l)"

definition vec_lvl :: "level_vectors \<Rightarrow> side \<Rightarrow> price \<Rightarrow> quantity" where
  "vec_lvl l = level_maps_lvl (as_maps l)"

lemma as_maps_levels_for [simp]: "levels_for (as_maps l) s = map level_pair (vec_levels_for l s)"
  by (simp add: levels_for_def as_maps_def vec_levels_for_def)

lemma as_maps_set_levels [simp]: "as_maps (vec_set_levels l s xs) = set_levels (as_maps l) s (map level_pair xs)"
  by (simp add: set_levels_def as_maps_def vec_set_levels_def)

lemma lower_bound_Nil [simp]: "lower_bound [] p = 0"
  by (simp add: lower_bound_def)

lemma lower_bound_Cons [simp]:
  "lower_bound (x # xs) p = (if lvl_price_ticks x < p then Suc (lower_bound xs p) else 0)"
  by (simp add: lower_bound_def)

lemma at_price_Nil [simp]: "\<not> at_price [] i p"
  by (simp add: at_price_def)

lemma at_price_Cons [simp]:
  "at_price (x # xs) 0 p \<longleftrightarrow> lvl_price_ticks x = p" "at_price (x # xs) (Suc i) p \<longleftrightarrow> at_price xs i p"
  by (simp_all add: at_price_def)

lemma level_pair_simps [simp]:
  "fst (level_pair x) = lvl_price_ticks x" "snd (level_pair x) = lvl_quantity x"
  "level_pair (x\<lparr>lvl_quantity := q\<rparr>) = (lvl_price_ticks x, q)"
  "level_pair \<lparr>lvl_price_ticks = p, lvl_quantity = q\<rparr> = (p, q)"
  "omap_put p q (level_pair x # ys) =
     (if p < lvl_price_ticks x then (p, q) # level_pair x # ys
      else if p = lvl_price_ticks x then (p, q) # ys else level_pair x # omap_put p q ys)"
  "omap_erase p (level_pair x # ys) = (if lvl_price_ticks x = p then omap_erase p ys else level_pair x # omap_erase p ys)"
  by (simp_all add: level_pair_def omap_erase_def)

lemma fst_level_pair [simp]: "map fst (map level_pair xs) = map lvl_price_ticks xs"
  by simp

text \<open>What the binary search finds in a sorted vector, and the three ways to write at its result.\<close>

lemma lower_bound_lookup:
  assumes "sorted_wrt (<) (map lvl_price_ticks xs)"
  shows "map_of (map level_pair xs) p =
     (if at_price xs (lower_bound xs p) p then Some (lvl_quantity (xs ! lower_bound xs p)) else None)"
  using assms
proof (induction xs)
  case (Cons x xs)
  have "p \<notin> fst ` level_pair ` set xs" if "\<not> lvl_price_ticks x < p"
    using that Cons.prems by auto
  then have "map_of (map level_pair xs) p = None" if "\<not> lvl_price_ticks x < p"
    using that by (simp add: map_of_eq_None_iff)
  with Cons show ?case by (auto split: if_splits)
qed simp

lemma lower_bound_update:
  "at_price xs (lower_bound xs p) p \<Longrightarrow>
     map level_pair (xs[lower_bound xs p := (xs ! lower_bound xs p)\<lparr>lvl_quantity := q\<rparr>]) =
       omap_put p q (map level_pair xs)"
  by (induction xs) (auto split: if_splits)

lemma lower_bound_insert:
  "\<not> at_price xs (lower_bound xs p) p \<Longrightarrow>
     map level_pair (take (lower_bound xs p) xs @ \<lparr>lvl_price_ticks = p, lvl_quantity = q\<rparr> # drop (lower_bound xs p) xs) =
       omap_put p q (map level_pair xs)"
  by (induction xs) (auto split: if_splits)

lemma omap_erase_absent: "p \<notin> fst ` set ys \<Longrightarrow> omap_erase p ys = ys"
  by (force simp: omap_erase_def filter_id_conv)

lemma lower_bound_erase:
  "sorted_wrt (<) (map lvl_price_ticks xs) \<Longrightarrow> at_price xs (lower_bound xs p) p \<Longrightarrow>
     map level_pair (take (lower_bound xs p) xs @ drop (Suc (lower_bound xs p)) xs) =
       omap_erase p (map level_pair xs)"
proof (induction xs)
  case (Cons x xs)
  have "lvl_price_ticks x \<notin> fst ` set (map level_pair xs)" using Cons.prems(1) by auto
  from omap_erase_absent [OF this] Cons show ?case by (auto split: if_splits)
qed simp

lemma vec_okD: "vec_ok l \<Longrightarrow> sorted_wrt (<) (map lvl_price_ticks (vec_levels_for l s))"
  using level_maps_okD(1) [of "as_maps l" s] unfolding vec_ok_def as_maps_levels_for fst_level_pair by blast

lemma vec_add_eq:
  assumes "vec_ok l" "q \<noteq> 0"
  shows "(unat (vec_lvl l s p) + unat q < 2 ^ 64 \<longrightarrow>
       (\<exists>l'. vec_add_to_level l s p q = Done l' \<and> add_to_level (as_maps l) s p q = Done (as_maps l'))) \<and>
     (\<not> unat (vec_lvl l s p) + unat q < 2 ^ 64 \<longrightarrow> (\<exists>x. vec_add_to_level l s p q = Threw x l))"
  using assms lower_bound_lookup [OF vec_okD [OF assms(1), of s], of p] unat_less_2p64 [of q]
  by (auto simp del: map_append simp: vec_add_to_level_def add_to_level_eq vec_ok_def vec_lvl_def level_maps_lvl_def lookup0_def
      Let_def overflow_guard lower_bound_update lower_bound_insert)

lemma vec_sub_eq:
  assumes "vec_ok l" "q \<noteq> 0" "q \<le> vec_lvl l s p"
  shows "\<exists>l'. vec_subtract_from_level l s p q = Done l' \<and> subtract_from_level (as_maps l) s p q = Done (as_maps l')"
proof -
  let ?xs = "vec_levels_for l s" and ?i = "lower_bound (vec_levels_for l s) p"
  have at: "at_price ?xs ?i p" and v: "vec_lvl l s p = lvl_quantity (?xs ! ?i)"
    using assms(2,3) lower_bound_lookup [OF vec_okD [OF assms(1), of s], of p]
    by (auto simp: vec_lvl_def level_maps_lvl_def lookup0_def split: if_splits)
  then have i: "?i < length ?xs" by (simp add: at_price_def)
  have e: "take ?i (?xs[?i := y]) @ drop (?i + 1) (?xs[?i := y]) = take ?i ?xs @ drop (Suc ?i) ?xs" for y
    by simp
  show ?thesis
    using assms at i v lower_bound_erase [OF vec_okD [OF assms(1)] at]
    by (auto simp: vec_subtract_from_level_def subtract_from_level_eq vec_lvl_def Let_def e
        lower_bound_update [OF at] simp del: append_take_drop_id map_append)
qed

interpretation vec: level_store vec_add_to_level vec_subtract_from_level vec_lvl vec_ok "\<lambda>_. True"
proof unfold_locales
  fix l s p and q :: quantity
  assume l: "vec_ok l" and q: "q \<noteq> 0"
  note ml = l [unfolded vec_ok_def]
  show "\<exists>l'. vec_add_to_level l s p q = Done l' \<and> vec_ok l' \<and> vec_lvl l' = upd_lvl (vec_lvl l) s p (vec_lvl l s p + q)"
    if "unat (vec_lvl l s p) + unat q < 2 ^ 64"
    using vec_add_eq [OF l q, where s = s and p = p] maps.add_done [OF ml q, where p = p and s = s] that
    by (auto simp: vec_ok_def vec_lvl_def)
  show "\<exists>x. vec_add_to_level l s p q = Threw x l"
    if "\<not> (True \<and> unat (vec_lvl l s p) + unat q < 2 ^ 64)"
    using vec_add_eq [OF l q, where s = s and p = p] that by auto
  show "\<exists>l'. vec_subtract_from_level l s p q = Done l' \<and> vec_ok l' \<and>
      vec_lvl l' = upd_lvl (vec_lvl l) s p (vec_lvl l s p - q)" if "q \<le> vec_lvl l s p"
    using vec_sub_eq [OF l q that] maps.sub_done [OF ml q] that
    by (fastforce simp: vec_ok_def vec_lvl_def)
qed


section \<open>The book refines the specification\<close>

definition pob_view :: "parity_book \<Rightarrow> orders" where
  "pob_view b = slots_map (pob_slots b)"

definition pob_index_ok :: "nat \<Rightarrow> parity_book \<Rightarrow> bool" where
  "pob_index_ok n b = table_ok n (pob_slots b) (pob_live_order_count b)"

abbreviation pob_ok :: "nat \<Rightarrow> parity_book \<Rightarrow> bool" where
  "pob_ok n \<equiv> book_ok (pob_index_ok n) pob_levels vec_ok vec_lvl pob_view"

interpretation pobi: indexed_book vec_add_to_level vec_subtract_from_level vec_lvl vec_ok "\<lambda>_. True"
  pob_levels pob_view "pob_index_ok n" n for n
  by unfold_locales (simp add: pob_index_ok_def pob_view_def table_okD)

lemma pob_okD: "pob_ok n b \<Longrightarrow> table_ok n (pob_slots b) (pob_live_order_count b)"
  by (simp add: book_ok_def pob_index_ok_def)

lemma pob_new_ok:
  assumes "unat maximum \<le> 2 ^ 62"
  shows "\<exists>b n. pob_new maximum = Value b \<and> pob_ok n b \<and> pob_view b = Map.empty \<and> 2 * unat maximum \<le> n"
proof -
  obtain c where c: "grown (max 8 (maximum * 2)) = Value c" "pow2_size c" "2 * unat maximum \<le> c"
    using grown_returns [OF assms] by auto
  let ?l = "\<lparr>vec_bids = [], vec_asks = []\<rparr>"
  let ?b = "\<lparr>pob_slots = empty_slots c no_order, pob_levels = ?l, pob_live_order_count = 0\<rparr>"
  have "\<not> maximum > uint64_max div 2" unfolding half_max using assms by simp
  then have new: "pob_new maximum = Value ?b" by (simp add: pob_new_def table_capacity_def c(1))
  have lv: "vec_levels_for ?l s = []" for s by (simp add: vec_levels_for_def)
  then have "vec_ok ?l" "vec_lvl ?l = (\<lambda>_ _. 0)"
    by (simp_all add: vec_ok_def level_maps_ok_def vec_lvl_def level_maps_lvl_def lookup0_def fun_eq_iff)
  then have "pob_ok c ?b" "pob_view ?b = Map.empty"
    using table_ok_new [OF c(2), of no_order] slots_ok_empty(2) [OF c(2), of no_order]
    by (simp_all add: book_ok_def pob_index_ok_def pob_view_def levels_match_def)
  with new c(3) show ?thesis by blast
qed

lemmas pob_defs = pob_add_order_def pob_remove_order_def pob_subtract_from_order_def pob_upsert_order_def
  pob_require_slot_def pob_add_to_level_def pob_subtract_from_level_def pob_index_ok_def pob_view_def Let_def

lemma pob_add_refines:
  assumes ok: "pob_ok n b" and r: "r = \<lparr>ord_side = s, ord_price_ticks = p, ord_remaining_quantity = q\<rparr>"
  shows "refines pob_view (pob_ok n) (pob_add_order b i s p q)
     (if card (dom (pob_view b)) < n \<and> True then l3_add (pob_view b) i r else None)"
  using table_simps [OF pob_okD [OF ok]] table_okD(2) [OF pob_okD [OF ok]]
  by (intro pobi.add_rule [OF ok r]) (auto simp: pob_defs r)

lemma pob_remove_refines:
  assumes ok: "pob_ok n b"
  shows "refines pob_view (pob_ok n) (pob_remove_order b i) (l3_remove (pob_view b) i)"
  using table_simps [OF pob_okD [OF ok]] table_okD(2) [OF pob_okD [OF ok]]
  by (intro pobi.remove_rule [OF ok]) (auto simp: pob_defs)

lemma pob_reduce_refines:
  assumes ok: "pob_ok n b"
  shows "refines pob_view (pob_ok n) (pob_subtract_from_order b i q full) (l3_reduce (pob_view b) i q full)"
  using table_simps [OF pob_okD [OF ok]] table_okD(2) [OF pob_okD [OF ok]]
  by (intro pobi.reduce_rule [OF ok]) (auto simp: pob_defs l3_reduce_def split: option.splits if_splits)

lemma pob_upsert_refines:
  assumes ok: "pob_ok n b" and r: "r = \<lparr>ord_side = s, ord_price_ticks = p, ord_remaining_quantity = q\<rparr>"
  shows "refines pob_view (pob_ok n) (pob_upsert_order b i s p q)
     (if (pob_view b i = None \<longrightarrow> card (dom (pob_view b)) < n) \<and> True
      then l3_upsert (pob_view b) i r else None)"
proof (intro pobi.upsert_rule [OF ok r])
  note t = table_simps [OF pob_okD [OF ok]] table_okD(2) [OF pob_okD [OF ok]]
  show "refines pob_view (pob_ok n) (pob_upsert_order b i s p q)
      (if card (dom (pob_view b)) < n \<and> True then l3_add (pob_view b) i r else None)"
    if "i \<noteq> 0" "q \<noteq> 0" "pob_view b i = None"
  proof -
    have "pob_upsert_order b i s p q = pob_add_order b i s p q"
      using that t by (simp add: pob_upsert_order_def pob_view_def)
    then show ?thesis using pob_add_refines [OF ok r] by simp
  qed
qed (use table_simps [OF pob_okD [OF ok]] table_okD(2) [OF pob_okD [OF ok]] in \<open>auto simp: pob_defs r\<close>)


text \<open>The observers show the canonical levels and orders.\<close>

lemma pob_sides:
  assumes "pob_ok n b"
  shows "map level_pair (vec_bids (pob_levels b)) = spec_levels (pob_view b) Bid"
    and "map level_pair (vec_asks (pob_levels b)) = spec_levels (pob_view b) Ask"
proof -
  have "map level_pair (vec_levels_for (pob_levels b) s) = spec_levels (pob_view b) s" for s
    using level_maps_okD [OF book_okD(2) [OF assms, unfolded vec_ok_def], of s]
      levels_matchD [OF book_okD(3) [OF assms], of s]
    by (intro levels_list_spec) (auto simp: vec_lvl_def level_maps_lvl_def)
  from this [of Bid] this [of Ask]
  show "map level_pair (vec_bids (pob_levels b)) = spec_levels (pob_view b) Bid"
    "map level_pair (vec_asks (pob_levels b)) = spec_levels (pob_view b) Ask"
    by (simp_all add: vec_levels_for_def)
qed

lemma level_of_pair: "\<lparr>lvl_price_ticks = fst (level_pair x), lvl_quantity = snd (level_pair x)\<rparr> = x"
  by simp

lemma pob_best_spec:
  assumes "pob_ok n b"
  shows "pob_best_bid b = spec_best (pob_view b) Bid" "pob_best_ask b = spec_best (pob_view b) Ask"
  using pob_sides [OF assms, symmetric]
  by (auto simp: pob_best_bid_def pob_best_ask_def spec_best_Bid spec_best_Ask last_map hd_map Let_def)

lemma pob_digest:
  assumes "pob_ok n b"
  shows "pob_state_digest b = Value (spec_digest (pob_view b))"
proof -
  note t = pob_okD [OF assms] and ids = slot_ids_map [OF table_okD(1) [OF pob_okD [OF assms]]]
  have "for_each_value (\<lambda>oid. map_value (\<lambda>i. (oid, sl_order (pob_slots b ! i))) (pob_require_slot b oid))
          (sort (slot_ids (pob_slots b))) =
      Value (map (\<lambda>i. (i, the (pob_view b i))) (sort (slot_ids (pob_slots b))))"
    using ids table_find [OF t] table_okD(2) [OF t]
    by (intro for_each_value_all) (auto simp: pob_require_slot_def pob_view_def)
  then show ?thesis
    using table_live [OF t] spec_orders_sort [OF ids]
    by (simp add: pob_state_digest_def spec_digest_def pob_sides [OF assms] pob_view_def)
qed

interpretation pob: l3_book pob_apply pob_add_order pob_remove_order pob_subtract_from_order pob_upsert_order
  "Invalid_argument ''replace requires new id''" pob_view "pob_ok n" n "\<lambda>_. True"
  "\<lambda>b. Value (pob_best_bid b)" "\<lambda>b. Value (pob_best_ask b)" pob_live_order_count pob_state_digest for n
proof unfold_locales
  fix b assume ok: "pob_ok n b"
  show "card (dom (pob_view b)) \<le> n"
    using table_okD(4) [OF pob_okD [OF ok]] by (simp add: pob_view_def)
  show "pob_live_order_count b = of_nat (card (dom (pob_view b)))"
    using table_live [OF pob_okD [OF ok]] by (simp add: pob_view_def)
  show "Value (pob_best_bid b) = Value (spec_best (pob_view b) Bid)"
    and "Value (pob_best_ask b) = Value (spec_best (pob_view b) Ask)"
    using pob_best_spec [OF ok] by simp_all
qed (simp add: pob_apply_def dispatch_def eq_commute cong: if_cong,
     (rule pob_add_refines pob_remove_refines pob_reduce_refines pob_upsert_refines pob_digest; assumption)+)

section \<open>Exceptions\<close>

lemma pob_add_safe:
  assumes ok: "pob_ok n b" and "pob_add_order b i s p q = Threw x b'"
  shows "b' = b"
  using assms(2) pobi.add_threw_levels [OF ok, of q s p]
  by (cases "vec_add_to_level (pob_levels b) s p q")
     (auto simp: pob_add_order_def pob_require_slot_def pob_add_to_level_def pob_subtract_from_level_def Let_def split: if_splits)

lemma pob_slot:
  assumes "pob_ok n b" "pob_view b i = Some r"
  shows "find_slot (pob_slots b) i \<noteq> length (pob_slots b)" "sl_order (pob_slots b ! find_slot (pob_slots b) i) = r"
  using table_find [OF pob_okD [OF assms(1)], of i] table_okD(2) [OF pob_okD [OF assms(1)]] assms(2)
  by (simp_all add: pob_view_def)

lemma pob_remove_safe:
  assumes ok: "pob_ok n b" and threw: "pob_remove_order b i = Threw x b'"
  shows "b' = b"
proof (cases "pob_view b i")
  case None
  then have "find_slot (pob_slots b) i = length (pob_slots b)"
    using table_find(1) [OF pob_okD [OF ok], of i] table_okD(2) [OF pob_okD [OF ok]] by (simp add: pob_view_def)
  with threw show ?thesis by (simp add: pob_remove_order_def pob_require_slot_def pob_add_to_level_def pob_subtract_from_level_def Let_def)
next
  case (Some r)
  from pobi.sub_whole_returns [OF ok Some] threw pob_slot [OF ok Some] show ?thesis
    by (auto simp: pob_remove_order_def pob_require_slot_def pob_add_to_level_def pob_subtract_from_level_def Let_def)
qed

lemma pob_reduce_safe:
  assumes ok: "pob_ok n b" and threw: "pob_subtract_from_order b i q full = Threw x b'"
  shows "b' = b"
proof (cases "pob_view b i")
  case None
  then have "find_slot (pob_slots b) i = length (pob_slots b)"
    using table_find(1) [OF pob_okD [OF ok], of i] table_okD(2) [OF pob_okD [OF ok]] by (simp add: pob_view_def)
  with threw show ?thesis by (simp add: pob_subtract_from_order_def pob_require_slot_def pob_add_to_level_def pob_subtract_from_level_def Let_def)
next
  case (Some r)
  show ?thesis
  proof (cases "q = 0 \<or> q > ord_remaining_quantity r")
    case False
    then obtain l' where "vec_subtract_from_level (pob_levels b) (ord_side r) (ord_price_ticks r) q = Done l'"
      using pobi.sub_returns [OF ok Some, of q] by (auto simp: not_less)
    with threw pob_slot [OF ok Some] show ?thesis
      by (auto simp: pob_subtract_from_order_def pob_require_slot_def pob_add_to_level_def pob_subtract_from_level_def Let_def split: if_splits)
  qed (use threw pob_slot [OF ok Some] in \<open>auto simp: pob_subtract_from_order_def pob_require_slot_def pob_add_to_level_def pob_subtract_from_level_def Let_def\<close>)
qed

text \<open>
  Version 2: an add, cancel, execute or delete that throws leaves the well-formed book exactly as
  it was.
\<close>

theorem parity_order_book_throw_leaves_book:
  assumes "pob_ok n b" "single_order_event e" "pob_apply b e = Threw x b'"
  shows "b' = b"
  using assms pob_add_safe [OF assms(1)] pob_remove_safe [OF assms(1)] pob_reduce_safe [OF assms(1)]
  by (auto simp: single_order_event_def pob_apply_def split: event_type.splits)


text \<open>
  C7. Version 2 implements the specification on every event: where the specification (with the version's
  table size) has a transition, \<open>apply\<close> returns a well-formed book that represents its result; where it
  has none, \<open>apply\<close> throws.
\<close>

theorem parity_order_book_refines_spec:
  assumes "pob_ok n b"
  shows "refines pob_view (pob_ok n) (pob_apply b e) (admitted n (\<lambda>_. True) (pob_view b) e)"
  using assms by (rule pob.apply_refines)

theorem parity_order_book_refines_spec_witness:
  "\<exists>b n. pob_new 4 = Value b \<and>
     refines pob_view (pob_ok n) (pob_apply b sample_add) (admitted n (\<lambda>_. True) (pob_view b) sample_add)"
proof -
  obtain b n where b: "pob_new 4 = Value b" "pob_ok n b"
    using pob_new_ok [of 4] by auto
  from parity_order_book_refines_spec [OF b(2), of sample_add] b(1) show ?thesis by blast
qed

theorem parity_order_book_throw_leaves_book_witness:
  "\<exists>b x b'. pob_new 4 = Value b \<and> pob_apply b sample_zero = Threw x b' \<and> b' = b"
proof -
  obtain b n where b: "pob_new 4 = Value b" "pob_ok n b"
    using pob_new_ok [of 4] by auto
  obtain x b' where t: "pob_apply b sample_zero = Threw x b'"
    by (simp add: pob_apply_def pob_add_order_def sample_zero_def sample_add_def)
  have "single_order_event sample_zero" by (simp add: single_order_event_def sample_zero_def sample_add_def)
  from parity_order_book_throw_leaves_book [OF b(2) this t] t b(1) show ?thesis by blast
qed

end
