(* ===== verification/Ladder.thy ===== *)
theory Ladder
  imports Indexed_Book
begin

text \<open>
  A price ladder: one quantity per tick from a minimum price on. This theory holds what the dense
  ladder and the bitmap ladder share: the offset of a price, the level list the digest walks, and
  the best levels as the first and the last occupied offset.
\<close>

section \<open>Offsets and prices\<close>

text \<open>The test of \<open>offset\<close>: \<open>price >= minimum_price_ && price - minimum_price_ < size\<close>.\<close>

definition in_ladder :: "price \<Rightarrow> nat \<Rightarrow> price \<Rightarrow> bool" where
  "in_ladder base n p \<longleftrightarrow> \<not> (p < base \<or> unat (p - base) \<ge> n)"

definition ladder_price :: "price \<Rightarrow> nat \<Rightarrow> price" where
  "ladder_price base i = base + of_nat i"

definition ladder_at :: "price \<Rightarrow> quantity list \<Rightarrow> price \<Rightarrow> quantity" where
  "ladder_at base xs p = (if in_ladder base (length xs) p then xs ! unat (p - base) else 0)"

definition ladder_fits :: "price \<Rightarrow> nat \<Rightarrow> bool" where
  "ladder_fits base n \<longleftrightarrow> 0 < n \<and> unat base + n \<le> 2 ^ 64"

text \<open>The occupied offsets, and the levels in ascending order, as \<open>state_digest\<close> hashes them.\<close>

definition occupied :: "quantity list \<Rightarrow> nat list" where
  "occupied xs = filter (\<lambda>i. xs ! i \<noteq> 0) [0..<length xs]"

definition ladder_list :: "price \<Rightarrow> quantity list \<Rightarrow> (price \<times> quantity) list" where
  "ladder_list base xs = map (\<lambda>i. (ladder_price base i, xs ! i)) (occupied xs)"

lemma unat_ladder_price: "ladder_fits base n \<Longrightarrow> i < n \<Longrightarrow> unat (ladder_price base i) = unat base + i"
  using unat_of_nat_u64 [of i] unat_plus_u64 [of base "of_nat i"]
  by (simp add: ladder_price_def ladder_fits_def)

lemma ladder_price_offset:
  assumes "ladder_fits base n" "i < n"
  shows "in_ladder base n (ladder_price base i)" "unat (ladder_price base i - base) = i"
proof -
  have le: "unat base \<le> unat (ladder_price base i)" using unat_ladder_price [OF assms] by simp
  then show o: "unat (ladder_price base i - base) = i"
    using unat_ladder_price [OF assms] by (simp add: unat_minus_u64)
  show "in_ladder base n (ladder_price base i)"
    using le assms(2) by (simp add: in_ladder_def o word_less_nat_alt)
qed

lemma in_ladderD:
  assumes "in_ladder base n p"
  shows "unat (p - base) < n" "ladder_price base (unat (p - base)) = p" "base \<le> p"
  using assms by (auto simp: in_ladder_def ladder_price_def)

lemma ladder_price_less:
  "ladder_fits base n \<Longrightarrow> i < n \<Longrightarrow> j < n \<Longrightarrow> ladder_price base i < ladder_price base j \<longleftrightarrow> i < j"
  by (simp add: word_less_nat_alt unat_ladder_price)

lemma ladder_at_price: "ladder_fits base (length xs) \<Longrightarrow> i < length xs \<Longrightarrow> ladder_at base xs (ladder_price base i) = xs ! i"
  by (simp add: ladder_at_def ladder_price_offset)

text \<open>Writing one offset changes the quantity of one price.\<close>

lemma ladder_at_update:
  assumes "in_ladder base (length xs) p"
  shows "ladder_at base (xs[unat (p - base) := q]) p' = (if p' = p then q else ladder_at base xs p')"
proof (cases "in_ladder base (length xs) p'")
  case True
  then have "unat (p' - base) = unat (p - base) \<longleftrightarrow> p' = p"
    using in_ladderD(2) [OF assms] in_ladderD(2) [OF True] by metis
  then show ?thesis
    using True in_ladderD(1) [OF assms] by (auto simp: ladder_at_def nth_list_update)
next
  case False
  with assms show ?thesis by (auto simp: ladder_at_def)
qed

section \<open>The level list\<close>

lemma occupied_less: "i \<in> set (occupied xs) \<longleftrightarrow> i < length xs \<and> xs ! i \<noteq> 0"
  by (auto simp: occupied_def)

lemma sorted_occupied: "sorted_wrt (<) (occupied xs)"
  unfolding occupied_def by (intro sorted_wrt_filter) simp

lemma ladder_list_spec:
  assumes fits: "ladder_fits base (length xs)" and match: "\<And>p. unat (ladder_at base xs p) = level_total m s p"
  shows "ladder_list base xs = spec_levels m s"
proof (rule levels_list_spec)
  have "sorted_wrt (<) (map (ladder_price base) (occupied xs))"
    unfolding sorted_wrt_map
    by (rule sorted_wrt_mono_rel [OF _ sorted_occupied]) (simp add: occupied_less ladder_price_less [OF fits])
  then show sw: "sorted_wrt (<) (map fst (ladder_list base xs))" by (simp add: ladder_list_def comp_def)
  show "\<forall>(p, q) \<in> set (ladder_list base xs). q \<noteq> 0" by (auto simp: ladder_list_def occupied_less)
  fix p
  have "map_of (ladder_list base xs) p = (if ladder_at base xs p \<noteq> 0 then Some (ladder_at base xs p) else None)"
  proof (cases "ladder_at base xs p \<noteq> 0")
    case True
    then have r: "in_ladder base (length xs) p" by (auto simp: ladder_at_def split: if_splits)
    then have "(p, ladder_at base xs p) \<in> set (ladder_list base xs)"
      using True in_ladderD [OF r] by (force simp: ladder_list_def ladder_at_def occupied_less)
    moreover have "distinct (map fst (ladder_list base xs))" using sw by (simp add: strict_sorted_iff)
    ultimately show ?thesis using True by simp
  next
    case False
    then have "p \<notin> fst ` set (ladder_list base xs)"
      using ladder_at_price [OF fits] by (auto simp: ladder_list_def occupied_less)
    with False show ?thesis by (simp add: map_of_eq_None_iff)
  qed
  then show "unat (lookup0 (ladder_list base xs) p) = level_total m s p"
    by (simp add: lookup0_def flip: match)
qed

section \<open>The best levels\<close>

definition ladder_best :: "price \<Rightarrow> quantity list \<Rightarrow> (nat list \<Rightarrow> nat) \<Rightarrow> level option" where
  "ladder_best base xs pick =
     (if occupied xs = [] then None
      else Some \<lparr>lvl_price_ticks = ladder_price base (pick (occupied xs)), lvl_quantity = xs ! pick (occupied xs)\<rparr>)"

lemma ladder_best_spec:
  assumes "ladder_list base xs = spec_levels m s"
  shows "s = Bid \<Longrightarrow> ladder_best base xs last = spec_best m Bid"
    and "s = Ask \<Longrightarrow> ladder_best base xs hd = spec_best m Ask"
  using assms [symmetric]
  by (auto simp: ladder_best_def spec_best_Bid spec_best_Ask ladder_list_def last_map hd_map)

section \<open>Scans\<close>

text \<open>The two scans for a best price: from the top down to the first occupied offset, from the bottom up.\<close>

fun scan_down :: "quantity list \<Rightarrow> nat \<Rightarrow> nat option" where
  "scan_down xs 0 = None"
| "scan_down xs (Suc i) = (if xs ! i \<noteq> 0 then Some i else scan_down xs i)"

function scan_up :: "quantity list \<Rightarrow> nat \<Rightarrow> nat option" where
  "scan_up xs i = (if i < length xs then if xs ! i \<noteq> 0 then Some i else scan_up xs (i + 1) else None)"
  by pat_completeness auto
termination
  by (relation "measure (\<lambda>(xs, i). length xs - i)") auto

declare scan_up.simps [simp del]

lemma scan_down_Some: "scan_down xs n = Some i \<Longrightarrow> i < n \<and> xs ! i \<noteq> 0 \<and> (\<forall>j. i < j \<and> j < n \<longrightarrow> xs ! j = 0)"
  by (induction n) (auto simp: less_Suc_eq split: if_splits)

lemma scan_down_None: "scan_down xs n = None \<longleftrightarrow> (\<forall>j < n. xs ! j = 0)"
  by (induction n) (auto simp: less_Suc_eq)

lemma scan_up_Some:
  "scan_up xs k = Some i \<Longrightarrow> i < length xs \<and> xs ! i \<noteq> 0 \<and> k \<le> i \<and> (\<forall>j. k \<le> j \<and> j < i \<longrightarrow> xs ! j = 0)"
proof (induction xs k rule: scan_up.induct)
  case (1 xs k)
  then show ?case
    by (auto simp: scan_up.simps [of xs k] split: if_splits; metis Suc_leI le_neq_implies_less)
qed

lemma scan_up_None: "scan_up xs k = None \<longleftrightarrow> (\<forall>j. k \<le> j \<and> j < length xs \<longrightarrow> xs ! j = 0)"
proof (induction xs k rule: scan_up.induct)
  case (1 xs k)
  then show ?case
    by (auto simp: scan_up.simps [of xs k] split: if_splits; metis Suc_leI le_neq_implies_less)
qed

end
