(* ===== verification/Dense_Ladder_Order_Book.thy ===== *)
theory Dense_Ladder_Order_Book
  imports Ladder Tombstone_Index Table_Capacity Parity_Order_Book
begin

text \<open>
  Version 3, \<open>llab::dense_ladder_order_book::OrderBook\<close>
  (\<open>cpp/include/llab/dense_ladder_order_book.hpp\<close>, \<open>cpp/src/dense_ladder_order_book.cpp\<close>):
  orders in a tombstone index, one quantity per tick of a fixed price range, and the two best prices
  cached; the cache is rescanned when its level empties.
\<close>

section \<open>State\<close>

record dense_levels =
  den_bids :: "quantity list"
  den_asks :: "quantity list"
  den_minimum_price :: price
  den_best_bid :: "price option"
  den_best_ask :: "price option"

record dense_book =
  dl_slots :: "order slot list"
  dl_levels :: dense_levels
  dl_live :: u64

text \<open>The table is sized before the range is tested.\<close>

definition dl_new :: "u64 \<Rightarrow> price \<Rightarrow> u64 \<Rightarrow> dense_book result" where
  "dl_new maximum_live_orders minimum_price price_count =
     (case ladder_capacity maximum_live_orders of
        Value n \<Rightarrow>
          if price_count = 0 \<or> minimum_price > uint64_max - (price_count - 1)
          then Raise (Invalid_argument ''invalid ladder range'')
          else Value \<lparr>dl_slots = empty_slots n no_order,
                      dl_levels = \<lparr>den_bids = replicate (unat price_count) 0,
                                   den_asks = replicate (unat price_count) 0,
                                   den_minimum_price = minimum_price,
                                   den_best_bid = None, den_best_ask = None\<rparr>,
                      dl_live = 0\<rparr>
      | Raise x \<Rightarrow> Raise x
      | Loops \<Rightarrow> Loops)"

definition den_ladder :: "dense_levels \<Rightarrow> side \<Rightarrow> quantity list" where
  "den_ladder l s = (if s = Bid then den_bids l else den_asks l)"

definition den_set_ladder :: "dense_levels \<Rightarrow> side \<Rightarrow> quantity list \<Rightarrow> dense_levels" where
  "den_set_ladder l s xs = (if s = Bid then l\<lparr>den_bids := xs\<rparr> else l\<lparr>den_asks := xs\<rparr>)"

definition den_offset :: "dense_levels \<Rightarrow> price \<Rightarrow> nat result" where
  "den_offset l p =
     (if p < den_minimum_price l \<or> unat (p - den_minimum_price l) \<ge> length (den_bids l)
      then Raise (Invalid_argument ''price outside ladder'')
      else Value (unat (p - den_minimum_price l)))"

section \<open>Price levels\<close>

definition den_refresh_best :: "dense_levels \<Rightarrow> side \<Rightarrow> dense_levels" where
  "den_refresh_best l s =
     (if s = Bid
      then l\<lparr>den_best_bid := map_option (\<lambda>i. den_minimum_price l + of_nat i)
                               (scan_down (den_bids l) (length (den_bids l)))\<rparr>
      else l\<lparr>den_best_ask := map_option (\<lambda>i. den_minimum_price l + of_nat i) (scan_up (den_asks l) 0)\<rparr>)"

definition den_add_level :: "dense_levels \<Rightarrow> side \<Rightarrow> price \<Rightarrow> quantity \<Rightarrow> dense_levels outcome" where
  "den_add_level l s p q =
     with_value l (den_offset l p) (\<lambda>i.
       let level = den_ladder l s ! i
       in if uint64_max - level < q then Threw (Overflow_error ''overflow'') l
          else let l = den_set_ladder l s ((den_ladder l s)[i := level + q])
               in if s = Bid
                  then Done (case den_best_bid l of
                               None \<Rightarrow> l\<lparr>den_best_bid := Some p\<rparr>
                             | Some best \<Rightarrow> if p > best then l\<lparr>den_best_bid := Some p\<rparr> else l)
                  else Done (case den_best_ask l of
                               None \<Rightarrow> l\<lparr>den_best_ask := Some p\<rparr>
                             | Some best \<Rightarrow> if p < best then l\<lparr>den_best_ask := Some p\<rparr> else l))"

definition den_subtract_level :: "dense_levels \<Rightarrow> side \<Rightarrow> price \<Rightarrow> quantity \<Rightarrow> dense_levels outcome" where
  "den_subtract_level l s p q =
     with_value l (den_offset l p) (\<lambda>i.
       let level = den_ladder l s ! i
       in if q = 0 \<or> q > level then Threw (Logic_error ''level'') l
          else let l = den_set_ladder l s ((den_ladder l s)[i := level - q])
               in if level - q = 0 \<and> ((s = Bid \<and> den_best_bid l = Some p) \<or> (s = Ask \<and> den_best_ask l = Some p))
                  then Done (den_refresh_best l s)
                  else Done l)"

definition dl_add_level :: "dense_book \<Rightarrow> side \<Rightarrow> price \<Rightarrow> quantity \<Rightarrow> dense_book outcome" where
  "dl_add_level b s p q = within (\<lambda>l. b\<lparr>dl_levels := l\<rparr>) (den_add_level (dl_levels b) s p q)"

definition dl_subtract_level :: "dense_book \<Rightarrow> side \<Rightarrow> price \<Rightarrow> quantity \<Rightarrow> dense_book outcome" where
  "dl_subtract_level b s p q = within (\<lambda>l. b\<lparr>dl_levels := l\<rparr>) (den_subtract_level (dl_levels b) s p q)"

section \<open>Order operations\<close>

text \<open>\<open>find\<close> and \<open>insert_slot\<close> are the searches of version 2.\<close>

definition dl_find :: "dense_book \<Rightarrow> order_id \<Rightarrow> nat" where
  "dl_find b oid = find_slot (dl_slots b) oid"

definition dl_insert_slot :: "dense_book \<Rightarrow> order_id \<Rightarrow> nat" where
  "dl_insert_slot b oid = insertion_slot (dl_slots b) oid"

definition dl_require :: "dense_book \<Rightarrow> order_id \<Rightarrow> nat result" where
  "dl_require b oid =
     (let i = dl_find b oid
      in if i = length (dl_slots b) then Raise (Invalid_argument ''unknown id'') else Value i)"

definition dl_add_order :: "dense_book \<Rightarrow> order_id \<Rightarrow> side \<Rightarrow> price \<Rightarrow> quantity \<Rightarrow> dense_book outcome" where
  "dl_add_order b oid s p q =
     (if oid = 0 \<or> q = 0 then Threw (Invalid_argument ''add'') b
      else let i = dl_insert_slot b oid
        in if i = length (dl_slots b) then Threw (Invalid_argument ''index'') b
           else seq (dl_add_level b s p q)
                  (\<lambda>b. Done (b\<lparr>dl_slots := occupy (dl_slots b) i oid
                                 \<lparr>ord_side = s, ord_price_ticks = p, ord_remaining_quantity = q\<rparr>,
                               dl_live := dl_live b + 1\<rparr>)))"

definition dl_remove_order :: "dense_book \<Rightarrow> order_id \<Rightarrow> dense_book outcome" where
  "dl_remove_order b oid =
     with_value b (dl_require b oid) (\<lambda>i.
       let r = sl_order (dl_slots b ! i)
       in seq (dl_subtract_level b (ord_side r) (ord_price_ticks r) (ord_remaining_quantity r))
            (\<lambda>b. Done (b\<lparr>dl_slots := bury (dl_slots b) i, dl_live := dl_live b - 1\<rparr>)))"

definition dl_reduce :: "dense_book \<Rightarrow> order_id \<Rightarrow> quantity \<Rightarrow> bool \<Rightarrow> dense_book outcome" where
  "dl_reduce b oid q full =
     with_value b (dl_require b oid) (\<lambda>i.
       let r = sl_order (dl_slots b ! i)
       in if q = 0 \<or> q > ord_remaining_quantity r \<or> (\<not> full \<and> q = ord_remaining_quantity r)
          then Threw (Invalid_argument ''reduce'') b
          else seq (dl_subtract_level b (ord_side r) (ord_price_ticks r) q)
                 (\<lambda>b. if q = ord_remaining_quantity r
                      then Done (b\<lparr>dl_slots := bury (dl_slots b) i, dl_live := dl_live b - 1\<rparr>)
                      else Done (b\<lparr>dl_slots := set_order (dl_slots b) i
                                     (r\<lparr>ord_remaining_quantity := ord_remaining_quantity r - q\<rparr>)\<rparr>)))"

definition dl_upsert :: "dense_book \<Rightarrow> order_id \<Rightarrow> side \<Rightarrow> price \<Rightarrow> quantity \<Rightarrow> dense_book outcome" where
  "dl_upsert b oid s p q =
     (if oid = 0 \<or> q = 0 then Threw (Invalid_argument ''upsert'') b
      else let i = dl_find b oid
        in if i = length (dl_slots b) then dl_add_order b oid s p q
           else let r = sl_order (dl_slots b ! i)
             in seq (dl_subtract_level b (ord_side r) (ord_price_ticks r) (ord_remaining_quantity r))
                  (\<lambda>b. seq (dl_add_level b s p q)
                    (\<lambda>b. Done (b\<lparr>dl_slots := set_order (dl_slots b) i
                            \<lparr>ord_side = s, ord_price_ticks = p, ord_remaining_quantity = q\<rparr>\<rparr>))))"

definition dl_apply :: "dense_book \<Rightarrow> event \<Rightarrow> dense_book outcome" where
  "dl_apply b e =
     (case ev_type e of
        Add \<Rightarrow> dl_add_order b (ev_order_id e) (ev_side e) (ev_price_ticks e) (ev_quantity e)
      | Cancel \<Rightarrow> dl_reduce b (ev_order_id e) (ev_quantity e) False
      | Execute \<Rightarrow> dl_reduce b (ev_order_id e) (ev_quantity e) True
      | Delete \<Rightarrow> dl_remove_order b (ev_order_id e)
      | OrderDelete \<Rightarrow> dl_remove_order b (ev_order_id e)
      | Replace \<Rightarrow>
          if ev_order_id e = ev_replacement_order_id e then Threw (Invalid_argument ''replace id'') b
          else seq (dl_remove_order b (ev_order_id e))
                 (\<lambda>b. dl_add_order b (ev_replacement_order_id e) (ev_side e) (ev_price_ticks e) (ev_quantity e))
      | OrderUpsert \<Rightarrow> dl_upsert b (ev_order_id e) (ev_side e) (ev_price_ticks e) (ev_quantity e))"

section \<open>Observers\<close>

text \<open>The observers read the ladder through \<open>offset\<close>, which throws for a price outside it.\<close>

definition dl_best_bid :: "dense_book \<Rightarrow> level option result" where
  "dl_best_bid b =
     (case den_best_bid (dl_levels b) of
        None \<Rightarrow> Value None
      | Some p \<Rightarrow>
          map_value (\<lambda>i. Some \<lparr>lvl_price_ticks = p, lvl_quantity = den_bids (dl_levels b) ! i\<rparr>)
            (den_offset (dl_levels b) p))"

definition dl_best_ask :: "dense_book \<Rightarrow> level option result" where
  "dl_best_ask b =
     (case den_best_ask (dl_levels b) of
        None \<Rightarrow> Value None
      | Some p \<Rightarrow>
          map_value (\<lambda>i. Some \<lparr>lvl_price_ticks = p, lvl_quantity = den_asks (dl_levels b) ! i\<rparr>)
            (den_offset (dl_levels b) p))"

definition dl_order_index_capacity :: "dense_book \<Rightarrow> nat" where
  "dl_order_index_capacity b = length (dl_slots b)"

text \<open>\<open>slots_[find(id)]\<close> for an occupied slot's identifier.\<close>

definition dl_state_digest :: "dense_book \<Rightarrow> u64 result" where
  "dl_state_digest b =
     Value (digest (dl_live b)
       (ladder_list (den_minimum_price (dl_levels b)) (den_bids (dl_levels b)))
       (ladder_list (den_minimum_price (dl_levels b)) (den_asks (dl_levels b)))
       (map (\<lambda>oid. (oid, sl_order (dl_slots b ! dl_find b oid))) (sort (slot_ids (dl_slots b)))))"


section \<open>The scans find the ends of the occupied offsets\<close>

definition ladder_top :: "quantity list \<Rightarrow> nat option" where
  "ladder_top xs = (if occupied xs = [] then None else Some (last (occupied xs)))"

definition ladder_bottom :: "quantity list \<Rightarrow> nat option" where
  "ladder_bottom xs = (if occupied xs = [] then None else Some (hd (occupied xs)))"

lemma occupied_Nil: "occupied xs = [] \<longleftrightarrow> (\<forall>k < length xs. xs ! k = 0)"
  by (auto simp: occupied_def filter_empty_conv)

lemma scan_down_filter:
  "scan_down xs n =
     (let is = filter (\<lambda>i. xs ! i \<noteq> 0) [0..<n] in if is = [] then None else Some (last is))"
  by (induction n) (auto simp: Let_def)

lemma scan_up_filter:
  "scan_up xs i =
     (let is = filter (\<lambda>i. xs ! i \<noteq> 0) [i..<length xs] in if is = [] then None else Some (hd is))"
proof (induction xs i rule: scan_up.induct)
  case (1 xs i)
  then show ?case by (simp add: scan_up.simps [of xs i] upt_rec [of i] Let_def)
qed

lemma scans: "scan_down xs (length xs) = ladder_top xs" "scan_up xs 0 = ladder_bottom xs"
  by (simp_all add: scan_down_filter scan_up_filter ladder_top_def ladder_bottom_def occupied_def Let_def)

lemma scan_down_write: "scan_down (xs[i := v]) (length xs) = ladder_top (xs[i := v])"
  using scans(1) [of "xs[i := v]"] by simp

lemma top_iff:
  "ladder_top xs = None \<longleftrightarrow> (\<forall>k < length xs. xs ! k = 0)"
  "ladder_top xs = Some j \<longleftrightarrow> j < length xs \<and> xs ! j \<noteq> 0 \<and> (\<forall>k < length xs. xs ! k \<noteq> 0 \<longrightarrow> k \<le> j)"
proof -
  show "ladder_top xs = None \<longleftrightarrow> (\<forall>k < length xs. xs ! k = 0)" by (simp add: ladder_top_def occupied_Nil)
  have s: "sorted (occupied xs)" using sorted_occupied [of xs] by (simp add: strict_sorted_iff)
  have le: "k \<le> last (occupied xs)" if "k \<in> set (occupied xs)" for k
    using s that by (cases "occupied xs" rule: rev_cases) (auto simp: sorted_append)
  show "ladder_top xs = Some j \<longleftrightarrow> j < length xs \<and> xs ! j \<noteq> 0 \<and> (\<forall>k < length xs. xs ! k \<noteq> 0 \<longrightarrow> k \<le> j)"
  proof (cases "occupied xs = []")
    case False
    then have l: "last (occupied xs) \<in> set (occupied xs)" by simp
    show ?thesis
      using False l le by (auto simp: ladder_top_def occupied_less intro: le_antisym)
  qed (auto simp: ladder_top_def occupied_Nil)
qed

lemma bottom_iff:
  "ladder_bottom xs = None \<longleftrightarrow> (\<forall>k < length xs. xs ! k = 0)"
  "ladder_bottom xs = Some j \<longleftrightarrow> j < length xs \<and> xs ! j \<noteq> 0 \<and> (\<forall>k < length xs. xs ! k \<noteq> 0 \<longrightarrow> j \<le> k)"
proof -
  show "ladder_bottom xs = None \<longleftrightarrow> (\<forall>k < length xs. xs ! k = 0)" by (simp add: ladder_bottom_def occupied_Nil)
  have s: "sorted (occupied xs)" using sorted_occupied [of xs] by (simp add: strict_sorted_iff)
  have le: "hd (occupied xs) \<le> k" if "k \<in> set (occupied xs)" for k
    using s that by (cases "occupied xs") auto
  show "ladder_bottom xs = Some j \<longleftrightarrow> j < length xs \<and> xs ! j \<noteq> 0 \<and> (\<forall>k < length xs. xs ! k \<noteq> 0 \<longrightarrow> j \<le> k)"
  proof (cases "occupied xs = []")
    case False
    then have l: "hd (occupied xs) \<in> set (occupied xs)" by simp
    show ?thesis
      using False l le by (auto simp: ladder_bottom_def occupied_less intro: le_antisym)
  qed (auto simp: ladder_bottom_def occupied_Nil)
qed

text \<open>How one write moves the ends.\<close>

lemma top_write:
  assumes "i < length xs"
  shows "v \<noteq> 0 \<Longrightarrow> ladder_top (xs[i := v]) = Some (case ladder_top xs of None \<Rightarrow> i | Some j \<Rightarrow> max i j)"
    and "xs ! i \<noteq> 0 \<Longrightarrow> v \<noteq> 0 \<or> ladder_top xs \<noteq> Some i \<Longrightarrow> ladder_top (xs[i := v]) = ladder_top xs"
proof -
  show "ladder_top (xs[i := v]) = Some (case ladder_top xs of None \<Rightarrow> i | Some j \<Rightarrow> max i j)" if "v \<noteq> 0"
  proof (cases "ladder_top xs")
    case None
    with that assms have "ladder_top (xs[i := v]) = Some i" by (auto simp: top_iff nth_list_update)
    with None show ?thesis by simp
  next
    case (Some j)
    with that assms have "ladder_top (xs[i := v]) = Some (max i j)" by (auto simp: top_iff nth_list_update max_def)
    with Some show ?thesis by simp
  qed
  show "ladder_top (xs[i := v]) = ladder_top xs" if "xs ! i \<noteq> 0" "v \<noteq> 0 \<or> ladder_top xs \<noteq> Some i"
  proof (cases "ladder_top xs")
    case (Some j)
    with that assms have "ladder_top (xs[i := v]) = Some j" by (auto simp: top_iff nth_list_update)
    with Some show ?thesis by simp
  qed (use that assms in \<open>auto simp: top_iff\<close>)
qed

lemma bottom_write:
  assumes "i < length xs"
  shows "v \<noteq> 0 \<Longrightarrow> ladder_bottom (xs[i := v]) = Some (case ladder_bottom xs of None \<Rightarrow> i | Some j \<Rightarrow> min i j)"
    and "xs ! i \<noteq> 0 \<Longrightarrow> v \<noteq> 0 \<or> ladder_bottom xs \<noteq> Some i \<Longrightarrow> ladder_bottom (xs[i := v]) = ladder_bottom xs"
proof -
  show "ladder_bottom (xs[i := v]) = Some (case ladder_bottom xs of None \<Rightarrow> i | Some j \<Rightarrow> min i j)" if "v \<noteq> 0"
  proof (cases "ladder_bottom xs")
    case None
    with that assms have "ladder_bottom (xs[i := v]) = Some i" by (auto simp: bottom_iff nth_list_update)
    with None show ?thesis by simp
  next
    case (Some j)
    with that assms have "ladder_bottom (xs[i := v]) = Some (min i j)" by (auto simp: bottom_iff nth_list_update min_def)
    with Some show ?thesis by simp
  qed
  show "ladder_bottom (xs[i := v]) = ladder_bottom xs" if "xs ! i \<noteq> 0" "v \<noteq> 0 \<or> ladder_bottom xs \<noteq> Some i"
  proof (cases "ladder_bottom xs")
    case (Some j)
    with that assms have "ladder_bottom (xs[i := v]) = Some j" by (auto simp: bottom_iff nth_list_update)
    with Some show ?thesis by simp
  qed (use that assms in \<open>auto simp: bottom_iff\<close>)
qed


section \<open>The ladder is a level store\<close>

definition den_lvl :: "dense_levels \<Rightarrow> side \<Rightarrow> price \<Rightarrow> quantity" where
  "den_lvl l s p = ladder_at (den_minimum_price l) (den_ladder l s) p"

definition den_ok :: "price \<Rightarrow> nat \<Rightarrow> dense_levels \<Rightarrow> bool" where
  "den_ok base n l \<longleftrightarrow>
     ladder_fits base n \<and> length (den_bids l) = n \<and> length (den_asks l) = n \<and> den_minimum_price l = base \<and>
     den_best_bid l = map_option (ladder_price base) (ladder_top (den_bids l)) \<and>
     den_best_ask l = map_option (ladder_price base) (ladder_bottom (den_asks l))"

lemma den_okD:
  assumes "den_ok base n l"
  shows "ladder_fits base n" "length (den_ladder l s) = n" "length (den_bids l) = n" "length (den_asks l) = n"
    and "den_minimum_price l = base"
    and "den_best_bid l = map_option (ladder_price base) (ladder_top (den_bids l))"
    and "den_best_ask l = map_option (ladder_price base) (ladder_bottom (den_asks l))"
  using assms by (simp_all add: den_ok_def den_ladder_def)

lemma den_offset_eq:
  assumes "den_ok base n l"
  shows "den_offset l p = (if in_ladder base n p then Value (unat (p - base))
     else Raise (Invalid_argument ''price outside ladder''))"
  using den_okD(3,5) [OF assms] by (auto simp: den_offset_def in_ladder_def)

text \<open>The cached prices against the offset of a price in the ladder.\<close>

lemma ladder_price_cmp:
  assumes "ladder_fits base n" "in_ladder base n p" "j < n"
  shows "p > ladder_price base j \<longleftrightarrow> unat (p - base) > j" "p < ladder_price base j \<longleftrightarrow> unat (p - base) < j"
    and "ladder_price base j = p \<longleftrightarrow> j = unat (p - base)"
proof -
  note i = in_ladderD [OF assms(2)]
  show "p > ladder_price base j \<longleftrightarrow> unat (p - base) > j" "p < ladder_price base j \<longleftrightarrow> unat (p - base) < j"
    using ladder_price_less [OF assms(1) assms(3) i(1)] ladder_price_less [OF assms(1) i(1) assms(3)] i(2) by simp_all
  show "ladder_price base j = p \<longleftrightarrow> j = unat (p - base)"
    using ladder_price_offset(2) [OF assms(1,3)] i(2) by auto
qed

lemma ladder_top_less: "ladder_top xs = Some j \<Longrightarrow> j < length xs"
  by (simp add: top_iff)

lemma ladder_bottom_less: "ladder_bottom xs = Some j \<Longrightarrow> j < length xs"
  by (simp add: bottom_iff)

text \<open>A write at one offset with both caches recomputed: what every successful update amounts to.\<close>

definition den_write :: "dense_levels \<Rightarrow> side \<Rightarrow> nat \<Rightarrow> quantity \<Rightarrow> dense_levels" where
  "den_write l s i v =
     (let l' = den_set_ladder l s ((den_ladder l s)[i := v])
      in l'\<lparr>den_best_bid := map_option (ladder_price (den_minimum_price l)) (ladder_top (den_bids l')),
            den_best_ask := map_option (ladder_price (den_minimum_price l)) (ladder_bottom (den_asks l'))\<rparr>)"

lemma den_write_ok:
  assumes l: "den_ok base n l" and p: "in_ladder base n p"
  shows "den_ok base n (den_write l s (unat (p - base)) v)"
    and "den_lvl (den_write l s (unat (p - base)) v) = upd_lvl (den_lvl l) s p v"
proof -
  note d = den_okD [OF l]
  show "den_ok base n (den_write l s (unat (p - base)) v)"
    using d by (cases s) (simp_all add: den_ok_def den_write_def den_set_ladder_def den_ladder_def)
  have lad: "den_ladder (den_write l s i v) s' = (if s' = s then (den_ladder l s)[i := v] else den_ladder l s')"
      "den_minimum_price (den_write l s i v) = base" for s' i
    using d(5) by (cases s; cases s'; simp add: den_write_def den_set_ladder_def den_ladder_def)+
  show "den_lvl (den_write l s (unat (p - base)) v) = upd_lvl (den_lvl l) s p v"
    using ladder_at_update [of base "den_ladder l s" p v] d p by (simp add: fun_eq_iff den_lvl_def lad)
qed

lemma den_best_unchanged:
  assumes "den_ok base n l"
  shows "l\<lparr>den_best_bid := map_option (ladder_price base) (ladder_top (den_bids l))\<rparr> = l"
    and "l\<lparr>den_best_ask := map_option (ladder_price base) (ladder_bottom (den_asks l))\<rparr> = l"
  using den_okD(6,7) [OF assms] by simp_all

lemma den_level_at: "den_ok base n l \<Longrightarrow> in_ladder base n p \<Longrightarrow> den_ladder l s ! unat (p - base) = den_lvl l s p"
  using den_okD [of base n l] by (simp add: den_lvl_def ladder_at_def)

text \<open>The caches after an addition: the new price if it is better.\<close>

lemma den_best_added:
  assumes l: "den_ok base n l" and p: "in_ladder base n p" and v: "v \<noteq> 0"
  shows "map_option (ladder_price base) (ladder_top ((den_bids l)[unat (p - base) := v])) =
      (case den_best_bid l of None \<Rightarrow> Some p | Some best \<Rightarrow> if p > best then Some p else Some best)"
    and "map_option (ladder_price base) (ladder_bottom ((den_asks l)[unat (p - base) := v])) =
      (case den_best_ask l of None \<Rightarrow> Some p | Some best \<Rightarrow> if p < best then Some p else Some best)"
proof -
  note d = den_okD [OF l] and i = in_ladderD [OF p]
  show "map_option (ladder_price base) (ladder_top ((den_bids l)[unat (p - base) := v])) =
      (case den_best_bid l of None \<Rightarrow> Some p | Some best \<Rightarrow> if p > best then Some p else Some best)"
    using top_write(1) [of _ "den_bids l", OF _ v] i d(3,6) ladder_price_cmp(1) [OF d(1) p]
    by (auto simp: max_def dest: ladder_top_less split: option.splits)
  show "map_option (ladder_price base) (ladder_bottom ((den_asks l)[unat (p - base) := v])) =
      (case den_best_ask l of None \<Rightarrow> Some p | Some best \<Rightarrow> if p < best then Some p else Some best)"
    using bottom_write(1) [of _ "den_asks l", OF _ v] i d(4,7) ladder_price_cmp(2) [OF d(1) p]
    by (auto simp: min_def dest: ladder_bottom_less split: option.splits)
qed

lemma den_add_eq:
  assumes l: "den_ok base n l" and q: "q \<noteq> 0" and p: "in_ladder base n p"
    and fit: "unat (den_lvl l s p) + unat q < 2 ^ 64"
  shows "den_add_level l s p q = Done (den_write l s (unat (p - base)) (den_lvl l s p + q))"
proof -
  have nz: "den_lvl l s p + q \<noteq> 0"
    using unat_plus_u64 [OF fit] q by (metis add_is_0 unat_0 unat_zero_iff)
  have ng: "\<not> uint64_max - den_lvl l s p < q" using fit by (simp add: overflow_guard)
  note best = den_best_added [OF l p nz] and d = den_okD [OF l] and at = den_level_at [OF l p]
  show ?thesis
  proof (cases s)
    case Bid
    with ng p at [of Bid] show ?thesis
      by (simp add: den_add_level_def den_offset_eq [OF l] den_write_def d(5) d(7) [symmetric] best(1) [unfolded Bid]
          den_set_ladder_def den_ladder_def Let_def split: option.split)
  next
    case Ask
    with ng p at [of Ask] show ?thesis
      by (simp add: den_add_level_def den_offset_eq [OF l] den_write_def d(5) d(6) [symmetric] best(2) [unfolded Ask]
          den_set_ladder_def den_ladder_def Let_def split: option.split)
  qed
qed

lemma den_add_refused:
  assumes l: "den_ok base n l" and "\<not> (in_ladder base n p \<and> unat (den_lvl l s p) + unat q < 2 ^ 64)"
  shows "\<exists>x. den_add_level l s p q = Threw x l"
  using assms(2) den_okD [OF l]
  by (auto simp: den_add_level_def den_offset_eq [OF l] den_lvl_def ladder_at_def overflow_guard Let_def)

lemma den_best_kept:
  assumes l: "den_ok base n l" and p: "in_ladder base n p"
  shows "den_bids l ! unat (p - base) \<noteq> 0 \<Longrightarrow> v \<noteq> 0 \<or> den_best_bid l \<noteq> Some p \<Longrightarrow>
      map_option (ladder_price base) (ladder_top ((den_bids l)[unat (p - base) := v])) = den_best_bid l"
    and "den_asks l ! unat (p - base) \<noteq> 0 \<Longrightarrow> v \<noteq> 0 \<or> den_best_ask l \<noteq> Some p \<Longrightarrow>
      map_option (ladder_price base) (ladder_bottom ((den_asks l)[unat (p - base) := v])) = den_best_ask l"
  using top_write(2) [of "unat (p - base)" "den_bids l" v] bottom_write(2) [of "unat (p - base)" "den_asks l" v]
    den_okD [OF l] in_ladderD [OF p] by fastforce+

lemma den_sub_eq:
  assumes l: "den_ok base n l" and q: "q \<noteq> 0" and le: "q \<le> den_lvl l s p"
  shows "in_ladder base n p" "den_subtract_level l s p q = Done (den_write l s (unat (p - base)) (den_lvl l s p - q))"
proof -
  note d = den_okD [OF l]
  show p: "in_ladder base n p"
    using q le d by (auto simp: den_lvl_def ladder_at_def split: if_splits)
  have nz: "den_lvl l s p \<noteq> 0" using q le by auto
  note at = den_level_at [OF l p] and kept = den_best_kept [OF l p]
  show "den_subtract_level l s p q = Done (den_write l s (unat (p - base)) (den_lvl l s p - q))"
  proof (cases s)
    case Bid
    with nz le q kept(1) [of "den_lvl l Bid p - q"] at [of Bid] p show ?thesis
      by (auto simp: den_subtract_level_def den_offset_eq [OF l] at den_write_def d(5) d(7) [symmetric]
          den_set_ladder_def den_ladder_def den_refresh_best_def scans scan_down_write ladder_price_def [symmetric] Let_def)
  next
    case Ask
    with nz le q kept(2) [of "den_lvl l Ask p - q"] at [of Ask] p show ?thesis
      by (auto simp: den_subtract_level_def den_offset_eq [OF l] at den_write_def d(5) d(6) [symmetric]
          den_set_ladder_def den_ladder_def den_refresh_best_def scans scan_down_write ladder_price_def [symmetric] Let_def)
  qed
qed

interpretation den: level_store den_add_level den_subtract_level den_lvl "den_ok base n" "in_ladder base n" for base n
  by unfold_locales (auto simp: den_add_eq den_sub_eq(2) intro: den_write_ok den_add_refused den_sub_eq(1))


section \<open>The book refines the specification\<close>

definition dl_view :: "dense_book \<Rightarrow> orders" where
  "dl_view b = slots_map (dl_slots b)"

definition dl_index_ok :: "nat \<Rightarrow> dense_book \<Rightarrow> bool" where
  "dl_index_ok n b = table_ok n (dl_slots b) (dl_live b)"

abbreviation dl_ok :: "nat \<Rightarrow> price \<Rightarrow> nat \<Rightarrow> dense_book \<Rightarrow> bool" where
  "dl_ok n base width \<equiv> book_ok (dl_index_ok n) dl_levels (den_ok base width) den_lvl dl_view"

interpretation dli: indexed_book den_add_level den_subtract_level den_lvl "den_ok base width" "in_ladder base width"
  dl_levels dl_view "dl_index_ok n" n for base width n
  by unfold_locales (simp add: dl_index_ok_def dl_view_def table_okD)

lemma dl_okD: "dl_ok n base width b \<Longrightarrow> table_ok n (dl_slots b) (dl_live b)"
  by (simp add: book_ok_def dl_index_ok_def)

lemma ladder_fits_guard:
  assumes "\<not> (width = 0 \<or> base > uint64_max - (width - 1))"
  shows "ladder_fits base (unat width)"
proof -
  have c: "unat (width - 1) = unat width - 1"
    using assms unat_minus_u64 [of 1 width] by (simp add: Suc_le_eq)
  have "\<not> uint64_max - (width - 1) < base" using assms by simp
  then have "unat (width - 1) + unat base < 2 ^ 64" using overflow_guard [of "width - 1" base] by simp
  moreover have "0 < unat width" using assms by simp
  ultimately show ?thesis using c by (simp add: ladder_fits_def)
qed

lemma dl_new_ok:
  assumes "unat maximum \<le> 2 ^ 62" "\<not> (width = 0 \<or> base > uint64_max - (width - 1))"
  shows "\<exists>b n. dl_new maximum base width = Value b \<and> dl_ok n base (unat width) b \<and> dl_view b = Map.empty \<and> 2 * unat maximum \<le> n"
proof -
  obtain c where c: "grown (max 8 (maximum * 2)) = Value c" "pow2_size c" "2 * unat maximum \<le> c"
    using grown_returns [OF assms(1)] by auto
  let ?l = "\<lparr>den_bids = replicate (unat width) 0, den_asks = replicate (unat width) 0,
    den_minimum_price = base, den_best_bid = None, den_best_ask = None\<rparr>"
  let ?b = "\<lparr>dl_slots = empty_slots c no_order, dl_levels = ?l, dl_live = 0\<rparr>"
  have new: "dl_new maximum base width = Value ?b"
    using assms(2) by (simp add: dl_new_def ladder_capacity_def c(1))
  have lv: "den_ok base (unat width) ?l" "den_lvl ?l = (\<lambda>_ _. 0)"
    using ladder_fits_guard [OF assms(2)]
    by (simp_all add: den_ok_def den_lvl_def den_ladder_def ladder_at_def in_ladder_def fun_eq_iff
        ladder_top_def ladder_bottom_def occupied_Nil)
  have "dl_ok c base (unat width) ?b" "dl_view ?b = Map.empty"
    using table_ok_new [OF c(2), of no_order] slots_ok_empty(2) [OF c(2), of no_order] lv
    by (simp_all add: book_ok_def dl_index_ok_def dl_view_def levels_match_def)
  with new c(3) show ?thesis by blast
qed

lemmas dl_defs = dl_add_order_def dl_remove_order_def dl_reduce_def dl_upsert_def dl_require_def dl_find_def
  dl_insert_slot_def dl_add_level_def dl_subtract_level_def dl_index_ok_def dl_view_def Let_def

lemma dl_add_refines:
  assumes ok: "dl_ok n base width b" and r: "r = \<lparr>ord_side = s, ord_price_ticks = p, ord_remaining_quantity = q\<rparr>"
  shows "refines dl_view (dl_ok n base width) (dl_add_order b i s p q)
     (if card (dom (dl_view b)) < n \<and> in_ladder base width p then l3_add (dl_view b) i r else None)"
  using table_simps [OF dl_okD [OF ok]] table_okD(2) [OF dl_okD [OF ok]]
  by (intro dli.add_rule [OF ok r]) (auto simp: dl_defs r)

lemma dl_remove_refines:
  assumes ok: "dl_ok n base width b"
  shows "refines dl_view (dl_ok n base width) (dl_remove_order b i) (l3_remove (dl_view b) i)"
  using table_simps [OF dl_okD [OF ok]] table_okD(2) [OF dl_okD [OF ok]]
  by (intro dli.remove_rule [OF ok]) (auto simp: dl_defs)

lemma dl_reduce_refines:
  assumes ok: "dl_ok n base width b"
  shows "refines dl_view (dl_ok n base width) (dl_reduce b i q full) (l3_reduce (dl_view b) i q full)"
  using table_simps [OF dl_okD [OF ok]] table_okD(2) [OF dl_okD [OF ok]]
  by (intro dli.reduce_rule [OF ok]) (auto simp: dl_defs l3_reduce_def split: option.splits if_splits)

lemma dl_upsert_refines:
  assumes ok: "dl_ok n base width b" and r: "r = \<lparr>ord_side = s, ord_price_ticks = p, ord_remaining_quantity = q\<rparr>"
  shows "refines dl_view (dl_ok n base width) (dl_upsert b i s p q)
     (if (dl_view b i = None \<longrightarrow> card (dom (dl_view b)) < n) \<and> in_ladder base width p
      then l3_upsert (dl_view b) i r else None)"
proof (intro dli.upsert_rule [OF ok r])
  show "refines dl_view (dl_ok n base width) (dl_upsert b i s p q)
      (if card (dom (dl_view b)) < n \<and> in_ladder base width p then l3_add (dl_view b) i r else None)"
    if "i \<noteq> 0" "q \<noteq> 0" "dl_view b i = None"
  proof -
    have "dl_upsert b i s p q = dl_add_order b i s p q"
      using that table_find(1) [OF dl_okD [OF ok]] table_okD(2) [OF dl_okD [OF ok]]
      by (simp add: dl_upsert_def dl_find_def dl_view_def)
    then show ?thesis using dl_add_refines [OF ok r] by simp
  qed
qed (use table_simps [OF dl_okD [OF ok]] table_okD(2) [OF dl_okD [OF ok]] in \<open>auto simp: dl_defs r\<close>)

text \<open>The observers show the canonical levels and orders; the cached prices are the best ones.\<close>

lemma dl_sides:
  assumes ok: "dl_ok n base width b"
  shows "ladder_list base (den_bids (dl_levels b)) = spec_levels (dl_view b) Bid"
    and "ladder_list base (den_asks (dl_levels b)) = spec_levels (dl_view b) Ask"
proof -
  note d = den_okD [OF book_okD(2) [OF ok]] and m = levels_matchD [OF book_okD(3) [OF ok]]
  have "ladder_list base (den_ladder (dl_levels b) s) = spec_levels (dl_view b) s" for s
    using d m [of s] by (intro ladder_list_spec) (simp_all add: den_lvl_def)
  from this [of Bid] this [of Ask]
  show "ladder_list base (den_bids (dl_levels b)) = spec_levels (dl_view b) Bid"
    "ladder_list base (den_asks (dl_levels b)) = spec_levels (dl_view b) Ask"
    by (simp_all add: den_ladder_def)
qed

lemma dl_best_spec:
  assumes ok: "dl_ok n base width b"
  shows "dl_best_bid b = Value (spec_best (dl_view b) Bid)" "dl_best_ask b = Value (spec_best (dl_view b) Ask)"
proof -
  note l = book_okD(2) [OF ok] and d = den_okD [OF book_okD(2) [OF ok]]
  have off: "den_offset (dl_levels b) (ladder_price base i) = Value i" if "i < width" for i
    using ladder_price_offset [OF d(1) that] by (simp add: den_offset_eq [OF l])
  have "last (occupied (den_bids (dl_levels b))) < width" if "occupied (den_bids (dl_levels b)) \<noteq> []"
    using last_in_set [OF that] d(3) by (simp add: occupied_less)
  then show "dl_best_bid b = Value (spec_best (dl_view b) Bid)"
    using off d(6) ladder_best_spec(1) [OF dl_sides(1) [OF ok] refl, symmetric]
    by (auto simp: dl_best_bid_def ladder_best_def ladder_top_def)
  have "hd (occupied (den_asks (dl_levels b))) < width" if "occupied (den_asks (dl_levels b)) \<noteq> []"
    using hd_in_set [OF that] d(4) by (simp add: occupied_less)
  then show "dl_best_ask b = Value (spec_best (dl_view b) Ask)"
    using off d(7) ladder_best_spec(2) [OF dl_sides(2) [OF ok] refl, symmetric]
    by (auto simp: dl_best_ask_def ladder_best_def ladder_bottom_def)
qed

lemma dl_digest:
  assumes ok: "dl_ok n base width b"
  shows "dl_state_digest b = Value (spec_digest (dl_view b))"
proof -
  note t = dl_okD [OF ok] and ids = slot_ids_map [OF table_okD(1) [OF dl_okD [OF ok]]]
  have "map (\<lambda>oid. (oid, sl_order (dl_slots b ! dl_find b oid))) (sort (slot_ids (dl_slots b))) =
      map (\<lambda>i. (i, the (dl_view b i))) (sort (slot_ids (dl_slots b)))"
    using ids(2) table_find(2) [OF t] by (intro map_cong) (auto simp: dl_find_def dl_view_def)
  then show ?thesis
    using table_live [OF t] spec_orders_sort [OF ids] den_okD(5) [OF book_okD(2) [OF ok]]
    by (simp add: dl_state_digest_def spec_digest_def dl_sides [OF ok] dl_view_def)
qed

interpretation dl: l3_book dl_apply dl_add_order dl_remove_order dl_reduce dl_upsert
  "Invalid_argument ''replace id''" dl_view "dl_ok n base width" n "in_ladder base width"
  dl_best_bid dl_best_ask dl_live dl_state_digest for n base width
proof unfold_locales
  fix b assume ok: "dl_ok n base width b"
  show "card (dom (dl_view b)) \<le> n"
    using table_okD(4) [OF dl_okD [OF ok]] by (simp add: dl_view_def)
  show "dl_live b = of_nat (card (dom (dl_view b)))"
    using table_live [OF dl_okD [OF ok]] by (simp add: dl_view_def)
qed (simp add: dl_apply_def dispatch_def eq_commute cong: if_cong,
     (rule dl_add_refines dl_remove_refines dl_reduce_refines dl_upsert_refines dl_digest dl_best_spec; assumption)+)

section \<open>Exceptions\<close>

lemma dl_add_safe:
  assumes ok: "dl_ok n base width b" and "dl_add_order b i s p q = Threw x b'"
  shows "b' = b"
  using assms(2) dli.add_threw_levels [OF ok, of q s p]
  by (cases "den_add_level (dl_levels b) s p q")
     (auto simp: dl_add_order_def dl_require_def dl_find_def dl_insert_slot_def dl_add_level_def dl_subtract_level_def Let_def split: if_splits)

lemma dl_slot:
  assumes "dl_ok n base width b" "dl_view b i = Some r"
  shows "find_slot (dl_slots b) i \<noteq> length (dl_slots b)" "sl_order (dl_slots b ! find_slot (dl_slots b) i) = r"
  using table_find [OF dl_okD [OF assms(1)], of i] table_okD(2) [OF dl_okD [OF assms(1)]] assms(2)
  by (simp_all add: dl_view_def)

lemma dl_remove_safe:
  assumes ok: "dl_ok n base width b" and threw: "dl_remove_order b i = Threw x b'"
  shows "b' = b"
proof (cases "dl_view b i")
  case None
  then have "find_slot (dl_slots b) i = length (dl_slots b)"
    using table_find(1) [OF dl_okD [OF ok], of i] table_okD(2) [OF dl_okD [OF ok]] by (simp add: dl_view_def)
  with threw show ?thesis by (simp add: dl_remove_order_def dl_require_def dl_find_def dl_insert_slot_def dl_add_level_def dl_subtract_level_def Let_def)
next
  case (Some r)
  from dli.sub_whole_returns [OF ok Some] threw dl_slot [OF ok Some] show ?thesis
    by (auto simp: dl_remove_order_def dl_require_def dl_find_def dl_insert_slot_def dl_add_level_def dl_subtract_level_def Let_def)
qed

lemma dl_reduce_safe:
  assumes ok: "dl_ok n base width b" and threw: "dl_reduce b i q full = Threw x b'"
  shows "b' = b"
proof (cases "dl_view b i")
  case None
  then have "find_slot (dl_slots b) i = length (dl_slots b)"
    using table_find(1) [OF dl_okD [OF ok], of i] table_okD(2) [OF dl_okD [OF ok]] by (simp add: dl_view_def)
  with threw show ?thesis by (simp add: dl_reduce_def dl_require_def dl_find_def dl_insert_slot_def dl_add_level_def dl_subtract_level_def Let_def)
next
  case (Some r)
  show ?thesis
  proof (cases "q = 0 \<or> q > ord_remaining_quantity r")
    case False
    then obtain l' where "den_subtract_level (dl_levels b) (ord_side r) (ord_price_ticks r) q = Done l'"
      using dli.sub_returns [OF ok Some, of q] by (auto simp: not_less)
    with threw dl_slot [OF ok Some] show ?thesis
      by (auto simp: dl_reduce_def dl_require_def dl_find_def dl_insert_slot_def dl_add_level_def dl_subtract_level_def Let_def split: if_splits)
  qed (use threw dl_slot [OF ok Some] in \<open>auto simp: dl_reduce_def dl_require_def dl_find_def dl_insert_slot_def dl_add_level_def dl_subtract_level_def Let_def\<close>)
qed

text \<open>
  Version 3: an add, cancel, execute or delete that throws leaves the well-formed book exactly as
  it was.
\<close>

theorem dense_ladder_order_book_throw_leaves_book:
  assumes "dl_ok n base width b" "single_order_event e" "dl_apply b e = Threw x b'"
  shows "b' = b"
  using assms dl_add_safe [OF assms(1)] dl_remove_safe [OF assms(1)] dl_reduce_safe [OF assms(1)]
  by (auto simp: single_order_event_def dl_apply_def split: event_type.splits)


text \<open>
  C6. Version 3 implements the specification on every event: where the specification (with the version's
  table size and price range) has a transition, \<open>apply\<close> returns a well-formed book that represents its result; where it
  has none, \<open>apply\<close> throws.
\<close>

theorem dense_ladder_order_book_refines_spec:
  assumes "dl_ok n base width b"
  shows "refines dl_view (dl_ok n base width) (dl_apply b e) (admitted n (in_ladder base width) (dl_view b) e)"
  using assms by (rule dl.apply_refines)

theorem dense_ladder_order_book_refines_spec_witness:
  "\<exists>b n. dl_new 4 1000 16 = Value b \<and>
     refines dl_view (dl_ok n 1000 16) (dl_apply b sample_add) (admitted n (in_ladder 1000 16) (dl_view b) sample_add)"
proof -
  obtain b n where b: "dl_new 4 1000 16 = Value b" "dl_ok n 1000 16 b"
    using dl_new_ok [of 4 16 1000] by auto
  from dense_ladder_order_book_refines_spec [OF b(2), of sample_add] b(1) show ?thesis by blast
qed

theorem dense_ladder_order_book_throw_leaves_book_witness:
  "\<exists>b x b'. dl_new 4 1000 16 = Value b \<and> dl_apply b sample_zero = Threw x b' \<and> b' = b"
proof -
  obtain b n where b: "dl_new 4 1000 16 = Value b" "dl_ok n 1000 16 b"
    using dl_new_ok [of 4 16 1000] by auto
  obtain x b' where t: "dl_apply b sample_zero = Threw x b'"
    by (simp add: dl_apply_def dl_add_order_def sample_zero_def sample_add_def)
  have "single_order_event sample_zero" by (simp add: single_order_event_def sample_zero_def sample_add_def)
  from dense_ladder_order_book_throw_leaves_book [OF b(2) this t] t b(1) show ?thesis by blast
qed

end
