(* ===== verification/Bitmap_Levels.thy ===== *)
theory Bitmap_Levels
  imports Ladder
begin

text \<open>
  The price levels of versions 4, 5 and 6, which have the same code in
  \<open>bitmap_ladder_order_book.cpp\<close>, \<open>bitmap_backshift_order_book.cpp\<close> and
  \<open>bitmap_packed_order_book.cpp\<close>: 256 ticks per side and four occupancy words per side; the best
  level is found from the leading or trailing zeros of the words.
\<close>

definition kPriceCount :: nat where
  "kPriceCount = 256"

definition kBitmapWords :: nat where
  "kBitmapWords = kPriceCount div 64"

record bitmap_levels =
  bm_bids :: "quantity list"
  bm_asks :: "quantity list"
  bm_bid_occupied :: "u64 list"
  bm_ask_occupied :: "u64 list"
  bm_minimum_price :: price

definition bm_new :: "price \<Rightarrow> bitmap_levels" where
  "bm_new minimum =
     \<lparr>bm_bids = replicate kPriceCount 0, bm_asks = replicate kPriceCount 0,
      bm_bid_occupied = replicate kBitmapWords 0, bm_ask_occupied = replicate kBitmapWords 0,
      bm_minimum_price = minimum\<rparr>"

section \<open>Operations\<close>

definition bm_offset :: "bitmap_levels \<Rightarrow> price \<Rightarrow> nat result" where
  "bm_offset l p =
     (if p < bm_minimum_price l \<or> unat (p - bm_minimum_price l) \<ge> kPriceCount
      then Raise (Invalid_argument ''price'')
      else Value (unat (p - bm_minimum_price l)))"

definition bm_ladder :: "bitmap_levels \<Rightarrow> side \<Rightarrow> quantity list" where
  "bm_ladder l s = (if s = Bid then bm_bids l else bm_asks l)"

definition bm_occupancy :: "bitmap_levels \<Rightarrow> side \<Rightarrow> u64 list" where
  "bm_occupancy l s = (if s = Bid then bm_bid_occupied l else bm_ask_occupied l)"

definition bm_set_ladder :: "bitmap_levels \<Rightarrow> side \<Rightarrow> quantity list \<Rightarrow> bitmap_levels" where
  "bm_set_ladder l s xs = (if s = Bid then l\<lparr>bm_bids := xs\<rparr> else l\<lparr>bm_asks := xs\<rparr>)"

definition bm_set_occupancy :: "bitmap_levels \<Rightarrow> side \<Rightarrow> u64 list \<Rightarrow> bitmap_levels" where
  "bm_set_occupancy l s ws = (if s = Bid then l\<lparr>bm_bid_occupied := ws\<rparr> else l\<lparr>bm_ask_occupied := ws\<rparr>)"

text \<open>\<open>std::countl_zero\<close> and \<open>std::countr_zero\<close> on 64 bits.\<close>

definition countl_zero :: "u64 \<Rightarrow> nat" where
  "countl_zero w = length (takeWhile (\<lambda>i. \<not> bit w (63 - i)) [0..<64])"

definition countr_zero :: "u64 \<Rightarrow> nat" where
  "countr_zero w = length (takeWhile (\<lambda>i. \<not> bit w i) [0..<64])"

text \<open>The two loops of \<open>best\<close> over the words; \<open>kPriceCount\<close> when no bit is set.\<close>

fun best_bid_index :: "u64 list \<Rightarrow> nat \<Rightarrow> nat" where
  "best_bid_index ws 0 = kPriceCount"
| "best_bid_index ws (Suc word) =
     (if ws ! word \<noteq> 0 then word * 64 + (63 - countl_zero (ws ! word)) else best_bid_index ws word)"

function best_ask_index :: "u64 list \<Rightarrow> nat \<Rightarrow> nat" where
  "best_ask_index ws word =
     (if word < kBitmapWords then
        if ws ! word \<noteq> 0 then word * 64 + countr_zero (ws ! word) else best_ask_index ws (word + 1)
      else kPriceCount)"
  by pat_completeness auto
termination
  by (relation "measure (\<lambda>(ws, word). kBitmapWords - word)") auto

declare best_ask_index.simps [simp del]

definition bm_best :: "bitmap_levels \<Rightarrow> side \<Rightarrow> level option" where
  "bm_best l s =
     (let index = (if s = Bid then best_bid_index (bm_occupancy l s) kBitmapWords
                   else best_ask_index (bm_occupancy l s) 0)
      in if index = kPriceCount then None
         else Some \<lparr>lvl_price_ticks = bm_minimum_price l + of_nat index, lvl_quantity = bm_ladder l s ! index\<rparr>)"

definition bm_add_level :: "bitmap_levels \<Rightarrow> side \<Rightarrow> price \<Rightarrow> quantity \<Rightarrow> bitmap_levels outcome" where
  "bm_add_level l s p q =
     with_value l (bm_offset l p) (\<lambda>i.
       let level = bm_ladder l s ! i
       in if uint64_max - level < q then Threw (Overflow_error ''overflow'') l
          else let ws = bm_occupancy l s;
                   l = (if level = 0
                        then bm_set_occupancy l s (ws[i div 64 := ws ! (i div 64) OR push_bit (i mod 64) 1])
                        else l)
               in Done (bm_set_ladder l s ((bm_ladder l s)[i := level + q])))"

definition bm_subtract_level :: "bitmap_levels \<Rightarrow> side \<Rightarrow> price \<Rightarrow> quantity \<Rightarrow> bitmap_levels outcome" where
  "bm_subtract_level l s p q =
     with_value l (bm_offset l p) (\<lambda>i.
       let level = bm_ladder l s ! i
       in if q = 0 \<or> q > level then Threw (Logic_error ''level'') l
          else let l = bm_set_ladder l s ((bm_ladder l s)[i := level - q]);
                   ws = bm_occupancy l s
               in if level - q = 0
                  then Done (bm_set_occupancy l s (ws[i div 64 := ws ! (i div 64) AND NOT (push_bit (i mod 64) 1)]))
                  else Done l)"

section \<open>The occupancy words\<close>

text \<open>Bit \<open>i\<close> of the four words.\<close>

definition occ_bit :: "u64 list \<Rightarrow> nat \<Rightarrow> bool" where
  "occ_bit ws i = bit (ws ! (i div 64)) (i mod 64)"

lemma occ_bit_set:
  assumes "i div 64 < length ws"
  shows "occ_bit (ws[i div 64 := ws ! (i div 64) OR push_bit (i mod 64) 1]) j \<longleftrightarrow> j = i \<or> occ_bit ws j"
proof -
  have "j div 64 = i div 64 \<and> j mod 64 = i mod 64 \<longleftrightarrow> j = i" by (metis div_mult_mod_eq)
  then show ?thesis
    using assms by (auto simp: occ_bit_def nth_list_update bit_simps)
qed

lemma occ_bit_clear:
  assumes "i div 64 < length ws"
  shows "occ_bit (ws[i div 64 := ws ! (i div 64) AND NOT (push_bit (i mod 64) 1)]) j \<longleftrightarrow> j \<noteq> i \<and> occ_bit ws j"
proof -
  have "j div 64 = i div 64 \<and> j mod 64 = i mod 64 \<longleftrightarrow> j = i" by (metis div_mult_mod_eq)
  then show ?thesis
    using assms by (auto simp: occ_bit_def nth_list_update bit_simps)
qed

text \<open>The zero counts are the distances to the highest and the lowest set bit.\<close>

lemma word_nonzero_bit: "w \<noteq> 0 \<longleftrightarrow> (\<exists>i < 64. bit (w :: u64) i)"
  by (auto simp: bit_eq_iff bit_imp_le_length)

lemma upt_split: "k < n \<Longrightarrow> [0..<n] = [0..<k] @ k # [Suc k..<n]"
  using upt_add_eq_append [of 0 k "n - k"] upt_conv_Cons [of k n] by simp

lemma filter_last:
  assumes "P k" "k < n" "\<And>j. k < j \<Longrightarrow> j < n \<Longrightarrow> \<not> P j"
  shows "filter P [0..<n] \<noteq> []" "last (filter P [0..<n]) = k"
proof -
  have "[0..<n] = [0..<k] @ k # [Suc k..<n]" using assms(2) by (rule upt_split)
  moreover have "filter P [Suc k..<n] = []" using assms(3) by (simp add: filter_empty_conv)
  ultimately have "filter P [0..<n] = filter P [0..<k] @ [k]" using assms(1) by simp
  then show "filter P [0..<n] \<noteq> []" "last (filter P [0..<n]) = k" by simp_all
qed

lemma filter_hd:
  assumes "P k" "k < n" "\<And>j. j < k \<Longrightarrow> \<not> P j"
  shows "filter P [0..<n] \<noteq> []" "hd (filter P [0..<n]) = k"
proof -
  have "[0..<n] = [0..<k] @ k # [Suc k..<n]" using assms(2) by (rule upt_split)
  moreover have "filter P [0..<k] = []" using assms(3) by (simp add: filter_empty_conv)
  ultimately have "filter P [0..<n] = k # filter P [Suc k..<n]" using assms(1) by simp
  then show "filter P [0..<n] \<noteq> []" "hd (filter P [0..<n]) = k" by simp_all
qed

lemma takeWhile_upt:
  assumes "\<exists>i < n. \<not> P i"
  shows "length (takeWhile P [0..<n]) < n" "\<not> P (length (takeWhile P [0..<n]))"
    and "\<And>j. j < length (takeWhile P [0..<n]) \<Longrightarrow> P j"
proof -
  let ?k = "length (takeWhile P [0..<n])"
  show lt: "?k < n"
  proof (rule ccontr)
    assume "\<not> ?k < n"
    then have "?k = length [0..<n]" using length_takeWhile_le [of P "[0..<n]"] by simp
    then have "takeWhile P [0..<n] = [0..<n]" by (metis takeWhile_eq_take take_all order_refl)
    then show False using assms set_takeWhileD [of _ P "[0..<n]"] by (metis atLeast_upt lessThan_iff)
  qed
  show "\<not> P ?k" using nth_length_takeWhile [of P "[0..<n]"] lt by simp
  show "P j" if "j < ?k" for j
    using that lt takeWhile_nth [OF that] nth_mem [OF that] set_takeWhileD by fastforce
qed

lemma countl_zero_highest:
  assumes "w \<noteq> 0"
  shows "bit w (63 - countl_zero w)" "\<And>j. 63 - countl_zero w < j \<Longrightarrow> \<not> bit w j"
proof -
  have ex: "\<exists>i < 64. \<not> \<not> bit w (63 - i)"
  proof -
    from assms obtain i where i: "i < 64" "bit w i" by (auto simp: word_nonzero_bit)
    then have "63 - i < 64 \<and> bit w (63 - (63 - i))" by simp
    then show ?thesis by blast
  qed
  note k = takeWhile_upt [OF ex, folded countl_zero_def]
  show "bit w (63 - countl_zero w)" using k(2) by simp
  show "\<not> bit w j" if "63 - countl_zero w < j" for j
    using k(3) [of "63 - j"] that bit_imp_le_length [of w j] by (cases "j < 64") auto
qed

lemma countr_zero_lowest:
  assumes "w \<noteq> 0"
  shows "countr_zero w < 64" "bit w (countr_zero w)" "\<And>j. j < countr_zero w \<Longrightarrow> \<not> bit w j"
proof -
  have ex: "\<exists>i < 64. \<not> \<not> bit w i" using assms by (auto simp: word_nonzero_bit)
  note k = takeWhile_upt [OF ex, folded countr_zero_def]
  show "countr_zero w < 64" "bit w (countr_zero w)" "\<And>j. j < countr_zero w \<Longrightarrow> \<not> bit w j" using k by simp_all
qed

lemma occ_bit_word: "k < 64 \<Longrightarrow> occ_bit ws (word * 64 + k) = bit (ws ! word) k"
  by (simp add: occ_bit_def)

lemma occ_bit_zero: "ws ! word = 0 \<Longrightarrow> word * 64 \<le> j \<Longrightarrow> j < Suc word * 64 \<Longrightarrow> \<not> occ_bit ws j"
  using occ_bit_word [of "j - word * 64" ws word] by simp

lemma best_bid_index_last:
  "best_bid_index ws n =
     (let is = filter (occ_bit ws) [0..<n * 64] in if is = [] then kPriceCount else last is)"
proof (induction n)
  case (Suc n)
  show ?case
  proof (cases "ws ! n = 0")
    case True
    have "[0..<Suc n * 64] = [0..<n * 64] @ [n * 64..<Suc n * 64]"
      using upt_add_eq_append [of 0 "n * 64" 64] by (simp add: add.commute)
    moreover have "filter (occ_bit ws) [n * 64..<Suc n * 64] = []"
      using occ_bit_zero [OF True] by (simp add: filter_empty_conv)
    ultimately show ?thesis using Suc True by simp
  next
    case False
    note h = countl_zero_highest [OF False]
    let ?k = "n * 64 + (63 - countl_zero (ws ! n))"
    have "occ_bit ws ?k" using h(1) by (simp add: occ_bit_word)
    moreover have "\<not> occ_bit ws j" if "?k < j" "j < Suc n * 64" for j
      using h(2) [of "j - n * 64"] occ_bit_word [of "j - n * 64" ws n] that by simp
    ultimately show ?thesis
      using filter_last [of "occ_bit ws" ?k "Suc n * 64"] False by (simp add: Let_def)
  qed
qed simp

lemma best_ask_index_hd:
  "word \<le> kBitmapWords \<Longrightarrow> (\<And>j. j < word * 64 \<Longrightarrow> \<not> occ_bit ws j) \<Longrightarrow>
     best_ask_index ws word =
       (let is = filter (occ_bit ws) [0..<kBitmapWords * 64] in if is = [] then kPriceCount else hd is)"
proof (induction ws word rule: best_ask_index.induct)
  case (1 ws word)
  show ?case
  proof (cases "word < kBitmapWords")
    case False
    with 1(2,3) show ?thesis by (simp add: best_ask_index.simps [of ws kBitmapWords] Let_def filter_empty_conv)
  next
    case lt: True
    show ?thesis
    proof (cases "ws ! word = 0")
      case True
      have "\<not> occ_bit ws j" if "j < (word + 1) * 64" for j
        using 1(3) [of j] occ_bit_zero [OF True, of j] that by (cases "j < word * 64") auto
      with 1(1) lt True show ?thesis by (simp add: best_ask_index.simps [of ws word])
    next
      case False
      note h = countr_zero_lowest [OF False]
      let ?k = "word * 64 + countr_zero (ws ! word)"
      have "occ_bit ws ?k" using h by (simp add: occ_bit_word)
      moreover have "\<not> occ_bit ws j" if "j < ?k" for j
        using h(1) h(3) [of "j - word * 64"] occ_bit_word [of "j - word * 64" ws word] that 1(3) [of j]
        by (cases "j < word * 64") auto
      moreover have "?k < kBitmapWords * 64"
      proof -
        have "Suc word * 64 \<le> kBitmapWords * 64" using lt by (intro mult_le_mono1) simp
        then show ?thesis using h(1) by simp
      qed
      ultimately show ?thesis
        using filter_hd [of "occ_bit ws" ?k "kBitmapWords * 64"] False lt
        by (simp add: best_ask_index.simps [of ws word] Let_def)
    qed
  qed
qed

section \<open>The bitmap ladder is a level store\<close>

definition bm_lvl :: "bitmap_levels \<Rightarrow> side \<Rightarrow> price \<Rightarrow> quantity" where
  "bm_lvl l s p = ladder_at (bm_minimum_price l) (bm_ladder l s) p"

definition bm_ok :: "price \<Rightarrow> bitmap_levels \<Rightarrow> bool" where
  "bm_ok base l \<longleftrightarrow>
     ladder_fits base kPriceCount \<and> bm_minimum_price l = base \<and>
     (\<forall>s. length (bm_ladder l s) = kPriceCount \<and> length (bm_occupancy l s) = kBitmapWords \<and>
        (\<forall>i < kPriceCount. occ_bit (bm_occupancy l s) i \<longleftrightarrow> bm_ladder l s ! i \<noteq> 0))"

lemma bm_okD:
  assumes "bm_ok base l"
  shows "ladder_fits base kPriceCount" "bm_minimum_price l = base" "length (bm_ladder l s) = kPriceCount"
    and "length (bm_occupancy l s) = kBitmapWords"
    and "i < kPriceCount \<Longrightarrow> occ_bit (bm_occupancy l s) i \<longleftrightarrow> bm_ladder l s ! i \<noteq> 0"
  using assms by (simp_all add: bm_ok_def)

lemma bm_selectors [simp]:
  "bm_ladder (bm_set_ladder l s xs) s' = (if s' = s then xs else bm_ladder l s')"
  "bm_occupancy (bm_set_ladder l s xs) s' = bm_occupancy l s'"
  "bm_minimum_price (bm_set_ladder l s xs) = bm_minimum_price l"
  "bm_ladder (bm_set_occupancy l s ws) s' = bm_ladder l s'"
  "bm_occupancy (bm_set_occupancy l s ws) s' = (if s' = s then ws else bm_occupancy l s')"
  "bm_minimum_price (bm_set_occupancy l s ws) = bm_minimum_price l"
  by (cases s; cases s'; simp add: bm_ladder_def bm_occupancy_def bm_set_ladder_def bm_set_occupancy_def)+

lemma bm_new_ok: "ladder_fits base kPriceCount \<Longrightarrow> bm_ok base (bm_new base)" "bm_lvl (bm_new base) = (\<lambda>_ _. 0)"
  by (auto simp: bm_ok_def bm_new_def bm_ladder_def bm_occupancy_def occ_bit_def bm_lvl_def ladder_at_def
      in_ladder_def kBitmapWords_def kPriceCount_def fun_eq_iff)

lemma bm_offset_eq:
  "bm_ok base l \<Longrightarrow> bm_offset l p =
     (if in_ladder base kPriceCount p then Value (unat (p - base)) else Raise (Invalid_argument ''price''))"
  using bm_okD(2) [of base l] by (auto simp: bm_offset_def in_ladder_def)

lemma bm_level_at: "bm_ok base l \<Longrightarrow> in_ladder base kPriceCount p \<Longrightarrow> bm_ladder l s ! unat (p - base) = bm_lvl l s p"
  using bm_okD [of base l] by (simp add: bm_lvl_def ladder_at_def)

text \<open>A quantity written together with its occupancy bit.\<close>

lemma bm_write_ok:
  assumes l: "bm_ok base l" and p: "in_ladder base kPriceCount p"
    and lad: "\<And>s'. bm_ladder l' s' = (if s' = s then (bm_ladder l s)[unat (p - base) := v] else bm_ladder l s')"
    and occ: "\<And>s'. length (bm_occupancy l' s') = length (bm_occupancy l s')"
      "\<And>s' j. occ_bit (bm_occupancy l' s') j \<longleftrightarrow>
        (if s' = s \<and> j = unat (p - base) then v \<noteq> 0 else occ_bit (bm_occupancy l s') j)"
    and min: "bm_minimum_price l' = bm_minimum_price l"
  shows "bm_ok base l' \<and> bm_lvl l' = upd_lvl (bm_lvl l) s p v"
proof
  note d = bm_okD [OF l] and i = in_ladderD [OF p]
  show "bm_ok base l'"
    using d i by (auto simp: bm_ok_def lad occ min nth_list_update)
  show "bm_lvl l' = upd_lvl (bm_lvl l) s p v"
    using ladder_at_update [of base "bm_ladder l s" p v] d p
    by (simp add: fun_eq_iff bm_lvl_def lad min)
qed

lemma word_index: "i < kPriceCount \<Longrightarrow> i div 64 < kBitmapWords"
  by (simp add: kPriceCount_def kBitmapWords_def)

lemma bm_add_done:
  assumes l: "bm_ok base l" and q: "q \<noteq> 0" and p: "in_ladder base kPriceCount p"
    and fit: "unat (bm_lvl l s p) + unat q < 2 ^ 64"
  shows "\<exists>l'. bm_add_level l s p q = Done l' \<and> bm_ok base l' \<and>
     bm_lvl l' = upd_lvl (bm_lvl l) s p (bm_lvl l s p + q)"
proof -
  note d = bm_okD [OF l] and i = in_ladderD [OF p] and at = bm_level_at [OF l p]
  have nz: "bm_lvl l s p + q \<noteq> 0"
    using unat_plus_u64 [OF fit] q by (metis add_is_0 unat_0 unat_zero_iff)
  have ng: "\<not> uint64_max - bm_lvl l s p < q" using fit by (simp add: overflow_guard)
  let ?i = "unat (p - base)" and ?ws = "bm_occupancy l s"
  let ?l1 = "if bm_lvl l s p = 0 then bm_set_occupancy l s (?ws[?i div 64 := ?ws ! (?i div 64) OR push_bit (?i mod 64) 1]) else l"
  let ?l' = "bm_set_ladder ?l1 s ((bm_ladder ?l1 s)[?i := bm_lvl l s p + q])"
  have "bm_add_level l s p q = Done ?l'"
    using p ng at [of s] by (simp add: bm_add_level_def bm_offset_eq [OF l] Let_def)
  moreover have "bm_ok base ?l' \<and> bm_lvl ?l' = upd_lvl (bm_lvl l) s p (bm_lvl l s p + q)"
    using nz d(5) [of ?i s] at [of s] i word_index [OF i(1)] d(4) [of s] q
    by (intro bm_write_ok [OF l p]) (auto simp: occ_bit_set [unfolded push_bit_of_1])
  ultimately show ?thesis by blast
qed

lemma bm_add_refused:
  assumes l: "bm_ok base l" and "\<not> (in_ladder base kPriceCount p \<and> unat (bm_lvl l s p) + unat q < 2 ^ 64)"
  shows "\<exists>x. bm_add_level l s p q = Threw x l"
  using assms(2) bm_level_at [OF l, of p s]
  by (auto simp: bm_add_level_def bm_offset_eq [OF l] overflow_guard Let_def)

lemma bm_sub_done:
  assumes l: "bm_ok base l" and q: "q \<noteq> 0" and le: "q \<le> bm_lvl l s p"
  shows "\<exists>l'. bm_subtract_level l s p q = Done l' \<and> bm_ok base l' \<and>
     bm_lvl l' = upd_lvl (bm_lvl l) s p (bm_lvl l s p - q)"
proof -
  note d = bm_okD [OF l]
  have p: "in_ladder base kPriceCount p"
    using q le d by (auto simp: bm_lvl_def ladder_at_def split: if_splits)
  note i = in_ladderD [OF p] and at = bm_level_at [OF l p, of s]
  have nz: "bm_lvl l s p \<noteq> 0" using q le by auto
  let ?i = "unat (p - base)" and ?ws = "bm_occupancy l s"
  let ?l1 = "bm_set_ladder l s ((bm_ladder l s)[?i := bm_lvl l s p - q])"
  let ?l' = "if bm_lvl l s p - q = 0
    then bm_set_occupancy ?l1 s (?ws[?i div 64 := ?ws ! (?i div 64) AND NOT (push_bit (?i mod 64) 1)]) else ?l1"
  have "bm_subtract_level l s p q = Done ?l'"
    using p le q at by (auto simp: bm_subtract_level_def bm_offset_eq [OF l] Let_def)
  moreover have "bm_ok base ?l' \<and> bm_lvl ?l' = upd_lvl (bm_lvl l) s p (bm_lvl l s p - q)"
    using nz d(5) [of ?i s] at i word_index [OF i(1)] d(4) [of s]
    by (intro bm_write_ok [OF l p]) (auto simp: occ_bit_clear [unfolded push_bit_of_1])
  ultimately show ?thesis by blast
qed

lemma bm_out_of_ladder:
  assumes "bm_ok base l" "\<not> in_ladder base kPriceCount p"
  shows "bm_add_level l s p q = Threw (Invalid_argument ''price'') l"
    and "bm_subtract_level l s p q = Threw (Invalid_argument ''price'') l"
  using assms by (simp_all add: bm_add_level_def bm_subtract_level_def bm_offset_eq)

interpretation bm: level_store bm_add_level bm_subtract_level bm_lvl "bm_ok base" "in_ladder base kPriceCount" for base
  by unfold_locales (blast intro: bm_add_done bm_add_refused bm_sub_done)+

section \<open>The best levels\<close>

lemma bm_occupied:
  assumes "bm_ok base l"
  shows "filter (occ_bit (bm_occupancy l s)) [0..<kBitmapWords * 64] = occupied (bm_ladder l s)"
proof -
  have "kBitmapWords * 64 = kPriceCount" by (simp add: kBitmapWords_def kPriceCount_def)
  then show ?thesis using bm_okD [OF assms] by (auto simp: occupied_def intro: filter_cong)
qed

lemma bm_best_ladder:
  assumes "bm_ok base l"
  shows "bm_best l Bid = ladder_best base (bm_ladder l Bid) last" "bm_best l Ask = ladder_best base (bm_ladder l Ask) hd"
proof -
  have le: "i < kPriceCount" if "i \<in> set (occupied (bm_ladder l s))" for i s
    using that bm_okD(3) [OF assms] by (simp add: occupied_less)
  show "bm_best l Bid = ladder_best base (bm_ladder l Bid) last"
    using le [OF last_in_set, of Bid] bm_okD(2) [OF assms]
    by (cases "occupied (bm_ladder l Bid) = []") (auto simp: bm_best_def best_bid_index_last bm_occupied [OF assms] ladder_best_def ladder_price_def Let_def)
  show "bm_best l Ask = ladder_best base (bm_ladder l Ask) hd"
    using le [OF hd_in_set, of Ask] bm_okD(2) [OF assms]
    by (cases "occupied (bm_ladder l Ask) = []") (auto simp: bm_best_def best_ask_index_hd bm_occupied [OF assms] ladder_best_def ladder_price_def Let_def)
qed

lemma bm_best_spec:
  assumes l: "bm_ok base l" and match: "levels_match (bm_lvl l) m"
  shows "bm_best l s = spec_best m s" "ladder_list base (bm_ladder l s) = spec_levels m s"
proof -
  show "ladder_list base (bm_ladder l s) = spec_levels m s" for s
    using bm_okD [OF l] levels_matchD [OF match, of s] by (intro ladder_list_spec) (simp_all add: bm_lvl_def)
  from ladder_best_spec [OF this] show "bm_best l s = spec_best m s"
    by (cases s) (simp_all add: bm_best_ladder [OF l])
qed


text \<open>The range of prices does not move, and an addition that returned had a price in it.\<close>

lemma bm_offset_minimum: "bm_minimum_price l' = bm_minimum_price l \<Longrightarrow> bm_offset l' p = bm_offset l p"
  by (simp add: bm_offset_def)

lemma bm_subtract_minimum: "bm_subtract_level l s p q = Done l' \<Longrightarrow> bm_minimum_price l' = bm_minimum_price l"
  by (cases "bm_offset l p") (auto simp: bm_subtract_level_def Let_def split: if_splits)

lemma bm_add_minimum: "bm_add_level l s p q = Done l' \<Longrightarrow> bm_minimum_price l' = bm_minimum_price l"
  by (cases "bm_offset l p") (auto simp: bm_add_level_def Let_def split: if_splits)

lemma bm_add_offset:
  assumes "bm_add_level l s p q = Done l'"
  shows "bm_offset l p = Value (unat (p - bm_minimum_price l))" "in_ladder (bm_minimum_price l) kPriceCount p"
  using assms by (auto simp: bm_add_level_def bm_offset_def in_ladder_def split: if_splits)

lemmas bm_minimum_simps = bm_add_minimum bm_subtract_minimum bm_add_offset

lemma bm_offset_threw: "(\<And>i. \<exists>x b'. f i = Threw x b') \<Longrightarrow> \<exists>x b'. with_value b (bm_offset l p) f = Threw x b'"
  by (simp add: bm_offset_def)

text \<open>
  The best level found from the leading and trailing zeros of the occupancy words is the last
  (bids) or the first (asks) occupied tick of the ladder, and there is none exactly when the ladder is
  empty.
\<close>

theorem bitmap_best_is_ladder_end:
  assumes "bm_ok base l"
  shows "bm_best l Bid = ladder_best base (bm_bids l) last \<and> bm_best l Ask = ladder_best base (bm_asks l) hd"
  using bm_best_ladder [OF assms] by (simp_all add: bm_ladder_def)

theorem bitmap_best_is_ladder_end_witness:
  "bm_best (bm_new 1000) Bid = ladder_best 1000 (bm_bids (bm_new 1000)) last \<and>
   bm_best (bm_new 1000) Ask = ladder_best 1000 (bm_asks (bm_new 1000)) hd"
proof -
  have "bm_ok 1000 (bm_new 1000)" by (rule bm_new_ok) (simp add: ladder_fits_def kPriceCount_def)
  from bitmap_best_is_ladder_end [OF this] show ?thesis by simp
qed

end
