(* ===== verification/Packed_Order.thy ===== *)
theory Packed_Order
  imports Bitmap_Levels
begin

text \<open>
  The 16-byte order of versions 4 and 6 (\<open>bitmap_ladder_order_book.hpp\<close>,
  \<open>bitmap_packed_order_book.hpp\<close>): the offset in the ladder and the side in one word, the side in
  its top bit.
\<close>

record packed_order =
  po_side_and_offset :: u64
  po_quantity :: quantity

definition kAskBit :: u64 where
  "kAskBit = push_bit 63 1"

definition po_make :: "side \<Rightarrow> nat \<Rightarrow> quantity \<Rightarrow> packed_order" where
  "po_make s offset q =
     \<lparr>po_side_and_offset = of_nat offset OR (if s = Ask then kAskBit else 0), po_quantity = q\<rparr>"

definition po_side :: "packed_order \<Rightarrow> side" where
  "po_side r = (if po_side_and_offset r AND kAskBit \<noteq> 0 then Ask else Bid)"

definition po_offset :: "packed_order \<Rightarrow> nat" where
  "po_offset r = unat (po_side_and_offset r AND NOT kAskBit)"

definition no_packed_order :: packed_order where
  "no_packed_order = \<lparr>po_side_and_offset = 0, po_quantity = 0\<rparr>"

text \<open>The order a packed one stands for in a ladder from \<open>base\<close>.\<close>

definition unpack :: "price \<Rightarrow> packed_order \<Rightarrow> order" where
  "unpack base r =
     \<lparr>ord_side = po_side r, ord_price_ticks = base + of_nat (po_offset r), ord_remaining_quantity = po_quantity r\<rparr>"

lemma unpack_simps [simp]:
  "ord_side (unpack base r) = po_side r" "ord_price_ticks (unpack base r) = base + of_nat (po_offset r)"
  "ord_remaining_quantity (unpack base r) = po_quantity r"
  "unpack base (r\<lparr>po_quantity := q\<rparr>) = (unpack base r)\<lparr>ord_remaining_quantity := q\<rparr>"
  by (simp_all add: unpack_def po_side_def po_offset_def)

lemma kAskBit_bit: "bit kAskBit i \<longleftrightarrow> i = 63"
  unfolding kAskBit_def bit_push_bit_iff by auto

text \<open>Packing and unpacking are inverse for every offset below \<open>2\<^sup>6\<^sup>3\<close>.\<close>

lemma po_make_roundtrip:
  assumes "offset < 2 ^ 63"
  shows "po_side (po_make s offset q) = s" "po_offset (po_make s offset q) = offset"
    and "po_quantity (po_make s offset q) = q"
proof -
  let ?w = "of_nat offset :: u64"
  have u: "unat ?w = offset" using assms by (intro unat_of_nat_u64) simp
  have low: "\<not> bit ?w 63"
  proof -
    have "\<not> bit offset 63" using assms by (simp add: bit_iff_odd)
    then show ?thesis by (simp only: bit_of_nat_iff not_False_eq_True simp_thms)
  qed
  have "?w AND kAskBit = 0"
    by (rule bit_eqI) (use low in \<open>auto simp: bit_and_iff kAskBit_bit\<close>)
  moreover have "kAskBit \<noteq> 0" by (simp add: kAskBit_def)
  ultimately show "po_side (po_make s offset q) = s"
    by (cases s) (simp_all add: po_side_def po_make_def bit.conj_disj_distrib2)
  have "(?w OR (if s = Ask then kAskBit else 0)) AND NOT kAskBit = ?w"
    by (rule bit_eqI) (use low in \<open>auto simp: bit_simps kAskBit_bit\<close>)
  then show "po_offset (po_make s offset q) = offset" by (simp add: po_offset_def po_make_def u)
qed (simp add: po_make_def)

lemma unpack_make:
  assumes "in_ladder base kPriceCount p"
  shows "unpack base (po_make s (unat (p - base)) q) =
     \<lparr>ord_side = s, ord_price_ticks = p, ord_remaining_quantity = q\<rparr>"
proof -
  have "unat (p - base) < 2 ^ 63" using in_ladderD(1) [OF assms] by (simp add: kPriceCount_def)
  from po_make_roundtrip [OF this] show ?thesis
    using in_ladderD(2) [OF assms] by (simp add: unpack_def ladder_price_def)
qed

text \<open>A table of packed orders read as an order map.\<close>

definition unpack_map :: "price \<Rightarrow> (order_id \<rightharpoonup> packed_order) \<Rightarrow> orders" where
  "unpack_map base m = (\<lambda>i. map_option (unpack base) (m i))"

lemma unpack_map_simps [simp]:
  "unpack_map base Map.empty = Map.empty"
  "unpack_map base (m(i \<mapsto> r)) = (unpack_map base m)(i \<mapsto> unpack base r)"
  "unpack_map base (m(i := None)) = (unpack_map base m)(i := None)"
  "dom (unpack_map base m) = dom m"
  "unpack_map base m i = None \<longleftrightarrow> m i = None"
  by (auto simp: unpack_map_def fun_eq_iff dom_def)

lemma unpack_map_Some: "unpack_map base m i = Some r \<longleftrightarrow> (\<exists>r'. m i = Some r' \<and> r = unpack base r')"
  by (auto simp: unpack_map_def)

text \<open>
  The packed order of versions 4 and 6 is lossless: for every offset below \<open>2\<^sup>6\<^sup>3\<close> the side,
  the offset and the quantity read back as they were packed.
\<close>

theorem packed_order_roundtrip:
  assumes "offset < 2 ^ 63"
  shows "po_side (po_make s offset q) = s \<and> po_offset (po_make s offset q) = offset \<and> po_quantity (po_make s offset q) = q"
  using po_make_roundtrip [OF assms] by simp

theorem packed_order_roundtrip_witness:
  "po_side (po_make Ask 255 7) = Ask \<and> po_offset (po_make Ask 255 7) = 255 \<and> po_quantity (po_make Ask 255 7) = 7"
  using packed_order_roundtrip [of 255 Ask 7] by simp

end
