(* ===== verification/Bitmap_Ladder_Order_Book.thy ===== *)
theory Bitmap_Ladder_Order_Book
  imports Packed_Order Tombstone_Index Table_Capacity
begin

text \<open>
  Version 4, \<open>llab::bitmap_ladder_order_book::OrderBook\<close>
  (\<open>cpp/include/llab/bitmap_ladder_order_book.hpp\<close>, \<open>cpp/src/bitmap_ladder_order_book.cpp\<close>):
  packed orders in a tombstone index over the bitmap ladder.
\<close>

section \<open>State\<close>

record bitmap_book =
  bl_slots :: "packed_order slot list"
  bl_levels :: bitmap_levels
  bl_live :: u64

definition bl_new :: "u64 \<Rightarrow> price \<Rightarrow> u64 \<Rightarrow> bitmap_book result" where
  "bl_new maximum minimum price_count =
     (case ladder_capacity maximum of
        Value n \<Rightarrow>
          if unat price_count \<noteq> kPriceCount \<or> minimum > uint64_max - (of_nat kPriceCount - 1)
          then Raise (Invalid_argument ''v4 requires 256 valid prices'')
          else Value \<lparr>bl_slots = empty_slots n no_packed_order, bl_levels = bm_new minimum, bl_live = 0\<rparr>
      | Raise x \<Rightarrow> Raise x
      | Loops \<Rightarrow> Loops)"

section \<open>Order operations\<close>

definition bl_find :: "bitmap_book \<Rightarrow> order_id \<Rightarrow> nat" where
  "bl_find b oid = find_slot (bl_slots b) oid"

definition bl_insertion :: "bitmap_book \<Rightarrow> order_id \<Rightarrow> nat" where
  "bl_insertion b oid = insertion_slot (bl_slots b) oid"

definition bl_add_level :: "bitmap_book \<Rightarrow> side \<Rightarrow> price \<Rightarrow> quantity \<Rightarrow> bitmap_book outcome" where
  "bl_add_level b s p q = within (\<lambda>l. b\<lparr>bl_levels := l\<rparr>) (bm_add_level (bl_levels b) s p q)"

definition bl_subtract_level :: "bitmap_book \<Rightarrow> side \<Rightarrow> price \<Rightarrow> quantity \<Rightarrow> bitmap_book outcome" where
  "bl_subtract_level b s p q = within (\<lambda>l. b\<lparr>bl_levels := l\<rparr>) (bm_subtract_level (bl_levels b) s p q)"

text \<open>\<open>minimum_price_ + order.offset()\<close>.\<close>

definition bl_price_of :: "bitmap_book \<Rightarrow> packed_order \<Rightarrow> price" where
  "bl_price_of b r = bm_minimum_price (bl_levels b) + of_nat (po_offset r)"

definition bl_add :: "bitmap_book \<Rightarrow> order_id \<Rightarrow> side \<Rightarrow> price \<Rightarrow> quantity \<Rightarrow> bitmap_book outcome" where
  "bl_add b oid s p q =
     (if oid = 0 \<or> q = 0 then Threw (Invalid_argument ''add'') b
      else with_value b (bm_offset (bl_levels b) p) (\<lambda>price_offset.
        let i = bl_insertion b oid
        in if i = length (bl_slots b) then Threw (Invalid_argument ''index'') b
           else seq (bl_add_level b s p q)
                  (\<lambda>b. Done (b\<lparr>bl_slots := occupy (bl_slots b) i oid (po_make s price_offset q),
                               bl_live := bl_live b + 1\<rparr>))))"

definition bl_remove :: "bitmap_book \<Rightarrow> order_id \<Rightarrow> bitmap_book outcome" where
  "bl_remove b oid =
     (let i = bl_find b oid
      in if i = length (bl_slots b) then Threw (Invalid_argument ''id'') b
         else let r = sl_order (bl_slots b ! i)
              in seq (bl_subtract_level b (po_side r) (bl_price_of b r) (po_quantity r))
                   (\<lambda>b. Done (b\<lparr>bl_slots := bury (bl_slots b) i, bl_live := bl_live b - 1\<rparr>)))"

definition bl_reduce :: "bitmap_book \<Rightarrow> order_id \<Rightarrow> quantity \<Rightarrow> bool \<Rightarrow> bitmap_book outcome" where
  "bl_reduce b oid q full =
     (let i = bl_find b oid
      in if i = length (bl_slots b) then Threw (Invalid_argument ''id'') b
         else let r = sl_order (bl_slots b ! i)
              in if q = 0 \<or> q > po_quantity r \<or> (\<not> full \<and> q = po_quantity r)
                 then Threw (Invalid_argument ''reduce'') b
                 else seq (bl_subtract_level b (po_side r) (bl_price_of b r) q)
                        (\<lambda>b. if q = po_quantity r
                             then Done (b\<lparr>bl_slots := bury (bl_slots b) i, bl_live := bl_live b - 1\<rparr>)
                             else Done (b\<lparr>bl_slots := set_order (bl_slots b) i
                                            (r\<lparr>po_quantity := po_quantity r - q\<rparr>)\<rparr>)))"

definition bl_upsert :: "bitmap_book \<Rightarrow> order_id \<Rightarrow> side \<Rightarrow> price \<Rightarrow> quantity \<Rightarrow> bitmap_book outcome" where
  "bl_upsert b oid s p q =
     (if oid = 0 \<or> q = 0 then Threw (Invalid_argument ''upsert'') b
      else let i = bl_find b oid
        in if i = length (bl_slots b) then bl_add b oid s p q
           else let r = sl_order (bl_slots b ! i)
             in with_value b (bm_offset (bl_levels b) p) (\<lambda>price_offset.
                  seq (bl_subtract_level b (po_side r) (bl_price_of b r) (po_quantity r))
                    (\<lambda>b. seq (bl_add_level b s p q)
                      (\<lambda>b. Done (b\<lparr>bl_slots := set_order (bl_slots b) i (po_make s price_offset q)\<rparr>)))))"

definition bl_apply :: "bitmap_book \<Rightarrow> event \<Rightarrow> bitmap_book outcome" where
  "bl_apply b e =
     (case ev_type e of
        Add \<Rightarrow> bl_add b (ev_order_id e) (ev_side e) (ev_price_ticks e) (ev_quantity e)
      | Cancel \<Rightarrow> bl_reduce b (ev_order_id e) (ev_quantity e) False
      | Execute \<Rightarrow> bl_reduce b (ev_order_id e) (ev_quantity e) True
      | Delete \<Rightarrow> bl_remove b (ev_order_id e)
      | OrderDelete \<Rightarrow> bl_remove b (ev_order_id e)
      | Replace \<Rightarrow>
          if ev_order_id e = ev_replacement_order_id e then Threw (Invalid_argument ''replace id'') b
          else seq (bl_remove b (ev_order_id e))
                 (\<lambda>b. bl_add b (ev_replacement_order_id e) (ev_side e) (ev_price_ticks e) (ev_quantity e))
      | OrderUpsert \<Rightarrow> bl_upsert b (ev_order_id e) (ev_side e) (ev_price_ticks e) (ev_quantity e))"

section \<open>Observers\<close>

definition bl_best_bid :: "bitmap_book \<Rightarrow> level option" where
  "bl_best_bid b = bm_best (bl_levels b) Bid"

definition bl_best_ask :: "bitmap_book \<Rightarrow> level option" where
  "bl_best_ask b = bm_best (bl_levels b) Ask"

definition bl_order_index_capacity :: "bitmap_book \<Rightarrow> nat" where
  "bl_order_index_capacity b = length (bl_slots b)"

definition bl_state_digest :: "bitmap_book \<Rightarrow> u64" where
  "bl_state_digest b =
     digest (bl_live b)
       (ladder_list (bm_minimum_price (bl_levels b)) (bm_bids (bl_levels b)))
       (ladder_list (bm_minimum_price (bl_levels b)) (bm_asks (bl_levels b)))
       (map (\<lambda>oid. (oid, unpack (bm_minimum_price (bl_levels b)) (sl_order (bl_slots b ! bl_find b oid))))
          (sort (slot_ids (bl_slots b))))"

section \<open>The book refines the specification\<close>

definition bl_view :: "bitmap_book \<Rightarrow> orders" where
  "bl_view b = unpack_map (bm_minimum_price (bl_levels b)) (slots_map (bl_slots b))"

definition bl_index_ok :: "nat \<Rightarrow> bitmap_book \<Rightarrow> bool" where
  "bl_index_ok n b = table_ok n (bl_slots b) (bl_live b)"

abbreviation bl_ok :: "nat \<Rightarrow> price \<Rightarrow> bitmap_book \<Rightarrow> bool" where
  "bl_ok n base \<equiv> book_ok (bl_index_ok n) bl_levels (bm_ok base) bm_lvl bl_view"

interpretation bli: indexed_book bm_add_level bm_subtract_level bm_lvl "bm_ok base" "in_ladder base kPriceCount"
  bl_levels bl_view "bl_index_ok n" n for base n
  by unfold_locales (simp add: bl_index_ok_def bl_view_def table_okD)

lemma bl_okD:
  assumes "bl_ok n base b"
  shows "table_ok n (bl_slots b) (bl_live b)" "bm_minimum_price (bl_levels b) = base"
  using assms bm_okD(2) by (auto simp: book_ok_def bl_index_ok_def)

lemma bl_new_ok:
  assumes "unat maximum \<le> 2 ^ 62" "base \<le> uint64_max - 255"
  shows "\<exists>b n. bl_new maximum base 256 = Value b \<and> bl_ok n base b \<and> bl_view b = Map.empty \<and> 2 * unat maximum \<le> n"
proof -
  obtain c where c: "grown (max 8 (maximum * 2)) = Value c" "pow2_size c" "2 * unat maximum \<le> c"
    using grown_returns [OF assms(1)] by auto
  let ?b = "\<lparr>bl_slots = empty_slots c no_packed_order, bl_levels = bm_new base, bl_live = 0\<rparr>"
  have new: "bl_new maximum base 256 = Value ?b"
    using assms(2) by (simp add: bl_new_def ladder_capacity_def c(1) kPriceCount_def)
  have "ladder_fits base kPriceCount"
    using assms(2) by (simp add: ladder_fits_def kPriceCount_def word_le_nat_alt)
  then have "bl_ok c base ?b" "bl_view ?b = Map.empty"
    using table_ok_new [OF c(2), of no_packed_order] slots_ok_empty(2) [OF c(2), of no_packed_order]
    by (simp_all add: book_ok_def bl_index_ok_def bl_view_def levels_match_def bm_new_ok)
  with new c(3) show ?thesis by blast
qed

lemmas bl_defs = bl_add_def bl_remove_def bl_reduce_def bl_upsert_def bl_find_def bl_insertion_def bl_price_of_def
  bl_add_level_def bl_subtract_level_def bl_index_ok_def bl_view_def unpack_map_Some Let_def

lemma bl_add_refines:
  assumes ok: "bl_ok n base b" and r: "r = \<lparr>ord_side = s, ord_price_ticks = p, ord_remaining_quantity = q\<rparr>"
  shows "refines bl_view (bl_ok n base) (bl_add b i s p q)
     (if card (dom (bl_view b)) < n \<and> in_ladder base kPriceCount p then l3_add (bl_view b) i r else None)"
  using table_simps [OF bl_okD(1) [OF ok]] table_okD(2) [OF bl_okD(1) [OF ok]] bl_okD(2) [OF ok]
  by (intro bli.add_rule [OF ok r])
     (auto simp: bl_defs bm_minimum_simps r unpack_make dest: bm_minimum_simps intro!: bm_offset_threw)

lemma bl_remove_refines:
  assumes ok: "bl_ok n base b"
  shows "refines bl_view (bl_ok n base) (bl_remove b i) (l3_remove (bl_view b) i)"
  using table_simps [OF bl_okD(1) [OF ok]] table_okD(2) [OF bl_okD(1) [OF ok]]
  by (intro bli.remove_rule [OF ok]) (auto simp: bl_defs bm_minimum_simps dest: bm_minimum_simps)

lemma bl_reduce_refines:
  assumes ok: "bl_ok n base b"
  shows "refines bl_view (bl_ok n base) (bl_reduce b i q full) (l3_reduce (bl_view b) i q full)"
proof (intro bli.reduce_rule [OF ok])
  show "\<exists>x b'. bl_reduce b i q full = Threw x b'" if "l3_reduce (bl_view b) i q full = None"
    using that table_find [OF bl_okD(1) [OF ok], of i] table_okD(2) [OF bl_okD(1) [OF ok]]
    by (cases "slots_map (bl_slots b) i")
       (auto simp: bl_defs unpack_map_def l3_reduce_def split: if_splits)
  show "\<exists>b'. bl_reduce b i q full = Done b' \<and> bl_index_ok n b' \<and> bl_levels b' = l' \<and>
      bl_view b' = (if q = ord_remaining_quantity r then (bl_view b)(i := None)
        else (bl_view b)(i \<mapsto> r\<lparr>ord_remaining_quantity := ord_remaining_quantity r - q\<rparr>))"
    if r: "bl_view b i = Some r" and g: "q \<noteq> 0" "q \<le> ord_remaining_quantity r" "full \<or> q \<noteq> ord_remaining_quantity r"
      and sub: "bm_subtract_level (bl_levels b) (ord_side r) (ord_price_ticks r) q = Done l'" for r l'
  proof -
    let ?base = "bm_minimum_price (bl_levels b)"
    obtain r' where r': "slots_map (bl_slots b) i = Some r'" "r = unpack ?base r'"
      using r by (auto simp: bl_view_def unpack_map_Some)
    note t = table_find [OF bl_okD(1) [OF ok], of i] table_okD(2) [OF bl_okD(1) [OF ok]]
      table_bury [OF bl_okD(1) [OF ok] r'(1)] table_set_order [OF bl_okD(1) [OF ok] r'(1)]
      and m = bm_subtract_minimum [OF sub]
    have "bl_reduce b i q full =
        Done (if q = po_quantity r'
          then b\<lparr>bl_levels := l', bl_slots := bury (bl_slots b) (bl_find b i), bl_live := bl_live b - 1\<rparr>
          else b\<lparr>bl_levels := l', bl_slots := set_order (bl_slots b) (bl_find b i) (r'\<lparr>po_quantity := po_quantity r' - q\<rparr>)\<rparr>)"
      using r' g sub t(1-3) by (auto simp: bl_reduce_def bl_find_def bl_price_of_def bl_subtract_level_def Let_def not_less)
    then show ?thesis
      using t(4-) m r'(2) by (simp add: bl_index_ok_def bl_view_def bl_find_def)
  qed
qed

lemma bl_upsert_refines:
  assumes ok: "bl_ok n base b" and r: "r = \<lparr>ord_side = s, ord_price_ticks = p, ord_remaining_quantity = q\<rparr>"
  shows "refines bl_view (bl_ok n base) (bl_upsert b i s p q)
     (if (bl_view b i = None \<longrightarrow> card (dom (bl_view b)) < n) \<and> in_ladder base kPriceCount p
      then l3_upsert (bl_view b) i r else None)"
proof (intro bli.upsert_rule [OF ok r])
  note t = table_simps [OF bl_okD(1) [OF ok]] table_okD(2) [OF bl_okD(1) [OF ok]] bl_okD(2) [OF ok]
  show "refines bl_view (bl_ok n base) (bl_upsert b i s p q)
      (if card (dom (bl_view b)) < n \<and> in_ladder base kPriceCount p then l3_add (bl_view b) i r else None)"
    if "i \<noteq> 0" "q \<noteq> 0" "bl_view b i = None"
  proof -
    have "bl_upsert b i s p q = bl_add b i s p q"
      using that t by (simp add: bl_upsert_def bl_find_def bl_view_def)
    then show ?thesis using bl_add_refines [OF ok r] by simp
  qed
  show "\<exists>b'. bl_upsert b i s p q = Done b' \<and> bl_index_ok n b' \<and> bl_levels b' = l2 \<and> bl_view b' = (bl_view b)(i \<mapsto> r)"
    if z: "i \<noteq> 0" "q \<noteq> 0" and o1: "bl_view b i = Some o1"
      and sub: "bm_subtract_level (bl_levels b) (ord_side o1) (ord_price_ticks o1) (ord_remaining_quantity o1) = Done l1"
      and add: "bm_add_level l1 s p q = Done l2" for o1 l1 l2
  proof -
    have m: "bm_minimum_price l1 = base" "bm_minimum_price l2 = base"
      using bm_subtract_minimum [OF sub] bm_add_minimum [OF add] t by simp_all
    have off: "bm_offset (bl_levels b) p = Value (unat (p - base))" and p: "in_ladder base kPriceCount p"
      using bm_add_offset [OF add] m t bm_offset_minimum [of l1 "bl_levels b" p] by simp_all
    show ?thesis
      using z o1 sub add off m t unpack_make [OF p, of s q] by (auto simp: bl_defs r)
  qed
qed (use table_simps [OF bl_okD(1) [OF ok]] table_okD(2) [OF bl_okD(1) [OF ok]] in
      \<open>auto simp: bl_defs intro!: bm_offset_threw\<close>)

text \<open>The observers show the canonical levels and orders.\<close>

lemma bl_best_spec:
  assumes ok: "bl_ok n base b"
  shows "bl_best_bid b = spec_best (bl_view b) Bid" "bl_best_ask b = spec_best (bl_view b) Ask"
  using bm_best_spec(1) [OF book_okD(2,3) [OF ok]] by (simp_all add: bl_best_bid_def bl_best_ask_def)

lemma bl_digest:
  assumes ok: "bl_ok n base b"
  shows "bl_state_digest b = spec_digest (bl_view b)"
proof -
  note t = bl_okD [OF ok] and ids = slot_ids_map [OF table_okD(1) [OF bl_okD(1) [OF ok]]]
  have "map (\<lambda>oid. (oid, unpack base (sl_order (bl_slots b ! bl_find b oid)))) (sort (slot_ids (bl_slots b))) =
      map (\<lambda>i. (i, the (bl_view b i))) (sort (slot_ids (bl_slots b)))"
    using ids(2) table_find(2) [OF t(1)] t(2)
    by (intro map_cong) (auto simp: bl_find_def bl_view_def unpack_map_def)
  also have "\<dots> = spec_orders (bl_view b)"
    using ids by (intro spec_orders_sort) (simp_all add: bl_view_def)
  finally have ords: "map (\<lambda>oid. (oid, unpack base (sl_order (bl_slots b ! bl_find b oid)))) (sort (slot_ids (bl_slots b))) =
      spec_orders (bl_view b)" .
  have "card (dom (bl_view b)) = card (dom (slots_map (bl_slots b)))" by (simp add: bl_view_def)
  with ords show ?thesis
    using table_live [OF t(1)] t(2) bm_best_spec(2) [OF book_okD(2,3) [OF ok], of Bid]
      bm_best_spec(2) [OF book_okD(2,3) [OF ok], of Ask]
    by (simp add: bl_state_digest_def spec_digest_def bm_ladder_def)
qed

interpretation bl: l3_book bl_apply bl_add bl_remove bl_reduce bl_upsert
  "Invalid_argument ''replace id''" bl_view "bl_ok n base" n "in_ladder base kPriceCount"
  "\<lambda>b. Value (bl_best_bid b)" "\<lambda>b. Value (bl_best_ask b)" bl_live "\<lambda>b. Value (bl_state_digest b)" for n base
proof unfold_locales
  fix b assume ok: "bl_ok n base b"
  show "card (dom (bl_view b)) \<le> n"
    using table_okD(4) [OF bl_okD(1) [OF ok]] by (simp add: bl_view_def)
  show "bl_live b = of_nat (card (dom (bl_view b)))"
    using table_live [OF bl_okD(1) [OF ok]] by (simp add: bl_view_def)
  show "Value (bl_best_bid b) = Value (spec_best (bl_view b) Bid)"
    "Value (bl_best_ask b) = Value (spec_best (bl_view b) Ask)"
    "Value (bl_state_digest b) = Value (spec_digest (bl_view b))"
    using bl_best_spec [OF ok] bl_digest [OF ok] by simp_all
qed (simp add: bl_apply_def dispatch_def eq_commute cong: if_cong,
     (rule bl_add_refines bl_remove_refines bl_reduce_refines bl_upsert_refines; assumption)+)

section \<open>Exceptions\<close>

lemma bl_add_safe:
  assumes ok: "bl_ok n base b" and "bl_add b i s p q = Threw x b'"
  shows "b' = b"
  using assms(2) bli.add_threw_levels [OF ok, of q s p]
  by (cases "bm_add_level (bl_levels b) s p q"; cases "bm_offset (bl_levels b) p")
     (auto simp: bl_add_def bl_insertion_def bl_add_level_def Let_def split: if_splits)

lemma bl_slot:
  assumes ok: "bl_ok n base b"
  shows "bl_find b i = length (bl_slots b) \<longleftrightarrow> bl_view b i = None"
    and "bl_view b i = Some r \<Longrightarrow> unpack (bm_minimum_price (bl_levels b)) (sl_order (bl_slots b ! bl_find b i)) = r"
  using table_find [OF bl_okD(1) [OF ok], of i] table_okD(2) [OF bl_okD(1) [OF ok]]
  by (auto simp: bl_view_def bl_find_def unpack_map_Some)

lemma bl_remove_safe:
  assumes ok: "bl_ok n base b" and threw: "bl_remove b i = Threw x b'"
  shows "b' = b"
proof (cases "bl_view b i")
  case None
  with threw show ?thesis by (simp add: bl_remove_def bl_slot(1) [OF ok])
next
  case (Some r)
  from bli.sub_whole_returns [OF ok Some] threw Some show ?thesis
    by (auto simp: bl_remove_def bl_slot(1) [OF ok] bl_slot(2) [OF ok Some, symmetric] bl_price_of_def
        bl_subtract_level_def Let_def)
qed

lemma bl_reduce_safe:
  assumes ok: "bl_ok n base b" and threw: "bl_reduce b i q full = Threw x b'"
  shows "b' = b"
proof (cases "bl_view b i")
  case None
  with threw show ?thesis by (simp add: bl_reduce_def bl_slot(1) [OF ok])
next
  case (Some r)
  note defs = bl_reduce_def bl_slot(1) [OF ok] bl_slot(2) [OF ok Some, symmetric] bl_price_of_def
        bl_subtract_level_def Let_def
  show ?thesis
  proof (cases "q = 0 \<or> q > ord_remaining_quantity r")
    case False
    then obtain l' where "bm_subtract_level (bl_levels b) (ord_side r) (ord_price_ticks r) q = Done l'"
      using bli.sub_returns [OF ok Some, of q] by (auto simp: not_less)
    with threw Some show ?thesis by (auto simp: defs split: if_splits)
  qed (use threw Some in \<open>auto simp: defs\<close>)
qed

text \<open>
  Version 4: an add, cancel, execute or delete that throws leaves the well-formed book exactly as
  it was.
\<close>

theorem bitmap_ladder_order_book_throw_leaves_book:
  assumes "bl_ok n base b" "single_order_event e" "bl_apply b e = Threw x b'"
  shows "b' = b"
  using assms bl_add_safe [OF assms(1)] bl_remove_safe [OF assms(1)] bl_reduce_safe [OF assms(1)]
  by (auto simp: single_order_event_def bl_apply_def split: event_type.splits)


text \<open>
  C5. Version 4 implements the specification on every event: where the specification (with the version's
  table size and price range) has a transition, \<open>apply\<close> returns a well-formed book that represents its result; where it
  has none, \<open>apply\<close> throws.
\<close>

theorem bitmap_ladder_order_book_refines_spec:
  assumes "bl_ok n base b"
  shows "refines bl_view (bl_ok n base) (bl_apply b e) (admitted n (in_ladder base kPriceCount) (bl_view b) e)"
  using assms by (rule bl.apply_refines)

theorem bitmap_ladder_order_book_refines_spec_witness:
  "\<exists>b n. bl_new 4 1000 256 = Value b \<and>
     refines bl_view (bl_ok n 1000) (bl_apply b sample_add) (admitted n (in_ladder 1000 kPriceCount) (bl_view b) sample_add)"
proof -
  obtain b n where b: "bl_new 4 1000 256 = Value b" "bl_ok n 1000 b"
    using bl_new_ok [of 4 1000] by auto
  from bitmap_ladder_order_book_refines_spec [OF b(2), of sample_add] b(1) show ?thesis by blast
qed

theorem bitmap_ladder_order_book_throw_leaves_book_witness:
  "\<exists>b x b'. bl_new 4 1000 256 = Value b \<and> bl_apply b sample_zero = Threw x b' \<and> b' = b"
proof -
  obtain b n where b: "bl_new 4 1000 256 = Value b" "bl_ok n 1000 b"
    using bl_new_ok [of 4 1000] by auto
  obtain x b' where t: "bl_apply b sample_zero = Threw x b'"
    by (simp add: bl_apply_def bl_add_def sample_zero_def sample_add_def)
  have "single_order_event sample_zero" by (simp add: single_order_event_def sample_zero_def sample_add_def)
  from bitmap_ladder_order_book_throw_leaves_book [OF b(2) this t] t b(1) show ?thesis by blast
qed

end
