(* ===== verification/Fixed_Order_Index.thy ===== *)
theory Fixed_Order_Index
  imports Tombstone_Index Table_Capacity
begin

text \<open>
  \<open>llab::FixedOrderIndex<Value>\<close> (\<open>cpp/include/llab/fixed_order_index.hpp\<close>): a bounded hash
  index with linear probing and backward-shift deletion. \<open>erase_at\<close> is a loop that stops at the
  first unoccupied slot; it is a partial function, and its return is proved where the index is well
  formed.
\<close>

record 'v fslot =
  fs_id :: order_id
  fs_value :: 'v
  fs_occupied :: bool

record 'v fixed_index =
  fx_slots :: "'v fslot list"
  fx_maximum_live_entries :: u64
  fx_size :: u64

record probe_summary =
  ps_occupied :: u64
  ps_total_probes :: u64
  ps_maximum_probes :: u64

section \<open>Operations\<close>

definition fixed_new :: "u64 \<Rightarrow> 'v \<Rightarrow> 'v fixed_index result" where
  "fixed_new maximum v0 =
     (case fixed_order_index_capacity maximum of
        Value n \<Rightarrow> Value \<lparr>fx_slots = replicate n \<lparr>fs_id = 0, fs_value = v0, fs_occupied = False\<rparr>,
                          fx_maximum_live_entries = maximum, fx_size = 0\<rparr>
      | Raise x \<Rightarrow> Raise x
      | Loops \<Rightarrow> Loops)"

function fixed_insert_from ::
    "'v fslot list \<Rightarrow> order_id \<Rightarrow> 'v \<Rightarrow> nat \<Rightarrow> nat \<Rightarrow> 'v fslot list option" where
  "fixed_insert_from slots oid v index step =
     (if step < length slots then
        let slot = slots ! index in
        if \<not> fs_occupied slot then Some (slots[index := \<lparr>fs_id = oid, fs_value = v, fs_occupied = True\<rparr>])
        else if fs_id slot = oid then None
        else fixed_insert_from slots oid v (next_index (length slots) index) (step + 1)
      else None)"
  by pat_completeness auto
termination
  by (relation "measure (\<lambda>(slots, oid, v, index, step). length slots - step)") auto

text \<open>\<open>insert\<close> returns \<open>None\<close> where the code returns \<open>false\<close>, and then changes nothing.\<close>

definition fixed_insert :: "'v fixed_index \<Rightarrow> order_id \<Rightarrow> 'v \<Rightarrow> 'v fixed_index option" where
  "fixed_insert x oid v =
     (if oid = 0 \<or> fx_size x = fx_maximum_live_entries x then None
      else case fixed_insert_from (fx_slots x) oid v (home (length (fx_slots x)) oid) 0 of
             None \<Rightarrow> None
           | Some slots \<Rightarrow> Some (x\<lparr>fx_slots := slots, fx_size := fx_size x + 1\<rparr>))"

function fixed_find_from :: "'v fslot list \<Rightarrow> order_id \<Rightarrow> nat \<Rightarrow> nat \<Rightarrow> nat" where
  "fixed_find_from slots oid index step =
     (if step < length slots then
        let slot = slots ! index in
        if \<not> fs_occupied slot then length slots
        else if fs_id slot = oid then index
        else fixed_find_from slots oid (next_index (length slots) index) (step + 1)
      else length slots)"
  by pat_completeness auto
termination
  by (relation "measure (\<lambda>(slots, oid, index, step). length slots - step)") auto

definition fixed_find_slot :: "'v fixed_index \<Rightarrow> order_id \<Rightarrow> nat" where
  "fixed_find_slot x oid =
     (if oid = 0 then length (fx_slots x)
      else fixed_find_from (fx_slots x) oid (home (length (fx_slots x)) oid) 0)"

text \<open>\<open>find\<close> returns a pointer to the value; \<open>fixed_store\<close> is a write through that pointer.\<close>

definition fixed_find :: "'v fixed_index \<Rightarrow> order_id \<Rightarrow> 'v option" where
  "fixed_find x oid =
     (let index = fixed_find_slot x oid
      in if index = length (fx_slots x) then None else Some (fs_value (fx_slots x ! index)))"

definition fixed_store :: "'v fixed_index \<Rightarrow> order_id \<Rightarrow> 'v \<Rightarrow> 'v fixed_index" where
  "fixed_store x oid v =
     (let index = fixed_find_slot x oid
      in x\<lparr>fx_slots := (fx_slots x)[index := (fx_slots x ! index)\<lparr>fs_value := v\<rparr>]\<rparr>)"

partial_function (option) erase_loop :: "'v fslot list \<Rightarrow> nat \<Rightarrow> nat \<Rightarrow> 'v fslot list option" where
  "erase_loop slots hole next =
     (if fs_occupied (slots ! next) then
        (let entry_home = home (length slots) (fs_id (slots ! next)) in
         if distance (length slots) entry_home next \<ge> distance (length slots) entry_home hole
         then erase_loop (slots[hole := slots ! next]) next (next_index (length slots) next)
         else erase_loop slots hole (next_index (length slots) next))
      else Some (slots[hole := (slots ! hole)\<lparr>fs_occupied := False\<rparr>]))"

declare erase_loop.simps [code]

definition erase_at :: "'v fslot list \<Rightarrow> nat \<Rightarrow> 'v fslot list option" where
  "erase_at slots index = erase_loop slots index (next_index (length slots) index)"

definition fixed_erase :: "'v fixed_index \<Rightarrow> order_id \<Rightarrow> ('v option \<times> 'v fixed_index) result" where
  "fixed_erase x oid =
     (let index = fixed_find_slot x oid
      in if index = length (fx_slots x) then Value (None, x)
         else let v = fs_value (fx_slots x ! index)
              in case erase_at (fx_slots x) index of
                   None \<Rightarrow> Loops
                 | Some slots \<Rightarrow> Value (Some v, x\<lparr>fx_slots := slots, fx_size := fx_size x - 1\<rparr>))"

definition fixed_size :: "'v fixed_index \<Rightarrow> u64" where
  "fixed_size x = fx_size x"

definition fixed_capacity :: "'v fixed_index \<Rightarrow> nat" where
  "fixed_capacity x = length (fx_slots x)"

text \<open>What \<open>for_each\<close> visits, in slot order.\<close>

definition fixed_for_each :: "'v fixed_index \<Rightarrow> (order_id \<times> 'v) list" where
  "fixed_for_each x = map (\<lambda>s. (fs_id s, fs_value s)) (filter fs_occupied (fx_slots x))"

definition probes_at :: "'v fslot list \<Rightarrow> nat \<Rightarrow> nat" where
  "probes_at slots index = distance (length slots) (home (length slots) (fs_id (slots ! index))) index + 1"

definition fixed_probe_summary :: "'v fixed_index \<Rightarrow> probe_summary" where
  "fixed_probe_summary x =
     foldl (\<lambda>summary index.
       if \<not> fs_occupied (fx_slots x ! index) then summary
       else let probes = of_nat (probes_at (fx_slots x) index)
            in \<lparr>ps_occupied = ps_occupied summary + 1,
                ps_total_probes = ps_total_probes summary + probes,
                ps_maximum_probes = max (ps_maximum_probes summary) probes\<rparr>)
       \<lparr>ps_occupied = 0, ps_total_probes = 0, ps_maximum_probes = 0\<rparr> [0..<length (fx_slots x)]"

declare fixed_insert_from.simps [simp del] fixed_find_from.simps [simp del]

section \<open>Contents and invariant\<close>

text \<open>
  The table is a tombstone table without tombstones, so the searches of the two indices agree and
  share their lemmas.
\<close>

definition as_slot :: "'v fslot \<Rightarrow> 'v slot" where
  "as_slot s = \<lparr>sl_order_id = fs_id s, sl_order = fs_value s,
                sl_state = (if fs_occupied s then Occupied else Empty)\<rparr>"

definition fixed_map :: "'v fixed_index \<Rightarrow> (order_id \<rightharpoonup> 'v)" where
  "fixed_map x = slots_map (map as_slot (fx_slots x))"

definition fixed_ok :: "'v fixed_index \<Rightarrow> bool" where
  "fixed_ok x \<longleftrightarrow>
     slots_ok (map as_slot (fx_slots x)) \<and> fixed_map x 0 = None \<and>
     unat (fx_size x) = card (dom (fixed_map x)) \<and>
     fx_size x \<le> fx_maximum_live_entries x \<and>
     2 * unat (fx_maximum_live_entries x) \<le> length (fx_slots x)"

lemma as_slot_simps [simp]:
  "sl_order_id (as_slot s) = fs_id s" "sl_order (as_slot s) = fs_value s"
  "sl_state (as_slot s) = Occupied \<longleftrightarrow> fs_occupied s" "sl_state (as_slot s) = Empty \<longleftrightarrow> \<not> fs_occupied s"
  "sl_state (as_slot s) \<noteq> Tombstone"
  by (simp_all add: as_slot_def)

lemma fixed_okD:
  assumes "fixed_ok x"
  shows "slots_ok (map as_slot (fx_slots x))" "fixed_map x 0 = None"
    and "unat (fx_size x) = card (dom (fixed_map x))" "fx_size x \<le> fx_maximum_live_entries x"
    and "2 * unat (fx_maximum_live_entries x) \<le> length (fx_slots x)"
  using assms by (simp_all add: fixed_ok_def)

lemma fixed_pow2: "fixed_ok x \<Longrightarrow> pow2_size (length (fx_slots x))"
  using slots_okD(1) [OF fixed_okD(1)] by fastforce

lemma fixed_find_from_eq:
  "pow2_size (length slots) \<Longrightarrow> index < length slots \<Longrightarrow>
     fixed_find_from slots oid index step = find_from (map as_slot slots) oid index step"
proof (induction slots oid index step rule: fixed_find_from.induct)
  case (1 slots oid index step)
  then show ?case
    by (auto simp: fixed_find_from.simps [of slots oid index step] Let_def next_index_def mask_index_less
        find_from.simps [of "map as_slot slots" oid index step])
qed

lemma fixed_insert_from_eq:
  "pow2_size (length slots) \<Longrightarrow> index < length slots \<Longrightarrow>
     fixed_insert_from slots oid v index step =
       (let r = insertion_from (map as_slot slots) oid index step (length slots)
        in if r = length slots then None
           else Some (slots[r := \<lparr>fs_id = oid, fs_value = v, fs_occupied = True\<rparr>]))"
proof (induction slots oid v index step rule: fixed_insert_from.induct)
  case (1 slots oid v index step)
  then show ?case
    by (auto simp: fixed_insert_from.simps [of slots oid v index step] Let_def next_index_def mask_index_less
        insertion_from.simps [of "map as_slot slots" oid index step])
qed

lemma fixed_find_slot_eq:
  assumes "fixed_ok x"
  shows "fixed_find_slot x oid =
     (if oid = 0 then length (fx_slots x) else find_slot (map as_slot (fx_slots x)) oid)"
  using fixed_find_from_eq [OF fixed_pow2 [OF assms], of _ oid 0] home_less [OF fixed_pow2 [OF assms]]
  by (simp add: fixed_find_slot_def find_slot_def)

lemma fixed_find_slot_missing_iff:
  assumes "fixed_ok x"
  shows "fixed_find_slot x oid = length (fx_slots x) \<longleftrightarrow> fixed_map x oid = None"
  using find_slot_missing_iff [OF fixed_okD(1) [OF assms], of oid] fixed_okD(2) [OF assms]
  by (simp add: fixed_find_slot_eq [OF assms] fixed_map_def)

lemma fixed_find_slot_Some:
  assumes ok: "fixed_ok x" and some: "fixed_map x oid = Some v"
  shows "fixed_find_slot x oid = find_slot (map as_slot (fx_slots x)) oid"
    and "fixed_find_slot x oid < length (fx_slots x)"
    and "fs_occupied (fx_slots x ! fixed_find_slot x oid)"
    and "fs_id (fx_slots x ! fixed_find_slot x oid) = oid"
    and "fs_value (fx_slots x ! fixed_find_slot x oid) = v"
proof -
  have "oid \<noteq> 0" using some fixed_okD(2) [OF ok] by auto
  then show e: "fixed_find_slot x oid = find_slot (map as_slot (fx_slots x)) oid"
    by (simp add: fixed_find_slot_eq [OF ok])
  note f = find_slot_Some [OF fixed_okD(1) [OF ok] some [unfolded fixed_map_def]]
  show "fixed_find_slot x oid < length (fx_slots x)" using f(1) by (simp add: e)
  then show "fs_occupied (fx_slots x ! fixed_find_slot x oid)"
    "fs_id (fx_slots x ! fixed_find_slot x oid) = oid"
    "fs_value (fx_slots x ! fixed_find_slot x oid) = v"
    using f(2,3) by (simp_all add: e holds_id_def)
qed

text \<open>\<open>find\<close> returns the value stored under the identifier.\<close>

lemma fixed_find_map: "fixed_ok x \<Longrightarrow> fixed_find x oid = fixed_map x oid"
  using fixed_find_slot_missing_iff [of x oid] fixed_find_slot_Some [of x oid]
  by (cases "fixed_map x oid") (auto simp: fixed_find_def Let_def)

section \<open>Insertion\<close>

lemma as_slot_update:
  "map as_slot (slots[i := \<lparr>fs_id = oid, fs_value = v, fs_occupied = True\<rparr>]) = occupy (map as_slot slots) i oid v"
  by (simp add: occupy_def map_update as_slot_def)

lemma fixed_room:
  assumes "fixed_ok x"
  shows "card (dom (fixed_map x)) < length (fx_slots x)"
proof -
  have "card (dom (fixed_map x)) \<le> unat (fx_maximum_live_entries x)"
    using fixed_okD(3,4) [OF assms] by (simp add: word_le_nat_alt)
  then show ?thesis
    using fixed_okD(5) [OF assms] pow2_sizeD(1) [OF fixed_pow2 [OF assms]] by linarith
qed

text \<open>
  \<open>insert\<close> succeeds exactly for a non-zero identifier that is not live, below the configured
  maximum; then the index holds the new entry and nothing else changes.
\<close>

lemma fixed_insert_ok:
  assumes ok: "fixed_ok x" and "oid \<noteq> 0" "fixed_map x oid = None"
    and room: "card (dom (fixed_map x)) < unat (fx_maximum_live_entries x)"
  shows "\<exists>x'. fixed_insert x oid v = Some x' \<and> fixed_ok x' \<and> fixed_map x' = (fixed_map x)(oid \<mapsto> v) \<and>
     fx_maximum_live_entries x' = fx_maximum_live_entries x \<and> length (fx_slots x') = length (fx_slots x)"
proof -
  let ?s = "map as_slot (fx_slots x)" and ?n = "length (fx_slots x)"
  let ?r = "insertion_slot ?s oid"
  note fx = fixed_okD [OF ok]
  have none: "slots_map ?s oid = None" using assms(3) by (simp add: fixed_map_def)
  have r: "?r \<noteq> ?n"
    using insertion_slot_refused_iff [OF fx(1), of oid] none fixed_room [OF ok] by (simp add: fixed_map_def)
  define x' where "x' = x\<lparr>fx_slots := (fx_slots x)[?r := \<lparr>fs_id = oid, fs_value = v, fs_occupied = True\<rparr>],
     fx_size := fx_size x + 1\<rparr>"
  have sz: "unat (fx_size x + 1) = unat (fx_size x) + 1"
    using room fx(3) unat_less_2p64 [of "fx_maximum_live_entries x"] unat_plus_u64 [of "fx_size x" 1] by simp
  have "fx_size x \<noteq> fx_maximum_live_entries x" using fx(3) room by auto
  then have ins: "fixed_insert x oid v = Some x'"
    using fixed_insert_from_eq [OF fixed_pow2 [OF ok] home_less [OF fixed_pow2 [OF ok]], of oid v oid 0] r assms(2)
    by (simp add: fixed_insert_def insertion_slot_def x'_def)
  have m: "fixed_map x' = (fixed_map x)(oid \<mapsto> v)"
    using occupy_ok(2) [OF fx(1) none] r by (simp add: x'_def fixed_map_def as_slot_update)
  have "fixed_ok x'"
    unfolding fixed_ok_def m
    using occupy_ok(1) [OF fx(1) none] r fx room sz assms(2,3)
    by (simp add: x'_def as_slot_update card_insert_if domIff word_le_nat_alt)
  then show ?thesis using ins m by (auto simp: x'_def)
qed

lemma fixed_insert_refused:
  assumes ok: "fixed_ok x"
    and "oid = 0 \<or> fixed_map x oid \<noteq> None \<or> card (dom (fixed_map x)) = unat (fx_maximum_live_entries x)"
  shows "fixed_insert x oid v = None"
proof (cases "oid = 0 \<or> fx_size x = fx_maximum_live_entries x")
  case True
  then show ?thesis by (auto simp: fixed_insert_def)
next
  case False
  then have "card (dom (fixed_map x)) \<noteq> unat (fx_maximum_live_entries x)"
    using fixed_okD(3) [OF ok] by (metis word_unat_eq_iff)
  then have "slots_map (map as_slot (fx_slots x)) oid \<noteq> None"
    using assms(2) False by (auto simp: fixed_map_def)
  then have "insertion_slot (map as_slot (fx_slots x)) oid = length (fx_slots x)"
    using insertion_slot_dup [OF fixed_okD(1) [OF ok]] by fastforce
  then show ?thesis
    using fixed_insert_from_eq [OF fixed_pow2 [OF ok] home_less [OF fixed_pow2 [OF ok]], of oid v oid 0]
    by (simp add: fixed_insert_def insertion_slot_def)
qed

lemma fixed_store_ok:
  assumes ok: "fixed_ok x" and some: "fixed_map x oid = Some v0"
  shows "fixed_ok (fixed_store x oid v)" "fixed_map (fixed_store x oid v) = (fixed_map x)(oid \<mapsto> v)"
    and "fx_maximum_live_entries (fixed_store x oid v) = fx_maximum_live_entries x"
    and "length (fx_slots (fixed_store x oid v)) = length (fx_slots x)"
proof -
  let ?i = "fixed_find_slot x oid"
  note fx = fixed_okD [OF ok] and f = fixed_find_slot_Some [OF ok some]
  have s: "map as_slot ((fx_slots x)[?i := (fx_slots x ! ?i)\<lparr>fs_value := v\<rparr>]) =
      set_order (map as_slot (fx_slots x)) (find_slot (map as_slot (fx_slots x)) oid) v"
    using f(1,2) by (simp add: set_order_def map_update as_slot_def)
  note so = set_order_ok [OF fx(1) some [unfolded fixed_map_def], of v]
  show m: "fixed_map (fixed_store x oid v) = (fixed_map x)(oid \<mapsto> v)"
    using so(2) by (simp add: fixed_store_def Let_def fixed_map_def s)
  have "dom ((fixed_map x)(oid \<mapsto> v)) = dom (fixed_map x)" using some by auto
  moreover have "oid \<noteq> 0" using some fx(2) by auto
  ultimately show "fixed_ok (fixed_store x oid v)"
    using so(1) fx unfolding fixed_ok_def m by (simp add: fixed_store_def Let_def s)
qed (simp_all add: fixed_store_def Let_def)

section \<open>Backward-shift deletion\<close>

lemma distance_dist:
  "pow2_size n \<Longrightarrow> from < n \<Longrightarrow> to < n \<Longrightarrow> distance n from to = dist n from to"
  by (simp add: distance_mod dist_def)

text \<open>On the walk from \<open>h\<close>, a slot behind another one is reached through it.\<close>

lemma dist_split:
  assumes "h < n" "a < n" "b < n" "dist n h a \<le> dist n h b"
  shows "dist n h b = dist n h a + dist n a b"
  using assms by (auto simp: dist_if split: if_splits)

lemma dist_Suc:
  assumes "1 < n" "a < n" "b < n" "dist n a b < n - 1"
  shows "dist n a (pos n b 1) = dist n a b + 1"
  using assms by (auto simp: dist_if pos_if split: if_splits)

lemma dist_pred:
  assumes "1 < n" "b < n" "e < n" "b \<noteq> e"
  shows "dist n b e = Suc (dist n (pos n b 1) e)"
  using assms by (auto simp: dist_if pos_if split: if_splits)

lemma dist_self [simp]: "a < n \<Longrightarrow> dist n a a = 0"
  by (simp add: dist_if)

lemma dist_0_iff: "a < n \<Longrightarrow> b < n \<Longrightarrow> dist n a b = 0 \<longleftrightarrow> a = b"
  by (auto simp: dist_if split: if_splits)

definition fcell :: "'v fslot \<Rightarrow> (order_id \<times> 'v) option" where
  "fcell s = (if fs_occupied s then Some (fs_id s, fs_value s) else None)"

lemma fcell_as_slot: "slot_cell (as_slot s) = fcell s"
  by (simp add: slot_cell_def fcell_def as_slot_def)

lemma slot_cell_as_slot [simp]: "slot_cell \<circ> as_slot = fcell"
  by (simp add: fun_eq_iff fcell_as_slot)

lemma map_fcell: "map slot_cell (map as_slot slots) = map fcell slots"
  by simp

lemma fixed_cells:
  assumes "fixed_ok x"
  shows "cells_distinct (map fcell (fx_slots x))" "cells_map (map fcell (fx_slots x)) = fixed_map x"
    and "path_full (\<lambda>i. fs_occupied (fx_slots x ! i)) (map fcell (fx_slots x))"
proof -
  note ok = slots_okD(2,3) [OF fixed_okD(1) [OF assms], unfolded map_fcell]
  show "cells_distinct (map fcell (fx_slots x))" by (rule ok)
  show "cells_map (map fcell (fx_slots x)) = fixed_map x" by (simp add: fixed_map_def slots_map_def)
  show "path_full (\<lambda>i. fs_occupied (fx_slots x ! i)) (map fcell (fx_slots x))"
  proof (rule path_fullI)
    fix i oid v j
    assume i: "i < length (map fcell (fx_slots x))" "map fcell (fx_slots x) ! i = Some (oid, v)"
      and j: "j < dist (length (map fcell (fx_slots x))) (home (length (map fcell (fx_slots x))) oid) i"
    have "pos (length (map fcell (fx_slots x))) (home (length (map fcell (fx_slots x))) oid) j < length (fx_slots x)"
      using pos_less_length [OF i(1)] by simp
    with path_fullD [OF ok(2) i j]
    show "fs_occupied (fx_slots x ! pos (length (map fcell (fx_slots x))) (home (length (map fcell (fx_slots x))) oid) j)"
      by simp
  qed
qed

text \<open>
  The loop invariant. \<open>M\<close> is the map without the deleted entry, \<open>e\<close> an unoccupied slot that
  bounds the walk. The slot \<open>hole\<close> still carries its occupied flag; every other entry keeps an
  occupied path from its home, and the entries already passed (between \<open>hole\<close> and \<open>next\<close>) have a
  path that avoids \<open>hole\<close>.
\<close>

definition erase_inv :: "'v fslot list \<Rightarrow> nat \<Rightarrow> nat \<Rightarrow> nat \<Rightarrow> (order_id \<rightharpoonup> 'v) \<Rightarrow> bool" where
  "erase_inv slots hole next e M \<longleftrightarrow>
     pow2_size (length slots) \<and> hole < length slots \<and> next < length slots \<and> e < length slots \<and>
     \<not> fs_occupied (slots ! e) \<and> fs_occupied (slots ! hole) \<and> next \<noteq> hole \<and>
     dist (length slots) hole next \<le> dist (length slots) hole e \<and>
     cells_distinct ((map fcell slots)[hole := None]) \<and>
     cells_map ((map fcell slots)[hole := None]) = M \<and>
     path_full (\<lambda>i. fs_occupied (slots ! i)) ((map fcell slots)[hole := None]) \<and>
     (\<forall>i < length slots. \<forall>oid v. 0 < dist (length slots) hole i \<longrightarrow>
        dist (length slots) hole i < dist (length slots) hole next \<longrightarrow> fcell (slots ! i) = Some (oid, v) \<longrightarrow>
        dist (length slots) (home (length slots) oid) i \<le> dist (length slots) (home (length slots) oid) hole)"

lemma erase_invD:
  assumes "erase_inv slots hole next e M"
  shows "pow2_size (length slots)" "hole < length slots" "next < length slots" "e < length slots"
    and "\<not> fs_occupied (slots ! e)" "fs_occupied (slots ! hole)" "next \<noteq> hole"
    and "dist (length slots) hole next \<le> dist (length slots) hole e"
    and "cells_distinct ((map fcell slots)[hole := None])"
    and "cells_map ((map fcell slots)[hole := None]) = M"
    and "path_full (\<lambda>i. fs_occupied (slots ! i)) ((map fcell slots)[hole := None])"
  using assms by (simp_all add: erase_inv_def)

lemma erase_inv_passed:
  assumes "erase_inv slots hole next e M" "i < length slots" "fcell (slots ! i) = Some (oid, v)"
    and "0 < dist (length slots) hole i" "dist (length slots) hole i < dist (length slots) hole next"
  shows "dist (length slots) (home (length slots) oid) i \<le> dist (length slots) (home (length slots) oid) hole"
  using assms by (simp add: erase_inv_def)

lemma erase_inv_path:
  assumes "erase_inv slots hole next e M" "i < length slots" "i \<noteq> hole" "fcell (slots ! i) = Some (oid, v)"
    and "j < dist (length slots) (home (length slots) oid) i"
  shows "fs_occupied (slots ! pos (length slots) (home (length slots) oid) j)"
  using path_fullD [OF erase_invD(11) [OF assms(1)], of i oid v j] assms(2-) by simp

lemma pos_pos: "pos n (pos n h j) k = pos n h (j + k)"
  by (simp add: pos_def mod_add_left_eq add.assoc)

text \<open>When the walk meets an unoccupied slot, no remaining entry's path goes through the hole.\<close>

lemma erase_hole_free:
  assumes inv: "erase_inv slots hole next e M" and stop: "\<not> fs_occupied (slots ! next)"
    and i: "i < length slots" "i \<noteq> hole" "fcell (slots ! i) = Some (oid, v)"
    and j: "j < dist (length slots) (home (length slots) oid) i"
  shows "pos (length slots) (home (length slots) oid) j \<noteq> hole"
proof
  let ?n = "length slots" and ?h = "home (length slots) oid"
  assume p: "pos ?n ?h j = hole"
  note b = erase_invD [OF inv]
  have h: "?h < ?n" by (rule home_less) (rule b(1))
  have dh: "dist ?n ?h hole = j"
    using p h j dist_less_length [OF i(1), of ?h i] by (metis dist_pos less_trans)
  with j have split: "dist ?n ?h i = j + dist ?n hole i"
    using dist_split [OF h b(2) i(1)] by simp
  have "\<not> dist ?n hole i < dist ?n hole next"
    using erase_inv_passed [OF inv i(1,3)] j dh split by linarith
  moreover have "dist ?n hole i \<noteq> dist ?n hole next"
    using dist_inj [OF b(2) i(1) b(3)] i(3) stop by (auto simp: fcell_def split: if_splits)
  ultimately have "j + dist ?n hole next < dist ?n ?h i" by (simp add: split)
  then have "fs_occupied (slots ! pos ?n ?h (j + dist ?n hole next))"
    by (rule erase_inv_path [OF inv i])
  moreover have "pos ?n ?h (j + dist ?n hole next) = next"
    using b(2,3) by (simp add: p pos_dist flip: pos_pos)
  ultimately show False using stop by simp
qed

lemma erase_inv_stop:
  assumes inv: "erase_inv slots hole next e M" and stop: "\<not> fs_occupied (slots ! next)"
  defines "slots' \<equiv> slots[hole := (slots ! hole)\<lparr>fs_occupied := False\<rparr>]"
  shows "slots_ok (map as_slot slots')" "slots_map (map as_slot slots') = M"
proof -
  note b = erase_invD [OF inv]
  have c: "map slot_cell (map as_slot slots') = (map fcell slots)[hole := None]"
    unfolding map_fcell by (simp add: slots'_def map_update fcell_def)
  then show "slots_map (map as_slot slots') = M" by (simp add: slots_map_def b(10))
  have "path_full (\<lambda>i. sl_state (map as_slot slots' ! i) \<noteq> Empty) ((map fcell slots)[hole := None])"
  proof (rule path_fullI, unfold length_list_update length_map)
    fix i oid v j
    let ?p = "pos (length slots) (home (length slots) oid) j"
    assume i: "i < length slots" "(map fcell slots)[hole := None] ! i = Some (oid, v)"
      and j: "j < dist (length slots) (home (length slots) oid) i"
    then have i': "i \<noteq> hole" "fcell (slots ! i) = Some (oid, v)"
      using b(2) by (auto simp: nth_list_update split: if_splits)
    have "?p < length slots" using i(1) by (rule pos_less_length)
    then show "sl_state (map as_slot slots' ! ?p) \<noteq> Empty"
      using erase_inv_path [OF inv i(1) i' j] erase_hole_free [OF inv stop i(1) i' j]
      by (simp add: slots'_def)
  qed
  then show "slots_ok (map as_slot slots')"
    unfolding slots_ok_def c using b(1,9) by (simp add: slots'_def)
qed

lemma erase_inv_next:
  assumes inv: "erase_inv slots hole next e M" and occ: "fs_occupied (slots ! next)"
  shows "next \<noteq> e" "dist (length slots) hole next < dist (length slots) hole e"
    and "next_index (length slots) next = pos (length slots) next 1"
    and "dist (length slots) next e = Suc (dist (length slots) (pos (length slots) next 1) e)"
    and "dist (length slots) hole (pos (length slots) next 1) = dist (length slots) hole next + 1"
proof -
  note b = erase_invD [OF inv]
  have n: "1 < length slots" using pow2_sizeD(1) [OF b(1)] by simp
  show ne: "next \<noteq> e" using occ b(5) by auto
  then show lt: "dist (length slots) hole next < dist (length slots) hole e"
    using b(8) dist_inj [OF b(2,3,4)] by linarith
  show "next_index (length slots) next = pos (length slots) next 1"
    using b(1,3) by (simp add: index_simps pos_def)
  show "dist (length slots) next e = Suc (dist (length slots) (pos (length slots) next 1) e)"
    by (rule dist_pred [OF n b(3,4) ne])
  show "dist (length slots) hole (pos (length slots) next 1) = dist (length slots) hole next + 1"
    using lt dist_less_length [OF b(4), of hole e] by (intro dist_Suc [OF n b(2,3)]) linarith
qed

text \<open>The entry at \<open>next\<close> does not need the hole: pass it.\<close>

lemma erase_inv_skip:
  assumes inv: "erase_inv slots hole next e M" and occ: "fs_occupied (slots ! next)"
    and skip: "dist (length slots) (home (length slots) (fs_id (slots ! next))) next
       < dist (length slots) (home (length slots) (fs_id (slots ! next))) hole"
  shows "erase_inv slots hole (next_index (length slots) next) e M"
proof -
  let ?n = "length slots"
  note b = erase_invD [OF inv] and nx = erase_inv_next [OF inv occ]
  have p: "pos ?n next 1 < ?n" using b(3) by (rule pos_less_length)
  have "pos ?n next 1 \<noteq> hole"
    using nx(5) b(2) by (metis One_nat_def add_is_0 dist_self nat.distinct(1))
  moreover have "dist ?n (home ?n oid) i \<le> dist ?n (home ?n oid) hole"
    if i: "i < ?n" "fcell (slots ! i) = Some (oid, v)" "0 < dist ?n hole i"
      "dist ?n hole i < dist ?n hole next + 1" for i oid v
  proof (cases "dist ?n hole i < dist ?n hole next")
    case True
    then show ?thesis using erase_inv_passed [OF inv i(1-3)] by simp
  next
    case False
    with i(4) have "i = next" using dist_inj [OF b(2) i(1) b(3)] by simp
    with i(2) skip show ?thesis by (simp add: fcell_def split: if_splits)
  qed
  ultimately show ?thesis
    unfolding erase_inv_def nx(3) nx(5) using b nx(2) p by simp
qed

text \<open>The hole lies on the path of the entry at \<open>next\<close>: move the entry into it.\<close>

lemma erase_inv_move:
  assumes inv: "erase_inv slots hole next e M" and occ: "fs_occupied (slots ! next)"
    and move: "dist (length slots) (home (length slots) (fs_id (slots ! next))) hole
       \<le> dist (length slots) (home (length slots) (fs_id (slots ! next))) next"
  shows "erase_inv (slots[hole := slots ! next]) next (next_index (length slots) next) e M"
proof -
  let ?n = "length slots" and ?ys = "map fcell slots" and ?slots' = "slots[hole := slots ! next]"
  note b = erase_invD [OF inv] and nx = erase_inv_next [OF inv occ]
  have p: "pos ?n next 1 < ?n" using b(3) by (rule pos_less_length)
  have n: "1 < ?n" using pow2_sizeD(1) [OF b(1)] by simp
  have one: "dist ?n next (pos ?n next 1) = 1"
    using dist_Suc [OF n b(3,3)] n b(3) by simp
  have occ': "fs_occupied (?slots' ! i) = fs_occupied (slots ! i)" for i
    using occ b(2,6) by (cases "i = hole") simp_all
  have cells: "(map fcell ?slots')[next := None] = (?ys[hole := None])[hole := ?ys[hole := None] ! next, next := ?ys[hole := None] ! hole]"
    using b(2,3,7) by (simp add: map_update)
  have perm: "mset ((map fcell ?slots')[next := None]) = mset (?ys[hole := None])"
    unfolding cells using b(2,3) by (intro mset_swap) simp_all
  have path: "path_full (\<lambda>i. fs_occupied (?slots' ! i)) ((map fcell ?slots')[next := None])"
  proof (rule path_fullI, unfold length_list_update length_map occ')
    fix i oid v j
    assume i: "i < ?n" "(map fcell ?slots')[next := None] ! i = Some (oid, v)"
      and j: "j < dist ?n (home ?n oid) i"
    have ne: "i \<noteq> next" using i b(3) by auto
    show "fs_occupied (slots ! pos ?n (home ?n oid) j)"
    proof (cases "i = hole")
      case True
      with i ne b(2) have c: "fcell (slots ! next) = Some (oid, v)" by simp
      then have "fs_id (slots ! next) = oid" using occ by (simp add: fcell_def)
      with move j True have "j < dist ?n (home ?n oid) next" by simp
      with erase_inv_path [OF inv b(3,7) c] show ?thesis .
    next
      case False
      with i ne have "fcell (slots ! i) = Some (oid, v)" by simp
      from erase_inv_path [OF inv i(1) False this j] show ?thesis .
    qed
  qed
  have "pos ?n next 1 \<noteq> next" using one b(3) by auto
  moreover have "1 \<le> dist ?n next e" using nx(4) by simp
  moreover have "cells_distinct ((map fcell ?slots')[next := None])"
    "cells_map ((map fcell ?slots')[next := None]) = M"
    using cells_perm [OF perm] b(9,10) by simp_all
  ultimately show ?thesis
    unfolding erase_inv_def nx(3) length_list_update one
    using b(1,3,4,5) occ p path occ' by simp
qed

text \<open>The loop returns, and leaves a well-formed table that holds exactly \<open>M\<close>.\<close>

lemma erase_loop_returns:
  "erase_inv slots hole next e M \<Longrightarrow>
     \<exists>slots'. erase_loop slots hole next = Some slots' \<and> slots_ok (map as_slot slots') \<and>
       slots_map (map as_slot slots') = M \<and> length slots' = length slots"
proof (induction "dist (length slots) next e" arbitrary: slots hole "next" rule: less_induct)
  case less
  let ?h = "home (length slots) (fs_id (slots ! next))"
  note b = erase_invD [OF less.prems]
  show ?case
  proof (cases "fs_occupied (slots ! next)")
    case False
    then show ?thesis
      using erase_inv_stop [OF less.prems False] by (simp add: erase_loop.simps [of slots hole "next"])
  next
    case occ: True
    note nx = erase_inv_next [OF less.prems occ]
    have dd: "distance (length slots) ?h i = dist (length slots) ?h i" if "i < length slots" for i
      using that by (intro distance_dist home_less b)
    have dec: "dist (length slots) (next_index (length slots) next) e < dist (length slots) next e"
      by (simp add: nx(3,4))
    show ?thesis
    proof (cases "dist (length slots) ?h hole \<le> dist (length slots) ?h next")
      case True
      with less.hyps [of "slots[hole := slots ! next]" "next_index (length slots) next" "next"]
        erase_inv_move [OF less.prems occ True] dec occ
      show ?thesis by (simp add: erase_loop.simps [of slots hole "next"] dd b(2,3))
    next
      case False
      with less.hyps [of slots "next_index (length slots) next" hole]
        erase_inv_skip [OF less.prems occ] dec occ
      show ?thesis by (simp add: erase_loop.simps [of slots hole "next"] dd b(2,3))
    qed
  qed
qed


text \<open>There is always an unoccupied slot, and the walk from the erased one starts well.\<close>

lemma fixed_vacant:
  assumes "fixed_ok x"
  obtains e where "e < length (fx_slots x)" "\<not> fs_occupied (fx_slots x ! e)"
proof -
  have "length (entries (map fcell (fx_slots x))) \<noteq> length (map fcell (fx_slots x))"
    using fixed_room [OF assms] card_slots_map [OF fixed_okD(1) [OF assms]]
    by (simp add: fixed_map_def)
  then have "None \<in> set (map fcell (fx_slots x))" using entries_full by blast
  then obtain e where "e < length (fx_slots x)" "fcell (fx_slots x ! e) = None"
    by (auto simp: in_set_conv_nth)
  with that show thesis by (auto simp: fcell_def split: if_splits)
qed

lemma erase_inv_start:
  assumes ok: "fixed_ok x" and some: "fixed_map x oid = Some v"
    and e: "e < length (fx_slots x)" "\<not> fs_occupied (fx_slots x ! e)"
  defines "h \<equiv> fixed_find_slot x oid"
  shows "erase_inv (fx_slots x) h (next_index (length (fx_slots x)) h) e ((fixed_map x)(oid := None))"
proof -
  let ?slots = "fx_slots x" and ?n = "length (fx_slots x)"
  note f = fixed_find_slot_Some(2-) [OF ok some, folded h_def] and p2 = fixed_pow2 [OF ok]
  have n: "1 < ?n" using pow2_sizeD(1) [OF p2] by simp
  have nx: "next_index ?n h = pos ?n h 1" using p2 f(1) by (simp add: index_simps pos_def)
  have one: "dist ?n h (pos ?n h 1) = 1" using dist_Suc [OF n f(1,1)] n f(1) by simp
  have he: "dist ?n h e \<noteq> 0" using e f(2) by (auto simp: dist_0_iff [OF f(1) e(1)])
  note c = fixed_cells [OF ok]
  have ch: "map fcell ?slots ! h = Some (oid, v)" using f by (simp add: fcell_def)
  have path: "path_full (\<lambda>i. fs_occupied (?slots ! i)) ((map fcell ?slots)[h := None])"
    using c(3) f(1) by (auto simp: path_full_def nth_list_update)
  have p: "pos ?n h 1 < ?n" using f(1) by (rule pos_less_length)
  have "pos ?n h 1 \<noteq> h" using one f(1) by auto
  with p2 f(1,2) e he p path cells_remove [OF c(1) _ ch] c(2) show ?thesis
    unfolding erase_inv_def nx one by auto
qed

text \<open>
  \<open>erase\<close> of a live identifier returns its value and removes exactly that entry; the loop ends.
  \<open>erase\<close> of any other identifier changes nothing.
\<close>

lemma fixed_erase_ok:
  assumes ok: "fixed_ok x" and some: "fixed_map x oid = Some v"
  shows "\<exists>x'. fixed_erase x oid = Value (Some v, x') \<and> fixed_ok x' \<and> fixed_map x' = (fixed_map x)(oid := None) \<and>
     fx_maximum_live_entries x' = fx_maximum_live_entries x \<and> length (fx_slots x') = length (fx_slots x)"
proof -
  note fx = fixed_okD [OF ok] and f = fixed_find_slot_Some(2-) [OF ok some]
  obtain e where e: "e < length (fx_slots x)" "\<not> fs_occupied (fx_slots x ! e)"
    using ok by (rule fixed_vacant)
  obtain slots' where s: "erase_at (fx_slots x) (fixed_find_slot x oid) = Some slots'"
      "slots_ok (map as_slot slots')" "slots_map (map as_slot slots') = (fixed_map x)(oid := None)"
      "length slots' = length (fx_slots x)"
    using erase_loop_returns [OF erase_inv_start [OF ok some e]] by (auto simp: erase_at_def)
  define x' where "x' = x\<lparr>fx_slots := slots', fx_size := fx_size x - 1\<rparr>"
  have m: "fixed_map x' = (fixed_map x)(oid := None)" by (simp add: x'_def fixed_map_def s(3))
  have d: "oid \<in> dom (fixed_map x)" using some by auto
  then have card: "card (dom (fixed_map x)) \<noteq> 0" by auto
  then have sz: "unat (fx_size x - 1) = unat (fx_size x) - 1"
    using unat_minus_u64 [of 1 "fx_size x"] unfolding fx(3) [symmetric] by (simp add: Suc_le_eq)
  have "fixed_ok x'"
    unfolding fixed_ok_def m using fx s d sz card
    by (simp add: x'_def word_le_nat_alt card_Diff_singleton)
  moreover have "fixed_erase x oid = Value (Some v, x')"
    using f(1,4) s(1) by (simp add: fixed_erase_def x'_def)
  ultimately show ?thesis using m s(4) by (auto simp: x'_def)
qed

lemma fixed_erase_missing:
  "fixed_ok x \<Longrightarrow> fixed_map x oid = None \<Longrightarrow> fixed_erase x oid = Value (None, x)"
  by (simp add: fixed_erase_def fixed_find_slot_missing_iff)

section \<open>Construction and iteration\<close>

lemma fixed_new_ok:
  assumes "unat maximum \<le> 2 ^ 62"
  shows "\<exists>x. fixed_new maximum v0 = Value x \<and> fixed_ok x \<and> fixed_map x = Map.empty \<and>
     fx_maximum_live_entries x = maximum \<and> pow2_size (length (fx_slots x)) \<and>
     (length (fx_slots x) = 8 \<or> length (fx_slots x) < 4 * unat maximum)"
proof -
  obtain c where c: "fixed_order_index_capacity maximum = Value c" "pow2_size c" "2 * unat maximum \<le> c"
      "c = 8 \<or> c < 4 * unat maximum"
    using grown_returns [OF assms] assms
    by (auto simp: fixed_order_index_capacity_def word_less_nat_alt)
  define x where "x = \<lparr>fx_slots = replicate c \<lparr>fs_id = 0, fs_value = v0, fs_occupied = False\<rparr>,
     fx_maximum_live_entries = maximum, fx_size = 0\<rparr>"
  have e: "map as_slot (fx_slots x) = empty_slots c v0"
    by (simp add: x_def empty_slots_def as_slot_def)
  then have m: "fixed_map x = Map.empty"
    using slots_ok_empty(2) [OF c(2), of v0] by (simp add: fixed_map_def)
  moreover have "fixed_ok x"
    unfolding fixed_ok_def e m using slots_ok_empty(1) [OF c(2), of v0] c(3) by (simp add: x_def)
  moreover have "fixed_new maximum v0 = Value x" by (simp add: fixed_new_def c(1) x_def)
  ultimately show ?thesis using c by (auto simp: x_def)
qed

text \<open>\<open>for_each\<close> visits every live entry once.\<close>

lemma fixed_for_each_entries: "fixed_for_each x = entries (map fcell (fx_slots x))"
proof -
  have "map (\<lambda>s. (fs_id s, fs_value s)) (filter fs_occupied slots) = entries (map fcell slots)"
    for slots :: "'v fslot list"
    by (induction slots) (simp_all add: fcell_def)
  then show ?thesis by (simp add: fixed_for_each_def)
qed

lemma fixed_for_each_map:
  assumes "fixed_ok x"
  shows "map_of (fixed_for_each x) = fixed_map x" "distinct (map fst (fixed_for_each x))"
  using fixed_cells [OF assms]
  by (simp_all add: fixed_for_each_entries cells_map_def cells_distinct_def)


section \<open>Probe lengths\<close>

lemma occupied_card:
  "card {i. i < length slots \<and> fs_occupied (slots ! i)} = length (entries (map fcell slots))"
proof -
  have "length (filter fs_occupied slots) = length (entries (map fcell slots))"
    by (induction slots) (simp_all add: fcell_def)
  then show ?thesis by (simp add: length_filter_conv_card)
qed

text \<open>A live entry is at most as many probes away as there are live entries.\<close>

lemma probes_at_le:
  assumes ok: "fixed_ok x" and i: "i < length (fx_slots x)" "fs_occupied (fx_slots x ! i)"
  shows "probes_at (fx_slots x) i \<le> unat (fx_size x)"
proof -
  let ?slots = "fx_slots x" and ?n = "length (fx_slots x)"
  let ?h = "home ?n (fs_id (?slots ! i))"
  have h: "?h < ?n" by (rule home_less) (rule fixed_pow2 [OF ok])
  have d: "dist ?n ?h i < ?n" using i(1) by (rule dist_less_length)
  have "fs_occupied (?slots ! pos ?n ?h j)" if "j \<le> dist ?n ?h i" for j
  proof (cases "j = dist ?n ?h i")
    case True
    with h i show ?thesis by simp
  next
    case False
    with that path_fullD [OF fixed_cells(3) [OF ok], of i _ _ j] i show ?thesis by (simp add: fcell_def)
  qed
  then have "pos ?n ?h ` {..dist ?n ?h i} \<subseteq> {k. k < ?n \<and> fs_occupied (?slots ! k)}"
    using pos_less_length [OF i(1)] by auto
  then have "card (pos ?n ?h ` {..dist ?n ?h i}) \<le> card {k. k < ?n \<and> fs_occupied (?slots ! k)}"
    by (intro card_mono) simp_all
  moreover have "inj_on (pos ?n ?h) {..dist ?n ?h i}"
    using d pos_inj [OF h] by (intro inj_onI) auto
  moreover have "length (entries (map fcell ?slots)) = unat (fx_size x)"
    using card_cells_map [OF fixed_cells(1) [OF ok]] fixed_okD(3) [OF ok] by (simp add: fixed_cells(2) [OF ok])
  ultimately show ?thesis
    using distance_dist [OF fixed_pow2 [OF ok] h i(1)]
    by (simp add: card_image occupied_card probes_at_def)
qed

lemma probe_fold:
  fixes slots :: "'v fslot list"
  defines "f \<equiv> \<lambda>summary index.
       if \<not> fs_occupied (slots ! index) then summary
       else let probes = of_nat (probes_at slots index)
            in \<lparr>ps_occupied = ps_occupied summary + 1,
                ps_total_probes = ps_total_probes summary + probes,
                ps_maximum_probes = max (ps_maximum_probes summary) probes\<rparr>"
  assumes "\<And>i. i \<in> set is \<Longrightarrow> fs_occupied (slots ! i) \<Longrightarrow> of_nat (probes_at slots i) \<le> bound"
    and "ps_maximum_probes s \<le> bound"
  shows "ps_occupied (foldl f s is) = ps_occupied s + of_nat (length (filter (\<lambda>i. fs_occupied (slots ! i)) is)) \<and>
     ps_maximum_probes (foldl f s is) \<le> bound"
  using assms(2,3) by (induction "is" arbitrary: s) (auto simp: f_def Let_def)

lemma fixed_probe_summary_ok:
  assumes ok: "fixed_ok x"
  shows "ps_occupied (fixed_probe_summary x) = fx_size x"
    and "ps_maximum_probes (fixed_probe_summary x) \<le> fx_size x"
proof -
  have "(of_nat (probes_at (fx_slots x) i) :: u64) \<le> fx_size x"
    if "i \<in> set [0..<length (fx_slots x)]" "fs_occupied (fx_slots x ! i)" for i
    using probes_at_le [OF ok, of i] that unat_less_2p64 [of "fx_size x"]
      unat_of_nat_u64 [of "probes_at (fx_slots x) i"]
    by (simp add: word_le_nat_alt)
  note fold = probe_fold [of "[0..<length (fx_slots x)]", OF this, where s = "\<lparr>ps_occupied = 0, ps_total_probes = 0, ps_maximum_probes = 0\<rparr>"]
  have "length (filter (\<lambda>i. fs_occupied (fx_slots x ! i)) [0..<length (fx_slots x)]) = unat (fx_size x)"
    using occupied_card [of "fx_slots x"] card_cells_map [OF fixed_cells(1) [OF ok]] fixed_okD(3) [OF ok]
    by (simp add: length_filter_conv_card fixed_cells(2) [OF ok] cong: conj_cong)
  with fold show "ps_occupied (fixed_probe_summary x) = fx_size x"
    "ps_maximum_probes (fixed_probe_summary x) \<le> fx_size x"
    by (simp_all add: fixed_probe_summary_def)
qed

section \<open>The index contract\<close>

interpretation fixed: order_index fixed_find fixed_insert fixed_store fixed_erase fixed_map fixed_ok
  "\<lambda>x. unat (fx_maximum_live_entries x)"
proof unfold_locales
  fix x :: "'a fixed_index" and i assume ok: "fixed_ok x"
  have le: "card (dom (fixed_map x)) \<le> unat (fx_maximum_live_entries x)"
    using fixed_okD(3,4) [OF ok] by (simp add: word_le_nat_alt)
  show "fixed_find x i = fixed_map x i" using ok by (rule fixed_find_map)
  show "fixed_insert x i v = None"
    if "fixed_map x i \<noteq> None \<or> \<not> card (dom (fixed_map x)) < unat (fx_maximum_live_entries x)" for v
    using that le by (intro fixed_insert_refused [OF ok]) auto
  show "\<exists>x'. fixed_erase x i = Value (fixed_map x i, x') \<and> fixed_ok x' \<and> fixed_map x' = (fixed_map x)(i := None) \<and>
      unat (fx_maximum_live_entries x') = unat (fx_maximum_live_entries x)"
    using fixed_erase_ok [OF ok, of i] fixed_erase_missing [OF ok, of i] ok
    by (cases "fixed_map x i") auto
  show "fixed_ok (fixed_store x i v) \<and> fixed_map (fixed_store x i v) = (fixed_map x)(i \<mapsto> v) \<and>
      unat (fx_maximum_live_entries (fixed_store x i v)) = unat (fx_maximum_live_entries x)"
    if "fixed_map x i = Some u" for u v
    using fixed_store_ok [OF ok that] by simp
  show "\<exists>x'. fixed_insert x i v = Some x' \<and> fixed_ok x' \<and> fixed_map x' = (fixed_map x)(i \<mapsto> v) \<and>
      unat (fx_maximum_live_entries x') = unat (fx_maximum_live_entries x)"
    if "i \<noteq> 0" "fixed_map x i = None" "card (dom (fixed_map x)) < unat (fx_maximum_live_entries x)" for v
    using fixed_insert_ok [OF ok that, of v] by auto
qed


section \<open>An index with a counter of live orders\<close>

definition index_ok :: "nat \<Rightarrow> 'v fixed_index \<Rightarrow> u64 \<Rightarrow> bool" where
  "index_ok n x live \<longleftrightarrow>
     fixed_ok x \<and> unat (fx_maximum_live_entries x) = n \<and> live = of_nat (card (dom (fixed_map x)))"

lemma index_okD:
  assumes "index_ok n x live"
  shows "fixed_ok x" "unat (fx_maximum_live_entries x) = n" "live = of_nat (card (dom (fixed_map x)))"
    and "card (dom (fixed_map x)) \<le> n" "live = fx_size x" "fixed_find x i = fixed_map x i"
proof -
  show ok: "fixed_ok x" and n: "unat (fx_maximum_live_entries x) = n"
    and l: "live = of_nat (card (dom (fixed_map x)))"
    using assms by (simp_all add: index_ok_def)
  show "card (dom (fixed_map x)) \<le> n" using fixed_okD(3,4) [OF ok] n by (simp add: word_le_nat_alt)
  show "live = fx_size x" using fixed_okD(3) [OF ok] l by (metis of_nat_unat_u64)
  show "fixed_find x i = fixed_map x i" using ok by (rule fixed_find_map)
qed

lemma index_insert:
  assumes t: "index_ok n x live" and "oid \<noteq> 0" "fixed_map x oid = None" "card (dom (fixed_map x)) < n"
  shows "\<exists>x'. fixed_insert x oid v = Some x' \<and> index_ok n x' (live + 1) \<and> fixed_map x' = (fixed_map x)(oid \<mapsto> v)"
  using fixed_insert_ok [OF index_okD(1) [OF t] assms(2,3), of v] assms(3,4) index_okD(2,3) [OF t]
  by (auto simp: index_ok_def card_insert_if domIff add.commute)

lemma index_insert_refused:
  assumes t: "index_ok n x live" and "oid = 0 \<or> fixed_map x oid \<noteq> None \<or> \<not> card (dom (fixed_map x)) < n"
  shows "fixed_insert x oid v = None"
  using fixed_insert_refused [OF index_okD(1) [OF t], of oid v] assms(2) index_okD(2,4) [OF t] by auto

lemma index_erase:
  assumes t: "index_ok n x live" and some: "fixed_map x oid = Some v"
  shows "\<exists>x'. fixed_erase x oid = Value (Some v, x') \<and> index_ok n x' (live - 1) \<and> fixed_map x' = (fixed_map x)(oid := None)"
proof -
  have "oid \<in> dom (fixed_map x)" using some by auto
  then have "card (dom (fixed_map x) - {oid}) = card (dom (fixed_map x)) - 1" "1 \<le> card (dom (fixed_map x))"
    by (simp_all add: card_Diff_singleton Suc_le_eq card_gt_0_iff) auto
  with fixed_erase_ok [OF index_okD(1) [OF t] some] index_okD(2,3) [OF t] show ?thesis
    by (auto simp: index_ok_def of_nat_diff)
qed

lemma index_store:
  assumes t: "index_ok n x live" and some: "fixed_map x oid = Some u"
  shows "index_ok n (fixed_store x oid v) live" "fixed_map (fixed_store x oid v) = (fixed_map x)(oid \<mapsto> v)"
proof -
  have "dom ((fixed_map x)(oid \<mapsto> v)) = dom (fixed_map x)" using some by auto
  with fixed_store_ok [OF index_okD(1) [OF t] some, of v] index_okD(2,3) [OF t]
  show "index_ok n (fixed_store x oid v) live" "fixed_map (fixed_store x oid v) = (fixed_map x)(oid \<mapsto> v)"
    by (simp_all add: index_ok_def)
qed

text \<open>The sorted entries, as the digest hashes them.\<close>

definition sorted_entries :: "'v fixed_index \<Rightarrow> (order_id \<times> 'v) list" where
  "sorted_entries x = sort_key fst (fixed_for_each x)"

lemma sorted_entries_map:
  assumes ok: "fixed_ok x"
  shows "sorted_entries x = map (\<lambda>i. (i, the (fixed_map x i))) (sorted_list_of_set (dom (fixed_map x)))"
proof -
  note fe = fixed_for_each_map [OF ok]
  have "mset (map fst (sorted_entries x)) = mset (map fst (fixed_for_each x))" by (simp add: sorted_entries_def)
  then have d: "distinct (map fst (sorted_entries x))" using fe(2) mset_eq_imp_distinct_iff by blast
  then have s: "sorted_wrt (<) (map fst (sorted_entries x))"
    by (simp add: strict_sorted_iff sorted_entries_def)
  have m: "map_of (sorted_entries x) = fixed_map x"
    unfolding fe(1) [symmetric] using d fe(2) by (subst map_of_inject_set) (simp_all add: sorted_entries_def)
  have "map fst (sorted_entries x) = sorted_list_of_set (fst ` set (sorted_entries x))"
    using s by (metis list.set_map sorted_list_of_set.idem_if_sorted_distinct strict_sorted_iff)
  moreover have "fst ` set (sorted_entries x) = dom (fixed_map x)"
    by (simp add: m [symmetric] dom_map_of_conv_image_fst)
  moreover have "map (\<lambda>i. (i, the (map_of (sorted_entries x) i))) (map fst (sorted_entries x)) = sorted_entries x"
    unfolding map_map using d by (intro map_idI) auto
  ultimately show ?thesis by (simp add: m)
qed

section \<open>The index against a reference map\<close>

text \<open>
  C2. The fixed index, from its constructor with a maximum of up to \<open>2\<^sup>6\<^sup>2\<close> entries: any sequence of insertions (of
  identifiers other than 0, which is reserved), searches, updates and
  erasures returns, with the replies of a finite map bounded by the configured maximum; backward-shift
  deletion never loses or duplicates an entry.
\<close>

theorem fixed_index_is_map:
  assumes "unat maximum \<le> 2 ^ 62" "list_all op_valid ops"
  shows "\<exists>x x'. fixed_new maximum v0 = Value x \<and>
     index_ops fixed_find fixed_insert fixed_store fixed_erase x ops =
       Some (fst (map_ops (unat maximum) Map.empty ops), x') \<and>
     fixed_ok x' \<and> fixed_map x' = snd (map_ops (unat maximum) Map.empty ops)"
proof -
  obtain x where x: "fixed_new maximum v0 = Value x" "fixed_ok x" "fixed_map x = Map.empty"
      "fx_maximum_live_entries x = maximum"
    using fixed_new_ok [OF assms(1), of v0] by auto
  from fixed.ops_refine [OF x(2) assms(2)] x show ?thesis by auto
qed

theorem fixed_index_is_map_witness:
  "\<exists>x x'. fixed_new 4 (0 :: nat) = Value x \<and>
     index_ops fixed_find fixed_insert fixed_store fixed_erase x
       [Insert_op 5 10, Insert_op 5 11, Store_op 5 12, Erase_op 5, Find_op 5] =
     Some ([Inserted True, Inserted False, Stored True, Erased (Some 12), Found None], x') \<and>
     fixed_ok x' \<and> fixed_map x' = Map.empty"
  using fixed_index_is_map
    [of 4 "[Insert_op 5 10, Insert_op 5 11, Store_op 5 12, Erase_op 5, Find_op 5]" "0 :: nat"]
  by (simp add: op_valid_def map_op_def)

text \<open>
  \<open>erase\<close> always returns on a well-formed index: it yields the value stored under the identifier,
  removes exactly that entry and keeps the index well formed, and it changes nothing for an
  identifier that is not live.
\<close>

theorem fixed_erase_returns:
  assumes "fixed_ok x"
  shows "\<exists>x'. fixed_erase x oid = Value (fixed_map x oid, x') \<and> fixed_ok x' \<and>
     fixed_map x' = (fixed_map x)(oid := None) \<and> (fixed_map x oid = None \<longrightarrow> x' = x)"
  using fixed_erase_ok [OF assms, of oid] fixed_erase_missing [OF assms, of oid] assms
  by (cases "fixed_map x oid") auto

theorem fixed_erase_returns_witness:
  "\<exists>x x'. fixed_new 4 (0 :: nat) = Value x \<and> fixed_erase x 5 = Value (None, x') \<and> x' = x"
proof -
  obtain x where x: "fixed_new 4 (0 :: nat) = Value x" "fixed_ok x" "fixed_map x = Map.empty"
    using fixed_new_ok [of 4 "0 :: nat"] by auto
  from fixed_erase_returns [OF x(2), of 5] x show ?thesis by auto
qed

text \<open>
  \<open>probe_summary\<close> counts every live entry once, and no entry needs more probes than there are
  live entries.
\<close>

theorem fixed_probe_bound:
  assumes "fixed_ok x"
  shows "ps_occupied (fixed_probe_summary x) = fixed_size x \<and> ps_maximum_probes (fixed_probe_summary x) \<le> fixed_size x"
  using fixed_probe_summary_ok [OF assms] by (simp add: fixed_size_def)

theorem fixed_probe_bound_witness:
  "\<exists>x. fixed_new 4 (0 :: nat) = Value x \<and> ps_occupied (fixed_probe_summary x) = fixed_size x \<and>
     ps_maximum_probes (fixed_probe_summary x) \<le> fixed_size x"
proof -
  obtain x where x: "fixed_new 4 (0 :: nat) = Value x" "fixed_ok x"
    using fixed_new_ok [of 4 "0 :: nat"] by auto
  from fixed_probe_bound [OF x(2)] x(1) show ?thesis by auto
qed

end
