(* ===== verification/Bitmap_Backshift_Order_Book.thy ===== *)
theory Bitmap_Backshift_Order_Book
  imports Bitmap_Levels Fixed_Order_Index
begin

text \<open>
  Version 5, \<open>llab::bitmap_backshift_order_book::OrderBook\<close>
  (\<open>cpp/include/llab/bitmap_backshift_order_book.hpp\<close>,
  \<open>cpp/src/bitmap_backshift_order_book.cpp\<close>): orders in the fixed index with backward-shift
  deletion, over the bitmap ladder. \<open>add\<close> inserts the order before it increases the level.
\<close>

section \<open>State\<close>

record backshift_book =
  bb_orders :: "order fixed_index"
  bb_levels :: bitmap_levels
  bb_live :: u64

definition bb_no_order :: order where
  "bb_no_order = \<lparr>ord_side = Bid, ord_price_ticks = 0, ord_remaining_quantity = 0\<rparr>"

definition bb_new :: "u64 \<Rightarrow> price \<Rightarrow> u64 \<Rightarrow> backshift_book result" where
  "bb_new maximum minimum price_count =
     (case fixed_new maximum bb_no_order of
        Value x \<Rightarrow>
          if unat price_count \<noteq> kPriceCount \<or> minimum > uint64_max - (of_nat kPriceCount - 1)
          then Raise (Invalid_argument ''v5 requires 256 valid prices'')
          else Value \<lparr>bb_orders = x, bb_levels = bm_new minimum, bb_live = 0\<rparr>
      | Raise e \<Rightarrow> Raise e
      | Loops \<Rightarrow> Loops)"

section \<open>Order operations\<close>

definition bb_add_level :: "backshift_book \<Rightarrow> side \<Rightarrow> price \<Rightarrow> quantity \<Rightarrow> backshift_book outcome" where
  "bb_add_level b s p q = within (\<lambda>l. b\<lparr>bb_levels := l\<rparr>) (bm_add_level (bb_levels b) s p q)"

definition bb_subtract_level :: "backshift_book \<Rightarrow> side \<Rightarrow> price \<Rightarrow> quantity \<Rightarrow> backshift_book outcome" where
  "bb_subtract_level b s p q = within (\<lambda>l. b\<lparr>bb_levels := l\<rparr>) (bm_subtract_level (bb_levels b) s p q)"

definition bb_add :: "backshift_book \<Rightarrow> order_id \<Rightarrow> side \<Rightarrow> price \<Rightarrow> quantity \<Rightarrow> backshift_book outcome" where
  "bb_add b oid s p q =
     (if oid = 0 \<or> q = 0 then Threw (Invalid_argument ''add'') b
      else case fixed_insert (bb_orders b) oid \<lparr>ord_side = s, ord_price_ticks = p, ord_remaining_quantity = q\<rparr> of
             None \<Rightarrow> Threw (Invalid_argument ''index'') b
           | Some x \<Rightarrow>
               seq (bb_add_level (b\<lparr>bb_orders := x\<rparr>) s p q)
                 (\<lambda>b. Done (b\<lparr>bb_live := bb_live b + 1\<rparr>)))"

definition bb_remove :: "backshift_book \<Rightarrow> order_id \<Rightarrow> backshift_book outcome" where
  "bb_remove b oid =
     (case fixed_find (bb_orders b) oid of
        None \<Rightarrow> Threw (Invalid_argument ''id'') b
      | Some r \<Rightarrow>
          seq (bb_subtract_level b (ord_side r) (ord_price_ticks r) (ord_remaining_quantity r))
            (\<lambda>b. with_value b (fixed_erase (bb_orders b) oid)
              (\<lambda>(_, x). Done (b\<lparr>bb_orders := x, bb_live := bb_live b - 1\<rparr>))))"

definition bb_reduce :: "backshift_book \<Rightarrow> order_id \<Rightarrow> quantity \<Rightarrow> bool \<Rightarrow> backshift_book outcome" where
  "bb_reduce b oid q full =
     (case fixed_find (bb_orders b) oid of
        None \<Rightarrow> Threw (Invalid_argument ''id'') b
      | Some r \<Rightarrow>
          if q = 0 \<or> q > ord_remaining_quantity r \<or> (\<not> full \<and> q = ord_remaining_quantity r)
          then Threw (Invalid_argument ''reduce'') b
          else seq (bb_subtract_level b (ord_side r) (ord_price_ticks r) q)
                 (\<lambda>b. if q = ord_remaining_quantity r
                      then with_value b (fixed_erase (bb_orders b) oid)
                             (\<lambda>(_, x). Done (b\<lparr>bb_orders := x, bb_live := bb_live b - 1\<rparr>))
                      else Done (b\<lparr>bb_orders := fixed_store (bb_orders b) oid
                                     (r\<lparr>ord_remaining_quantity := ord_remaining_quantity r - q\<rparr>)\<rparr>)))"

definition bb_upsert :: "backshift_book \<Rightarrow> order_id \<Rightarrow> side \<Rightarrow> price \<Rightarrow> quantity \<Rightarrow> backshift_book outcome" where
  "bb_upsert b oid s p q =
     (if oid = 0 \<or> q = 0 then Threw (Invalid_argument ''upsert'') b
      else case fixed_find (bb_orders b) oid of
             None \<Rightarrow> bb_add b oid s p q
           | Some r \<Rightarrow>
               seq (bb_subtract_level b (ord_side r) (ord_price_ticks r) (ord_remaining_quantity r))
                 (\<lambda>b. seq (bb_add_level b s p q)
                   (\<lambda>b. Done (b\<lparr>bb_orders := fixed_store (bb_orders b) oid
                           \<lparr>ord_side = s, ord_price_ticks = p, ord_remaining_quantity = q\<rparr>\<rparr>))))"

definition bb_apply :: "backshift_book \<Rightarrow> event \<Rightarrow> backshift_book outcome" where
  "bb_apply b e =
     (case ev_type e of
        Add \<Rightarrow> bb_add b (ev_order_id e) (ev_side e) (ev_price_ticks e) (ev_quantity e)
      | Cancel \<Rightarrow> bb_reduce b (ev_order_id e) (ev_quantity e) False
      | Execute \<Rightarrow> bb_reduce b (ev_order_id e) (ev_quantity e) True
      | Delete \<Rightarrow> bb_remove b (ev_order_id e)
      | OrderDelete \<Rightarrow> bb_remove b (ev_order_id e)
      | Replace \<Rightarrow>
          if ev_order_id e = ev_replacement_order_id e then Threw (Invalid_argument ''replace id'') b
          else seq (bb_remove b (ev_order_id e))
                 (\<lambda>b. bb_add b (ev_replacement_order_id e) (ev_side e) (ev_price_ticks e) (ev_quantity e))
      | OrderUpsert \<Rightarrow> bb_upsert b (ev_order_id e) (ev_side e) (ev_price_ticks e) (ev_quantity e))"

section \<open>Observers\<close>

definition bb_best :: "backshift_book \<Rightarrow> side \<Rightarrow> level option" where
  "bb_best b s = bm_best (bb_levels b) s"

definition bb_best_bid :: "backshift_book \<Rightarrow> level option" where
  "bb_best_bid b = bb_best b Bid"

definition bb_best_ask :: "backshift_book \<Rightarrow> level option" where
  "bb_best_ask b = bb_best b Ask"

definition bb_order_index_capacity :: "backshift_book \<Rightarrow> nat" where
  "bb_order_index_capacity b = fixed_capacity (bb_orders b)"

definition bb_order_index_total_probes :: "backshift_book \<Rightarrow> u64" where
  "bb_order_index_total_probes b = ps_total_probes (fixed_probe_summary (bb_orders b))"

definition bb_order_index_maximum_probes :: "backshift_book \<Rightarrow> u64" where
  "bb_order_index_maximum_probes b = ps_maximum_probes (fixed_probe_summary (bb_orders b))"

definition bb_state_digest :: "backshift_book \<Rightarrow> u64" where
  "bb_state_digest b =
     digest (bb_live b)
       (ladder_list (bm_minimum_price (bb_levels b)) (bm_bids (bb_levels b)))
       (ladder_list (bm_minimum_price (bb_levels b)) (bm_asks (bb_levels b)))
       (sorted_entries (bb_orders b))"

section \<open>The book refines the specification\<close>

definition bb_view :: "backshift_book \<Rightarrow> orders" where
  "bb_view b = fixed_map (bb_orders b)"

definition bb_index_ok :: "nat \<Rightarrow> backshift_book \<Rightarrow> bool" where
  "bb_index_ok n b = index_ok n (bb_orders b) (bb_live b)"

abbreviation bb_ok :: "nat \<Rightarrow> price \<Rightarrow> backshift_book \<Rightarrow> bool" where
  "bb_ok n base \<equiv> book_ok (bb_index_ok n) bb_levels (bm_ok base) bm_lvl bb_view"

interpretation bbi: indexed_book bm_add_level bm_subtract_level bm_lvl "bm_ok base" "in_ladder base kPriceCount"
  bb_levels bb_view "bb_index_ok n" n for base n
  by unfold_locales (simp add: bb_index_ok_def bb_view_def index_okD)

lemma bb_okD:
  assumes "bb_ok n base b"
  shows "index_ok n (bb_orders b) (bb_live b)" "bm_minimum_price (bb_levels b) = base"
  using assms bm_okD(2) by (auto simp: book_ok_def bb_index_ok_def)

lemma bb_new_ok:
  assumes "unat maximum \<le> 2 ^ 62" "base \<le> uint64_max - 255"
  shows "\<exists>b. bb_new maximum base 256 = Value b \<and> bb_ok (unat maximum) base b \<and> bb_view b = Map.empty"
proof -
  obtain x where x: "fixed_new maximum bb_no_order = Value x" "fixed_ok x" "fixed_map x = Map.empty"
      "fx_maximum_live_entries x = maximum"
    using fixed_new_ok [OF assms(1), of bb_no_order] by auto
  let ?b = "\<lparr>bb_orders = x, bb_levels = bm_new base, bb_live = 0\<rparr>"
  have new: "bb_new maximum base 256 = Value ?b"
    using assms(2) by (simp add: bb_new_def x(1) kPriceCount_def)
  have "ladder_fits base kPriceCount"
    using assms(2) by (simp add: ladder_fits_def kPriceCount_def word_le_nat_alt)
  then have "bb_ok (unat maximum) base ?b" "bb_view ?b = Map.empty"
    using x by (simp_all add: book_ok_def bb_index_ok_def bb_view_def levels_match_def bm_new_ok index_ok_def)
  with new show ?thesis by blast
qed

lemmas bb_defs = bb_add_def bb_remove_def bb_reduce_def bb_upsert_def bb_add_level_def bb_subtract_level_def
  bb_index_ok_def bb_view_def Let_def

lemma bb_add_refines:
  assumes ok: "bb_ok n base b" and r: "r = \<lparr>ord_side = s, ord_price_ticks = p, ord_remaining_quantity = q\<rparr>"
  shows "refines bb_view (bb_ok n base) (bb_add b i s p q)
     (if card (dom (bb_view b)) < n \<and> in_ladder base kPriceCount p then l3_add (bb_view b) i r else None)"
proof (intro bbi.add_rule [OF ok r])
  note t = bb_okD(1) [OF ok]
  show "\<exists>x b'. bb_add b i s p q = Threw x b'"
    if "i = 0 \<or> q = 0 \<or> bb_view b i \<noteq> None \<or> \<not> card (dom (bb_view b)) < n"
    using index_insert_refused [OF t, of i] that by (auto simp: bb_defs)
qed (use index_insert [OF bb_okD(1) [OF ok], of i r] in \<open>auto simp: bb_defs r\<close>)

lemma bb_remove_refines:
  assumes ok: "bb_ok n base b"
  shows "refines bb_view (bb_ok n base) (bb_remove b i) (l3_remove (bb_view b) i)"
  using index_okD(6) [OF bb_okD(1) [OF ok], of i] index_erase [OF bb_okD(1) [OF ok], of i]
  by (intro bbi.remove_rule [OF ok]) (auto simp: bb_defs)

lemma bb_reduce_refines:
  assumes ok: "bb_ok n base b"
  shows "refines bb_view (bb_ok n base) (bb_reduce b i q full) (l3_reduce (bb_view b) i q full)"
  using index_okD(6) [OF bb_okD(1) [OF ok], of i] index_erase [OF bb_okD(1) [OF ok], of i]
    index_store [OF bb_okD(1) [OF ok], of i]
  by (intro bbi.reduce_rule [OF ok]) (auto simp: bb_defs l3_reduce_def split: option.splits if_splits)

lemma bb_upsert_refines:
  assumes ok: "bb_ok n base b" and r: "r = \<lparr>ord_side = s, ord_price_ticks = p, ord_remaining_quantity = q\<rparr>"
  shows "refines bb_view (bb_ok n base) (bb_upsert b i s p q)
     (if (bb_view b i = None \<longrightarrow> card (dom (bb_view b)) < n) \<and> in_ladder base kPriceCount p
      then l3_upsert (bb_view b) i r else None)"
proof (intro bbi.upsert_rule [OF ok r])
  show "refines bb_view (bb_ok n base) (bb_upsert b i s p q)
      (if card (dom (bb_view b)) < n \<and> in_ladder base kPriceCount p then l3_add (bb_view b) i r else None)"
    if "i \<noteq> 0" "q \<noteq> 0" "bb_view b i = None"
  proof -
    have "bb_upsert b i s p q = bb_add b i s p q"
      using that index_okD(6) [OF bb_okD(1) [OF ok], of i] by (simp add: bb_upsert_def bb_view_def)
    then show ?thesis using bb_add_refines [OF ok r] by simp
  qed
qed (use index_okD(6) [OF bb_okD(1) [OF ok], of i] index_store [OF bb_okD(1) [OF ok], of i] in
      \<open>auto simp: bb_defs r\<close>)

lemma bb_best_spec:
  assumes ok: "bb_ok n base b"
  shows "bb_best_bid b = spec_best (bb_view b) Bid" "bb_best_ask b = spec_best (bb_view b) Ask"
  using bm_best_spec(1) [OF book_okD(2,3) [OF ok]] by (simp_all add: bb_best_bid_def bb_best_ask_def bb_best_def)

lemma bb_digest:
  assumes ok: "bb_ok n base b"
  shows "bb_state_digest b = spec_digest (bb_view b)"
  using sorted_entries_map [OF index_okD(1) [OF bb_okD(1) [OF ok]]] index_okD(3) [OF bb_okD(1) [OF ok]]
    bb_okD(2) [OF ok] bm_best_spec(2) [OF book_okD(2,3) [OF ok], of Bid] bm_best_spec(2) [OF book_okD(2,3) [OF ok], of Ask]
  by (simp add: bb_state_digest_def spec_digest_def bm_ladder_def spec_orders_def bb_view_def)

interpretation bb: l3_book bb_apply bb_add bb_remove bb_reduce bb_upsert
  "Invalid_argument ''replace id''" bb_view "bb_ok n base" n "in_ladder base kPriceCount"
  "\<lambda>b. Value (bb_best_bid b)" "\<lambda>b. Value (bb_best_ask b)" bb_live "\<lambda>b. Value (bb_state_digest b)" for n base
proof unfold_locales
  fix b assume ok: "bb_ok n base b"
  show "card (dom (bb_view b)) \<le> n" "bb_live b = of_nat (card (dom (bb_view b)))"
    using index_okD(3,4) [OF bb_okD(1) [OF ok]] by (simp_all add: bb_view_def)
  show "Value (bb_best_bid b) = Value (spec_best (bb_view b) Bid)"
    "Value (bb_best_ask b) = Value (spec_best (bb_view b) Ask)"
    "Value (bb_state_digest b) = Value (spec_digest (bb_view b))"
    using bb_best_spec [OF ok] bb_digest [OF ok] by simp_all
qed (simp add: bb_apply_def dispatch_def eq_commute cong: if_cong,
     (rule bb_add_refines bb_remove_refines bb_reduce_refines bb_upsert_refines; assumption)+)

section \<open>A refused add\<close>

text \<open>Orders whose price is outside the ladder, such as a refused add leaves in the index, cannot be changed.\<close>

lemma bb_add_out_of_ladder:
  assumes ok: "bb_ok n base b" and "i \<noteq> 0" "q \<noteq> 0" "bb_view b i = None" "card (dom (bb_view b)) < n"
    and out: "\<not> in_ladder base kPriceCount p" and r: "r = \<lparr>ord_side = s, ord_price_ticks = p, ord_remaining_quantity = q\<rparr>"
  shows "\<exists>b'. bb_add b i s p q = Threw (Invalid_argument ''price'') b' \<and> fixed_ok (bb_orders b') \<and>
     bb_view b' = (bb_view b)(i \<mapsto> r) \<and> bb_levels b' = bb_levels b \<and> bb_live b' = bb_live b"
proof -
  from index_insert [OF bb_okD(1) [OF ok], of i r] assms obtain x where
    x: "fixed_insert (bb_orders b) i r = Some x" "index_ok n x (bb_live b + 1)" "fixed_map x = (fixed_map (bb_orders b))(i \<mapsto> r)"
    by (auto simp: bb_view_def)
  then show ?thesis
    using assms(2,3) index_okD(1) [OF x(2)] bm_out_of_ladder(1) [OF book_okD(2) [OF ok] out] by (simp add: bb_defs r)
qed

lemma bb_stuck_order:
  assumes f: "fixed_ok (bb_orders b)" and l: "bm_ok base (bb_levels b)"
    and v: "bb_view b i = Some r" "\<not> in_ladder base kPriceCount (ord_price_ticks r)" and e: "ev_order_id e = i"
  shows "\<exists>x. bb_apply b e = Threw x b"
proof -
  have found: "fixed_find (bb_orders b) i = Some r" using v(1) by (simp add: bb_view_def fixed_find_map [OF f])
  have refused: "fixed_insert (bb_orders b) i w = None" for w using fixed_insert_refused [OF f] v(1) by (simp add: bb_view_def)
  have sub: "bm_subtract_level (bb_levels b) (ord_side r) (ord_price_ticks r) q = Threw (Invalid_argument ''price'') (bb_levels b)" for q
    by (rule bm_out_of_ladder(2) [OF l v(2)])
  show ?thesis by (cases "ev_type e") (simp_all add: bb_apply_def bb_defs e found refused sub)
qed

text \<open>
  C4. Version 5 implements the specification on every event: where the specification (with the version's
  maximum of live orders and price range) has a transition, \<open>apply\<close> returns a well-formed book that represents its result; where it
  has none, \<open>apply\<close> throws.
\<close>

theorem bitmap_backshift_order_book_refines_spec:
  assumes "bb_ok n base b"
  shows "refines bb_view (bb_ok n base) (bb_apply b e) (admitted n (in_ladder base kPriceCount) (bb_view b) e)"
  using assms by (rule bb.apply_refines)

theorem bitmap_backshift_order_book_refines_spec_witness:
  "\<exists>b. bb_new 4 1000 256 = Value b \<and>
     refines bb_view (bb_ok 4 1000) (bb_apply b sample_add) (admitted 4 (in_ladder 1000 kPriceCount) (bb_view b) sample_add)"
proof -
  obtain b where b: "bb_new 4 1000 256 = Value b" "bb_ok 4 1000 b"
    using bb_new_ok [of 4 1000] by auto
  from bitmap_backshift_order_book_refines_spec [OF b(2), of sample_add] b(1) show ?thesis by blast
qed

end
