(* ===== verification/Bitmap_Packed_Order_Book.thy ===== *)
theory Bitmap_Packed_Order_Book
  imports Packed_Order Fixed_Order_Index
begin

text \<open>
  Version 6, \<open>llab::bitmap_packed_order_book::OrderBook\<close>
  (\<open>cpp/include/llab/bitmap_packed_order_book.hpp\<close>,
  \<open>cpp/src/bitmap_packed_order_book.cpp\<close>): packed orders in the fixed index with
  backward-shift deletion, over the bitmap ladder.
\<close>

section \<open>State\<close>

record packed_book =
  bp_orders :: "packed_order fixed_index"
  bp_levels :: bitmap_levels
  bp_live :: u64

definition bp_new :: "u64 \<Rightarrow> price \<Rightarrow> u64 \<Rightarrow> packed_book result" where
  "bp_new maximum minimum price_count =
     (case fixed_new maximum no_packed_order of
        Value x \<Rightarrow>
          if unat price_count \<noteq> kPriceCount \<or> minimum > uint64_max - (of_nat kPriceCount - 1)
          then Raise (Invalid_argument ''v6 requires 256 valid prices'')
          else Value \<lparr>bp_orders = x, bp_levels = bm_new minimum, bp_live = 0\<rparr>
      | Raise e \<Rightarrow> Raise e
      | Loops \<Rightarrow> Loops)"

section \<open>Order operations\<close>

definition bp_offset :: "packed_book \<Rightarrow> price \<Rightarrow> nat result" where
  "bp_offset b p = bm_offset (bp_levels b) p"

definition bp_add_level :: "packed_book \<Rightarrow> side \<Rightarrow> price \<Rightarrow> quantity \<Rightarrow> packed_book outcome" where
  "bp_add_level b s p q = within (\<lambda>l. b\<lparr>bp_levels := l\<rparr>) (bm_add_level (bp_levels b) s p q)"

definition bp_subtract_level :: "packed_book \<Rightarrow> side \<Rightarrow> price \<Rightarrow> quantity \<Rightarrow> packed_book outcome" where
  "bp_subtract_level b s p q = within (\<lambda>l. b\<lparr>bp_levels := l\<rparr>) (bm_subtract_level (bp_levels b) s p q)"

text \<open>\<open>minimum_price_ + order.offset()\<close>.\<close>

definition bp_price_of :: "packed_book \<Rightarrow> packed_order \<Rightarrow> price" where
  "bp_price_of b r = bm_minimum_price (bp_levels b) + of_nat (po_offset r)"

definition bp_add :: "packed_book \<Rightarrow> order_id \<Rightarrow> side \<Rightarrow> price \<Rightarrow> quantity \<Rightarrow> packed_book outcome" where
  "bp_add b oid s p q =
     (if oid = 0 \<or> q = 0 then Threw (Invalid_argument ''add'') b
      else with_value b (bp_offset b p) (\<lambda>price_offset.
        case fixed_insert (bp_orders b) oid (po_make s price_offset q) of
          None \<Rightarrow> Threw (Invalid_argument ''index'') b
        | Some x \<Rightarrow>
            seq (bp_add_level (b\<lparr>bp_orders := x\<rparr>) s p q)
              (\<lambda>b. Done (b\<lparr>bp_live := bp_live b + 1\<rparr>))))"

definition bp_remove :: "packed_book \<Rightarrow> order_id \<Rightarrow> packed_book outcome" where
  "bp_remove b oid =
     (case fixed_find (bp_orders b) oid of
        None \<Rightarrow> Threw (Invalid_argument ''id'') b
      | Some r \<Rightarrow>
          seq (bp_subtract_level b (po_side r) (bp_price_of b r) (po_quantity r))
            (\<lambda>b. with_value b (fixed_erase (bp_orders b) oid)
              (\<lambda>(_, x). Done (b\<lparr>bp_orders := x, bp_live := bp_live b - 1\<rparr>))))"

definition bp_reduce :: "packed_book \<Rightarrow> order_id \<Rightarrow> quantity \<Rightarrow> bool \<Rightarrow> packed_book outcome" where
  "bp_reduce b oid q full =
     (case fixed_find (bp_orders b) oid of
        None \<Rightarrow> Threw (Invalid_argument ''id'') b
      | Some r \<Rightarrow>
          if q = 0 \<or> q > po_quantity r \<or> (\<not> full \<and> q = po_quantity r)
          then Threw (Invalid_argument ''reduce'') b
          else seq (bp_subtract_level b (po_side r) (bp_price_of b r) q)
                 (\<lambda>b. if q = po_quantity r
                      then with_value b (fixed_erase (bp_orders b) oid)
                             (\<lambda>(_, x). Done (b\<lparr>bp_orders := x, bp_live := bp_live b - 1\<rparr>))
                      else Done (b\<lparr>bp_orders := fixed_store (bp_orders b) oid
                                     (r\<lparr>po_quantity := po_quantity r - q\<rparr>)\<rparr>)))"

text \<open>The offset of the new price is computed again after the levels are written.\<close>

definition bp_upsert :: "packed_book \<Rightarrow> order_id \<Rightarrow> side \<Rightarrow> price \<Rightarrow> quantity \<Rightarrow> packed_book outcome" where
  "bp_upsert b oid s p q =
     (if oid = 0 \<or> q = 0 then Threw (Invalid_argument ''upsert'') b
      else case fixed_find (bp_orders b) oid of
             None \<Rightarrow> bp_add b oid s p q
           | Some r \<Rightarrow>
               seq (bp_subtract_level b (po_side r) (bp_price_of b r) (po_quantity r))
                 (\<lambda>b. seq (bp_add_level b s p q)
                   (\<lambda>b. with_value b (bp_offset b p)
                     (\<lambda>i. Done (b\<lparr>bp_orders := fixed_store (bp_orders b) oid (po_make s i q)\<rparr>)))))"

definition bp_apply :: "packed_book \<Rightarrow> event \<Rightarrow> packed_book outcome" where
  "bp_apply b e =
     (case ev_type e of
        Add \<Rightarrow> bp_add b (ev_order_id e) (ev_side e) (ev_price_ticks e) (ev_quantity e)
      | Cancel \<Rightarrow> bp_reduce b (ev_order_id e) (ev_quantity e) False
      | Execute \<Rightarrow> bp_reduce b (ev_order_id e) (ev_quantity e) True
      | Delete \<Rightarrow> bp_remove b (ev_order_id e)
      | OrderDelete \<Rightarrow> bp_remove b (ev_order_id e)
      | Replace \<Rightarrow>
          if ev_order_id e = ev_replacement_order_id e then Threw (Invalid_argument ''replace id'') b
          else seq (bp_remove b (ev_order_id e))
                 (\<lambda>b. bp_add b (ev_replacement_order_id e) (ev_side e) (ev_price_ticks e) (ev_quantity e))
      | OrderUpsert \<Rightarrow> bp_upsert b (ev_order_id e) (ev_side e) (ev_price_ticks e) (ev_quantity e))"

section \<open>Observers\<close>

definition bp_best :: "packed_book \<Rightarrow> side \<Rightarrow> level option" where
  "bp_best b s = bm_best (bp_levels b) s"

definition bp_best_bid :: "packed_book \<Rightarrow> level option" where
  "bp_best_bid b = bp_best b Bid"

definition bp_best_ask :: "packed_book \<Rightarrow> level option" where
  "bp_best_ask b = bp_best b Ask"

definition bp_order_index_capacity :: "packed_book \<Rightarrow> nat" where
  "bp_order_index_capacity b = fixed_capacity (bp_orders b)"

definition bp_order_index_total_probes :: "packed_book \<Rightarrow> u64" where
  "bp_order_index_total_probes b = ps_total_probes (fixed_probe_summary (bp_orders b))"

definition bp_order_index_maximum_probes :: "packed_book \<Rightarrow> u64" where
  "bp_order_index_maximum_probes b = ps_maximum_probes (fixed_probe_summary (bp_orders b))"

definition bp_state_digest :: "packed_book \<Rightarrow> u64" where
  "bp_state_digest b =
     digest (bp_live b)
       (ladder_list (bm_minimum_price (bp_levels b)) (bm_bids (bp_levels b)))
       (ladder_list (bm_minimum_price (bp_levels b)) (bm_asks (bp_levels b)))
       (map (\<lambda>(oid, r). (oid, unpack (bm_minimum_price (bp_levels b)) r)) (sorted_entries (bp_orders b)))"

section \<open>The book refines the specification\<close>

definition bp_view :: "packed_book \<Rightarrow> orders" where
  "bp_view b = unpack_map (bm_minimum_price (bp_levels b)) (fixed_map (bp_orders b))"

definition bp_index_ok :: "nat \<Rightarrow> packed_book \<Rightarrow> bool" where
  "bp_index_ok n b = index_ok n (bp_orders b) (bp_live b)"

abbreviation bp_ok :: "nat \<Rightarrow> price \<Rightarrow> packed_book \<Rightarrow> bool" where
  "bp_ok n base \<equiv> book_ok (bp_index_ok n) bp_levels (bm_ok base) bm_lvl bp_view"

interpretation bpi: indexed_book bm_add_level bm_subtract_level bm_lvl "bm_ok base" "in_ladder base kPriceCount"
  bp_levels bp_view "bp_index_ok n" n for base n
  by unfold_locales (simp add: bp_index_ok_def bp_view_def index_okD)

lemma bp_okD:
  assumes "bp_ok n base b"
  shows "index_ok n (bp_orders b) (bp_live b)" "bm_minimum_price (bp_levels b) = base"
  using assms bm_okD(2) by (auto simp: book_ok_def bp_index_ok_def)

lemma bp_new_ok:
  assumes "unat maximum \<le> 2 ^ 62" "base \<le> uint64_max - 255"
  shows "\<exists>b. bp_new maximum base 256 = Value b \<and> bp_ok (unat maximum) base b \<and> bp_view b = Map.empty"
proof -
  obtain x where x: "fixed_new maximum no_packed_order = Value x" "fixed_ok x" "fixed_map x = Map.empty"
      "fx_maximum_live_entries x = maximum"
    using fixed_new_ok [OF assms(1), of no_packed_order] by auto
  let ?b = "\<lparr>bp_orders = x, bp_levels = bm_new base, bp_live = 0\<rparr>"
  have new: "bp_new maximum base 256 = Value ?b"
    using assms(2) by (simp add: bp_new_def x(1) kPriceCount_def)
  have "ladder_fits base kPriceCount"
    using assms(2) by (simp add: ladder_fits_def kPriceCount_def word_le_nat_alt)
  then have "bp_ok (unat maximum) base ?b" "bp_view ?b = Map.empty"
    using x by (simp_all add: book_ok_def bp_index_ok_def bp_view_def levels_match_def bm_new_ok index_ok_def)
  with new show ?thesis by blast
qed

lemmas bp_defs = bp_offset_def bp_add_def bp_remove_def bp_reduce_def bp_upsert_def bp_add_level_def bp_subtract_level_def
  bp_price_of_def bp_index_ok_def bp_view_def Let_def

lemma bp_viewE:
  assumes "bp_view b i = Some r"
  obtains r' where "fixed_map (bp_orders b) i = Some r'" "r = unpack (bm_minimum_price (bp_levels b)) r'"
  using assms by (auto simp: bp_view_def unpack_map_Some)

lemma bp_add_refines:
  assumes ok: "bp_ok n base b" and r: "r = \<lparr>ord_side = s, ord_price_ticks = p, ord_remaining_quantity = q\<rparr>"
  shows "refines bp_view (bp_ok n base) (bp_add b i s p q)
     (if card (dom (bp_view b)) < n \<and> in_ladder base kPriceCount p then l3_add (bp_view b) i r else None)"
proof (intro bpi.add_rule [OF ok r])
  note t = bp_okD(1) [OF ok] and base = bp_okD(2) [OF ok]
  show "\<exists>x b'. bp_add b i s p q = Threw x b'"
    if "i = 0 \<or> q = 0 \<or> bp_view b i \<noteq> None \<or> \<not> card (dom (bp_view b)) < n"
    using index_insert_refused [OF t, of i] that by (auto simp: bp_defs intro!: bm_offset_threw)
  show "\<exists>b'. bp_add b i s p q = Done b' \<and> bp_index_ok n b' \<and> bp_levels b' = l' \<and> bp_view b' = (bp_view b)(i \<mapsto> r)"
    if z: "i \<noteq> 0" "q \<noteq> 0" "bp_view b i = None" "card (dom (bp_view b)) < n"
      and add: "bm_add_level (bp_levels b) s p q = Done l'" for l'
  proof -
    note off = bm_add_offset [OF add] and m = bm_add_minimum [OF add]
    obtain x where x: "fixed_insert (bp_orders b) i (po_make s (unat (p - base)) q) = Some x"
        "index_ok n x (bp_live b + 1)" "fixed_map x = (fixed_map (bp_orders b))(i \<mapsto> po_make s (unat (p - base)) q)"
      using index_insert [OF t z(1), of "po_make s (unat (p - base)) q"] z by (auto simp: bp_view_def)
    show ?thesis
      using z add x off m base unpack_make [of base p s q] by (simp add: bp_defs r)
  qed
  show "\<exists>x b'. bp_add b i s p q = Threw x b'"
    if "i \<noteq> 0" "q \<noteq> 0" "bm_add_level (bp_levels b) s p q = Threw x l'" for x l'
    using that by (auto simp: bp_defs intro!: bm_offset_threw split: option.split)
qed

lemma bp_remove_refines:
  assumes ok: "bp_ok n base b"
  shows "refines bp_view (bp_ok n base) (bp_remove b i) (l3_remove (bp_view b) i)"
proof (intro bpi.remove_rule [OF ok])
  note find = index_okD(6) [OF bp_okD(1) [OF ok], of i]
  show "\<exists>x b'. bp_remove b i = Threw x b'" if "bp_view b i = None"
    using that find by (simp add: bp_defs)
  show "\<exists>b'. bp_remove b i = Done b' \<and> bp_index_ok n b' \<and> bp_levels b' = l' \<and> bp_view b' = (bp_view b)(i := None)"
    if r: "bp_view b i = Some r"
      and sub: "bm_subtract_level (bp_levels b) (ord_side r) (ord_price_ticks r) (ord_remaining_quantity r) = Done l'" for r l'
  proof -
    obtain r' where r': "fixed_map (bp_orders b) i = Some r'" "r = unpack (bm_minimum_price (bp_levels b)) r'"
      using r by (rule bp_viewE)
    show ?thesis
      using index_erase [OF bp_okD(1) [OF ok] r'(1)] find sub bm_subtract_minimum [OF sub] r' by (auto simp: bp_defs)
  qed
qed

lemma bp_reduce_refines:
  assumes ok: "bp_ok n base b"
  shows "refines bp_view (bp_ok n base) (bp_reduce b i q full) (l3_reduce (bp_view b) i q full)"
proof (intro bpi.reduce_rule [OF ok])
  note find = index_okD(6) [OF bp_okD(1) [OF ok], of i]
  show "\<exists>x b'. bp_reduce b i q full = Threw x b'" if "l3_reduce (bp_view b) i q full = None"
    using that find by (cases "fixed_map (bp_orders b) i")
      (auto simp: bp_defs unpack_map_def l3_reduce_def split: if_splits)
  show "\<exists>b'. bp_reduce b i q full = Done b' \<and> bp_index_ok n b' \<and> bp_levels b' = l' \<and>
      bp_view b' = (if q = ord_remaining_quantity r then (bp_view b)(i := None)
        else (bp_view b)(i \<mapsto> r\<lparr>ord_remaining_quantity := ord_remaining_quantity r - q\<rparr>))"
    if r: "bp_view b i = Some r" and g: "q \<noteq> 0" "q \<le> ord_remaining_quantity r" "full \<or> q \<noteq> ord_remaining_quantity r"
      and sub: "bm_subtract_level (bp_levels b) (ord_side r) (ord_price_ticks r) q = Done l'" for r l'
  proof -
    obtain r' where r': "fixed_map (bp_orders b) i = Some r'" "r = unpack (bm_minimum_price (bp_levels b)) r'"
      using r by (rule bp_viewE)
    note st = index_store [OF bp_okD(1) [OF ok] r'(1)] and m = bm_subtract_minimum [OF sub]
    obtain x where x: "fixed_erase (bp_orders b) i = Value (Some r', x)" "index_ok n x (bp_live b - 1)"
        "fixed_map x = (fixed_map (bp_orders b))(i := None)"
      using index_erase [OF bp_okD(1) [OF ok] r'(1)] by auto
    show ?thesis
      using g sub find r' x st m by (cases "q = po_quantity r'") (simp_all add: bp_defs not_less)
  qed
qed

lemma bp_upsert_refines:
  assumes ok: "bp_ok n base b" and r: "r = \<lparr>ord_side = s, ord_price_ticks = p, ord_remaining_quantity = q\<rparr>"
  shows "refines bp_view (bp_ok n base) (bp_upsert b i s p q)
     (if (bp_view b i = None \<longrightarrow> card (dom (bp_view b)) < n) \<and> in_ladder base kPriceCount p
      then l3_upsert (bp_view b) i r else None)"
proof (intro bpi.upsert_rule [OF ok r])
  note find = index_okD(6) [OF bp_okD(1) [OF ok], of i]
  show "refines bp_view (bp_ok n base) (bp_upsert b i s p q)
      (if card (dom (bp_view b)) < n \<and> in_ladder base kPriceCount p then l3_add (bp_view b) i r else None)"
    if "i \<noteq> 0" "q \<noteq> 0" "bp_view b i = None"
  proof -
    have "bp_upsert b i s p q = bp_add b i s p q" using that find by (simp add: bp_upsert_def bp_view_def)
    then show ?thesis using bp_add_refines [OF ok r] by simp
  qed
  show "\<exists>b'. bp_upsert b i s p q = Done b' \<and> bp_index_ok n b' \<and> bp_levels b' = l2 \<and> bp_view b' = (bp_view b)(i \<mapsto> r)"
    if z: "i \<noteq> 0" "q \<noteq> 0" and o1: "bp_view b i = Some o1"
      and sub: "bm_subtract_level (bp_levels b) (ord_side o1) (ord_price_ticks o1) (ord_remaining_quantity o1) = Done l1"
      and add: "bm_add_level l1 s p q = Done l2" for o1 l1 l2
  proof -
    obtain r' where r': "fixed_map (bp_orders b) i = Some r'" "o1 = unpack (bm_minimum_price (bp_levels b)) r'"
      using o1 by (rule bp_viewE)
    have m: "bm_minimum_price l1 = base" "bm_minimum_price l2 = base"
      using bm_subtract_minimum [OF sub] bm_add_minimum [OF add] bp_okD(2) [OF ok] by simp_all
    have off: "bm_offset l2 p = Value (unat (p - base))" and p: "in_ladder base kPriceCount p"
      using bm_add_offset [OF add] m bm_offset_minimum [of l2 l1 p] by simp_all
    show ?thesis
      using z r' sub add off m find index_store [OF bp_okD(1) [OF ok] r'(1)] bp_okD(2) [OF ok] unpack_make [OF p, of s q]
      by (simp add: bp_defs r)
  qed
  show "\<exists>x b'. bp_upsert b i s p q = Threw x b'"
    if z: "i \<noteq> 0" "q \<noteq> 0" and o1: "bp_view b i = Some o1"
      and sub: "bm_subtract_level (bp_levels b) (ord_side o1) (ord_price_ticks o1) (ord_remaining_quantity o1) = Done l1"
      and add: "bm_add_level l1 s p q = Threw x l2" for o1 l1 l2 x
    using o1 z sub add find by (auto simp: bp_defs unpack_map_Some)
qed (auto simp: bp_upsert_def)

lemma bp_best_spec:
  assumes ok: "bp_ok n base b"
  shows "bp_best_bid b = spec_best (bp_view b) Bid" "bp_best_ask b = spec_best (bp_view b) Ask"
  using bm_best_spec(1) [OF book_okD(2,3) [OF ok]] by (simp_all add: bp_best_bid_def bp_best_ask_def bp_best_def)

lemma bp_digest:
  assumes ok: "bp_ok n base b"
  shows "bp_state_digest b = spec_digest (bp_view b)"
proof -
  note t = bp_okD [OF ok]
  have ords: "map (\<lambda>(oid, r). (oid, unpack base r)) (sorted_entries (bp_orders b)) = spec_orders (bp_view b)"
    unfolding sorted_entries_map [OF index_okD(1) [OF t(1)]] spec_orders_def bp_view_def t(2) unpack_map_simps map_map
    by (intro map_cong refl) (auto simp: unpack_map_def)
  have "card (dom (bp_view b)) = card (dom (fixed_map (bp_orders b)))" by (simp add: bp_view_def)
  with ords show ?thesis
    using index_okD(3) [OF t(1)] t(2) bm_best_spec(2) [OF book_okD(2,3) [OF ok], of Bid]
      bm_best_spec(2) [OF book_okD(2,3) [OF ok], of Ask]
    by (simp add: bp_state_digest_def spec_digest_def bm_ladder_def)
qed

interpretation bp: l3_book bp_apply bp_add bp_remove bp_reduce bp_upsert
  "Invalid_argument ''replace id''" bp_view "bp_ok n base" n "in_ladder base kPriceCount"
  "\<lambda>b. Value (bp_best_bid b)" "\<lambda>b. Value (bp_best_ask b)" bp_live "\<lambda>b. Value (bp_state_digest b)" for n base
proof unfold_locales
  fix b assume ok: "bp_ok n base b"
  show "card (dom (bp_view b)) \<le> n" "bp_live b = of_nat (card (dom (bp_view b)))"
    using index_okD(3,4) [OF bp_okD(1) [OF ok]] by (simp_all add: bp_view_def)
  show "Value (bp_best_bid b) = Value (spec_best (bp_view b) Bid)"
    "Value (bp_best_ask b) = Value (spec_best (bp_view b) Ask)"
    "Value (bp_state_digest b) = Value (spec_digest (bp_view b))"
    using bp_best_spec [OF ok] bp_digest [OF ok] by simp_all
qed (simp add: bp_apply_def dispatch_def eq_commute cong: if_cong,
     (rule bp_add_refines bp_remove_refines bp_reduce_refines bp_upsert_refines; assumption)+)


text \<open>
  An update subtracts the old level before it tests the new price. If the price is outside the ladder, it throws
  with the order still in the index and no longer in the levels, which then count every other order only.
\<close>

lemma bp_upsert_out_of_ladder:
  assumes ok: "bp_ok n base b" and r: "bp_view b i = Some r" and "q \<noteq> 0" and out: "\<not> in_ladder base kPriceCount p"
  shows "\<exists>b'. bp_upsert b i s p q = Threw (Invalid_argument ''price'') b' \<and> bp_view b' = bp_view b \<and> bp_live b' = bp_live b \<and>
     levels_match (bm_lvl (bp_levels b')) ((bp_view b)(i := None))"
proof -
  note o = book_okD [OF ok]
  have q: "ord_remaining_quantity r \<noteq> 0" and i: "i \<noteq> 0" using valid_ordersD(1) [OF o(4) r] by simp_all
  obtain l' where l': "bm_subtract_level (bp_levels b) (ord_side r) (ord_price_ticks r) (ord_remaining_quantity r) = Done l'"
      "bm_ok base l'" "levels_match (bm_lvl l') ((bp_view b)(i := None))"
    using bm.sub_order_levels [OF o(2,3) r q order_refl] by auto
  obtain r' where r': "fixed_map (bp_orders b) i = Some r'" "r = unpack (bm_minimum_price (bp_levels b)) r'" using r by (rule bp_viewE)
  have "fixed_find (bp_orders b) i = Some r'" using index_okD(6) [OF bp_okD(1) [OF ok], of i] r'(1) by simp
  with l' r' i assms(3) bm_subtract_minimum [OF l'(1)] bm_out_of_ladder(1) [OF l'(2) out] show ?thesis
    by (simp add: bp_defs)
qed

text \<open>
  C3. Version 6 implements the specification on every event: where the specification (with the version's
  maximum of live orders and price range) has a transition, \<open>apply\<close> returns a well-formed book that represents its result; where it
  has none, \<open>apply\<close> throws.
\<close>

theorem bitmap_packed_order_book_refines_spec:
  assumes "bp_ok n base b"
  shows "refines bp_view (bp_ok n base) (bp_apply b e) (admitted n (in_ladder base kPriceCount) (bp_view b) e)"
  using assms by (rule bp.apply_refines)

theorem bitmap_packed_order_book_refines_spec_witness:
  "\<exists>b. bp_new 4 1000 256 = Value b \<and>
     refines bp_view (bp_ok 4 1000) (bp_apply b sample_add) (admitted 4 (in_ladder 1000 kPriceCount) (bp_view b) sample_add)"
proof -
  obtain b where b: "bp_new 4 1000 256 = Value b" "bp_ok 4 1000 b"
    using bp_new_ok [of 4 1000] by auto
  from bitmap_packed_order_book_refines_spec [OF b(2), of sample_add] b(1) show ?thesis by blast
qed

end
