(* ===== verification/Feed_Recovery.thy ===== *)
theory Feed_Recovery
  imports Prelude "HOL-Library.Multiset"
begin

text \<open>
  \<open>llab::FeedSequenceRecovery<Event>\<close> (\<open>cpp/include/llab/feed_sequence_recovery.hpp\<close>): the state
  machine that turns sequenced increments and snapshots into a gap-free stream. The replay buffer is a
  vector of a fixed size with a fill count. \<open>std::sort\<close> leaves the order of equal sequence numbers
  open, so the sort is a parameter of which only its specification is used.
\<close>

section \<open>State and operations\<close>

datatype recovery_state = Live | AwaitingSnapshot | Snapshotting

datatype incremental_result = Apply | IgnoreStale | Gap | Buffered | BufferFull

record 'e feed_recovery =
  fr_replay :: "(u64 \<times> 'e) list"
  fr_replay_size :: nat
  fr_state :: recovery_state
  fr_expected :: u64
  fr_snapshot_last :: u64

definition fr_new :: "nat \<Rightarrow> 'e \<Rightarrow> 'e feed_recovery" where
  "fr_new maximum_replay_events e0 =
     \<lparr>fr_replay = replicate maximum_replay_events (0, e0), fr_replay_size = 0, fr_state = AwaitingSnapshot,
      fr_expected = 0, fr_snapshot_last = 0\<rparr>"

definition fr_expected_sequence :: "'e feed_recovery \<Rightarrow> u64 option" where
  "fr_expected_sequence st = (if fr_state st = Live then Some (fr_expected st) else None)"

text \<open>\<open>ready\<close> is the caller's vector; the new events are appended to it.\<close>

definition on_incremental :: "'e feed_recovery \<Rightarrow> u64 \<Rightarrow> 'e \<Rightarrow> 'e list
    \<Rightarrow> incremental_result \<times> 'e feed_recovery \<times> 'e list" where
  "on_incremental st sequence event ready =
     (if fr_state st = AwaitingSnapshot then (Gap, st, ready)
      else if fr_state st = Snapshotting then
        if sequence \<le> fr_snapshot_last st then (IgnoreStale, st, ready)
        else if fr_replay_size st = length (fr_replay st)
        then (BufferFull, st\<lparr>fr_state := AwaitingSnapshot\<rparr>, ready)
        else (Buffered, st\<lparr>fr_replay := (fr_replay st)[fr_replay_size st := (sequence, event)],
                           fr_replay_size := fr_replay_size st + 1\<rparr>, ready)
      else if sequence < fr_expected st then (IgnoreStale, st, ready)
      else if sequence > fr_expected st then (Gap, st\<lparr>fr_state := AwaitingSnapshot\<rparr>, ready)
      else (Apply, st\<lparr>fr_expected := fr_expected st + 1\<rparr>, ready @ [event]))"

definition begin_snapshot :: "'e feed_recovery \<Rightarrow> u64 \<Rightarrow> 'e feed_recovery" where
  "begin_snapshot st last_sequence =
     st\<lparr>fr_state := Snapshotting, fr_snapshot_last := last_sequence, fr_replay_size := 0\<rparr>"

text \<open>The two loops over the sorted buffer: the test for a gap, and the emission.\<close>

fun check_contiguous :: "u64 \<Rightarrow> (u64 \<times> 'e) list \<Rightarrow> u64 option" where
  "check_contiguous next [] = Some next"
| "check_contiguous next ((s, e) # xs) =
     (if s < next then check_contiguous next xs
      else if s > next then None
      else check_contiguous (next + 1) xs)"

fun emit :: "u64 \<Rightarrow> (u64 \<times> 'e) list \<Rightarrow> 'e list \<Rightarrow> 'e list" where
  "emit emit_sequence [] ready = ready"
| "emit emit_sequence ((s, e) # xs) ready =
     (if s = emit_sequence then emit (emit_sequence + 1) xs (ready @ [e]) else emit emit_sequence xs ready)"

definition finish_snapshot :: "((u64 \<times> 'e) list \<Rightarrow> (u64 \<times> 'e) list) \<Rightarrow> 'e feed_recovery \<Rightarrow> 'e list
    \<Rightarrow> bool \<times> 'e feed_recovery \<times> 'e list" where
  "finish_snapshot sorter st ready =
     (if fr_state st \<noteq> Snapshotting then (False, st, ready)
      else let sorted = sorter (take (fr_replay_size st) (fr_replay st));
               st = st\<lparr>fr_replay := sorted @ drop (fr_replay_size st) (fr_replay st)\<rparr>;
               expected = fr_snapshot_last st + 1;
               rest = dropWhile (\<lambda>(s, _). s < expected) sorted
           in case check_contiguous expected rest of
                None \<Rightarrow> (False, st\<lparr>fr_state := AwaitingSnapshot, fr_replay_size := 0\<rparr>, ready)
              | Some next \<Rightarrow>
                  (True, st\<lparr>fr_replay_size := 0, fr_expected := next, fr_state := Live\<rparr>, emit expected rest ready))"

text \<open>What \<open>std::sort\<close> by sequence number promises.\<close>

definition sort_spec :: "((u64 \<times> 'e) list \<Rightarrow> (u64 \<times> 'e) list) \<Rightarrow> bool" where
  "sort_spec sorter \<longleftrightarrow> (\<forall>xs. mset (sorter xs) = mset xs \<and> sorted (map fst (sorter xs)))"

section \<open>The state machine\<close>

text \<open>
  Messages carry their own sequence number, so that the delivered stream can be inspected. A new
  snapshot replaces the consumer's book: what counts as delivered starts again from it.
\<close>

type_synonym 'p message = "u64 \<times> 'p"

inductive fr_step :: "((u64 \<times> 'p message) list \<Rightarrow> (u64 \<times> 'p message) list)
    \<Rightarrow> 'p message feed_recovery \<times> 'p message list \<Rightarrow> 'p message feed_recovery \<times> 'p message list \<Rightarrow> bool"
  for sorter where
  incremental: "on_incremental st (fst msg) msg ready = (r, st', ready') \<Longrightarrow> fr_step sorter (st, ready) (st', ready')"
| begin_snap: "fr_step sorter (st, ready) (begin_snapshot st last_sequence, [])"
| finish_snap: "finish_snapshot sorter st ready = (ok, st', ready') \<Longrightarrow> fr_step sorter (st, ready) (st', ready')"

inductive fr_reachable :: "((u64 \<times> 'p message) list \<Rightarrow> (u64 \<times> 'p message) list) \<Rightarrow> nat \<Rightarrow> 'p message
    \<Rightarrow> 'p message feed_recovery \<times> 'p message list \<Rightarrow> bool"
  for sorter maximum e0 where
  start: "fr_reachable sorter maximum e0 (fr_new maximum e0, [])"
| step: "fr_reachable sorter maximum e0 c \<Longrightarrow> fr_step sorter c c' \<Longrightarrow> fr_reachable sorter maximum e0 c'"

text \<open>\<open>consecutive s ms\<close>: the messages carry the numbers \<open>s\<close>, \<open>s + 1\<close>, ... in this order.\<close>

definition consecutive :: "u64 \<Rightarrow> 'p message list \<Rightarrow> bool" where
  "consecutive s ms \<longleftrightarrow> (\<forall>i < length ms. fst (ms ! i) = s + of_nat i)"

definition replay_buffer :: "'e feed_recovery \<Rightarrow> (u64 \<times> 'e) list" where
  "replay_buffer st = take (fr_replay_size st) (fr_replay st)"

definition recovery_inv :: "'p message feed_recovery \<times> 'p message list \<Rightarrow> bool" where
  "recovery_inv = (\<lambda>(st, ready).
     fr_replay_size st \<le> length (fr_replay st) \<and>
     (\<forall>b \<in> set (replay_buffer st). fst (snd b) = fst b) \<and>
     (fr_state st = Snapshotting \<longrightarrow> (\<forall>b \<in> set (replay_buffer st). fr_snapshot_last st < fst b)) \<and>
     consecutive (fr_snapshot_last st + 1) ready \<and>
     (fr_state st = Snapshotting \<longrightarrow> ready = []) \<and>
     (fr_state st = Live \<longrightarrow> fr_expected st = fr_snapshot_last st + 1 + of_nat (length ready)))"

section \<open>The loops\<close>

lemma consecutive_Nil [simp]: "consecutive s []"
  by (simp add: consecutive_def)

lemma consecutive_snoc: "consecutive s (ms @ [msg]) \<longleftrightarrow> consecutive s ms \<and> fst msg = s + of_nat (length ms)"
  by (auto simp: consecutive_def nth_append less_Suc_eq)

lemma check_contiguous_gap [simp]: "q < s \<Longrightarrow> check_contiguous q ((s, e) # xs) = None"
  by (auto dest: order.asym)

declare check_contiguous.simps(2) [simp del]

lemma check_contiguous_more [simp]:
  "s < q \<Longrightarrow> check_contiguous q ((s, e) # xs) = check_contiguous q xs"
  "check_contiguous q ((q, e) # xs) = check_contiguous (q + 1) xs"
  by (simp_all add: check_contiguous.simps(2))

text \<open>Where the test finds no gap, the emission delivers exactly the numbers the test counted.\<close>

lemma emit_consecutive:
  "check_contiguous q xs = Some next \<Longrightarrow> q = s0 + of_nat (length ready) \<Longrightarrow> consecutive s0 ready \<Longrightarrow>
     (\<And>b. b \<in> set xs \<Longrightarrow> fst (snd b) = fst b) \<Longrightarrow>
     consecutive s0 (emit q xs ready) \<and> next = s0 + of_nat (length (emit q xs ready))"
proof (induction q xs arbitrary: ready rule: check_contiguous.induct)
  case (2 q s e xs)
  have e: "fst e = s" and xs: "\<And>b. b \<in> set xs \<Longrightarrow> fst (snd b) = fst b" using "2.prems"(4) [of "(s, e)"] "2.prems"(4)
    by simp_all
  consider (stale) "s < q" | (gap) "s > q" | (same) "s = q" by fastforce
  then show ?case
  proof cases
    case stale
    then show ?thesis using "2.IH"(1) [OF stale _ "2.prems"(2,3) xs] "2.prems"(1) by auto
  next
    case gap
    then show ?thesis using "2.prems"(1) by simp
  next
    case same
    have "q + 1 = s0 + of_nat (length (ready @ [e]))" using "2.prems"(2) by simp
    then show ?thesis using "2.IH"(2) [of "ready @ [e]"] same "2.prems" e xs by (simp add: consecutive_snoc)
  qed
qed simp

lemma take_write: "n < length xs \<Longrightarrow> take (Suc n) (xs[n := x]) = take n xs @ [x]"
  by (simp add: take_Suc_conv_app_nth)

text \<open>Each operation keeps the invariant.\<close>

lemma recovery_inv_incremental:
  assumes "recovery_inv (st, ready)" "on_incremental st (fst msg) msg ready = (r, st', ready')"
  shows "recovery_inv (st', ready')"
  using assms unfolding on_incremental_def
  by (cases "fr_state st") (auto simp: recovery_inv_def replay_buffer_def consecutive_snoc take_write not_le split: if_splits, force)

lemma recovery_inv_begin: "recovery_inv (begin_snapshot st last_sequence, [])"
  by (simp add: recovery_inv_def replay_buffer_def begin_snapshot_def)

lemma sorter_set: "sort_spec sorter \<Longrightarrow> set (sorter xs) = set xs"
  by (metis sort_spec_def set_mset_mset)

lemma sorter_length: "sort_spec sorter \<Longrightarrow> length (sorter xs) = length xs"
  by (metis sort_spec_def size_mset)

lemma recovery_inv_finish:
  assumes sorter: "sort_spec sorter" and inv: "recovery_inv (st, ready)"
    and finish: "finish_snapshot sorter st ready = (completed, st', ready')"
  shows "recovery_inv (st', ready')"
proof (cases "fr_state st = Snapshotting")
  case False
  with finish inv show ?thesis by (auto simp: finish_snapshot_def)
next
  case True
  let ?buf = "take (fr_replay_size st) (fr_replay st)"
  let ?q = "fr_snapshot_last st + 1"
  let ?rest = "dropWhile (\<lambda>(s, _). s < ?q) (sorter ?buf)"
  have tag: "fst (snd b) = fst b" if "b \<in> set ?rest" for b
    using set_dropWhileD [OF that] inv by (auto simp: sorter_set [OF sorter] recovery_inv_def replay_buffer_def)
  have ready: "ready = []" using inv True by (simp add: recovery_inv_def)
  show ?thesis
  proof (cases "check_contiguous ?q ?rest")
    case None
    with finish True ready show ?thesis by (auto simp: finish_snapshot_def recovery_inv_def replay_buffer_def Let_def)
  next
    case (Some reached)
    with finish True ready emit_consecutive [OF Some, of ?q "[]"] tag show ?thesis
      by (auto simp: finish_snapshot_def recovery_inv_def replay_buffer_def Let_def)
  qed
qed

lemma recovery_inv_step:
  assumes "sort_spec sorter" "fr_step sorter c c'" "recovery_inv c"
  shows "recovery_inv c'"
  using assms(2,3)
  by cases (auto intro: recovery_inv_incremental recovery_inv_begin recovery_inv_finish [OF assms(1)])

lemma recovery_inv_reachable:
  assumes "sort_spec sorter" "fr_reachable sorter maximum e0 c"
  shows "recovery_inv c"
  using assms(2)
proof (induction rule: fr_reachable.induct)
  case start
  then show ?case by (simp add: recovery_inv_def replay_buffer_def fr_new_def)
next
  case (step c c')
  then show ?case using recovery_inv_step [OF assms(1)] by blast
qed

section \<open>When a snapshot completes\<close>

text \<open>The loop of the test, on a sorted buffer, finds exactly the gaps of the set of numbers.\<close>

definition gap_free :: "u64 \<Rightarrow> u64 set \<Rightarrow> bool" where
  "gap_free q S \<longleftrightarrow> (\<forall>s \<in> S. \<forall>k. q \<le> k \<and> k \<le> s \<longrightarrow> k \<in> S)"

lemma u64_le_Suc: "(q::u64) < - 1 \<Longrightarrow> q + 1 \<le> k \<longleftrightarrow> q < k"
  by uint_arith

lemma check_contiguous_iff:
  "sorted (map fst xs) \<Longrightarrow> - 1 \<notin> fst ` set xs \<Longrightarrow>
     check_contiguous q xs \<noteq> None \<longleftrightarrow> gap_free q (fst ` set xs)"
proof (induction q xs rule: check_contiguous.induct)
  case (1 q)
  then show ?case by (simp add: gap_free_def)
next
  case (2 q s e xs)
  have ge: "s \<le> k" if "k \<in> fst ` set xs" for k using "2.prems"(1) that by auto
  have rest: "sorted (map fst xs)" "- 1 \<notin> fst ` set xs" "s \<noteq> - 1" using "2.prems" by auto
  consider (stale) "s < q" | (gap) "s > q" | (same) "s = q" by fastforce
  then show ?case
  proof cases
    case stale
    then have "gap_free q (fst ` set ((s, e) # xs)) \<longleftrightarrow> gap_free q (fst ` set xs)"
      unfolding gap_free_def by (auto dest: leD)
    with stale "2.IH"(1) rest show ?thesis by simp
  next
    case gap
    have "q \<notin> fst ` set ((s, e) # xs)" using ge gap by (auto dest: leD)
    then have "\<not> gap_free q (fst ` set ((s, e) # xs))" using gap by (auto simp: gap_free_def intro: less_imp_le)
    with gap show ?thesis by simp
  next
    case same
    then have lt: "q < - 1" using rest by (simp add: word_order.not_eq_extremum)
    have "gap_free q (fst ` set ((s, e) # xs)) \<longleftrightarrow> gap_free (q + 1) (fst ` set xs)"
      using same unfolding gap_free_def u64_le_Suc [OF lt] by (auto simp: order_le_less)
    with same "2.IH"(2) rest show ?thesis by simp
  qed
qed

text \<open>The emission delivers each number that is not stale exactly once.\<close>

lemma emit_set:
  "check_contiguous q xs \<noteq> None \<Longrightarrow> sorted (map fst xs) \<Longrightarrow> - 1 \<notin> fst ` set xs \<Longrightarrow>
     (\<And>b. b \<in> set xs \<Longrightarrow> fst (snd b) = fst b) \<Longrightarrow>
     fst ` set (emit q xs ready) = fst ` set ready \<union> {s \<in> fst ` set xs. q \<le> s}"
proof (induction q xs arbitrary: ready rule: check_contiguous.induct)
  case (2 q s e xs)
  have e: "fst e = s" and xs: "\<And>b. b \<in> set xs \<Longrightarrow> fst (snd b) = fst b"
    using "2.prems"(4) [of "(s, e)"] "2.prems"(4) by simp_all
  have rest: "sorted (map fst xs)" "- 1 \<notin> fst ` set xs" "s \<noteq> - 1" using "2.prems" by auto
  consider (stale) "s < q" | (gap) "s > q" | (same) "s = q" by fastforce
  then show ?case
  proof cases
    case stale
    then have "check_contiguous q xs \<noteq> None" "s \<noteq> q" "\<not> q \<le> s" using "2.prems"(1) by auto
    with "2.IH"(1) [OF stale _ rest(1,2) xs, of ready] show ?thesis by auto
  next
    case gap
    with "2.prems"(1) show ?thesis by simp
  next
    case same
    then have lt: "q < - 1" using rest by (simp add: word_order.not_eq_extremum)
    have "check_contiguous (q + 1) xs \<noteq> None" using same "2.prems"(1) by simp
    with "2.IH"(2) [OF _ _ _ rest(1,2) xs, of "ready @ [e]"] same e
    show ?thesis unfolding u64_le_Suc [OF lt] by (auto simp: order_le_less)
  qed
qed simp

text \<open>The first loop of \<open>finish_snapshot\<close> skips nothing, since stale numbers are not buffered.\<close>

lemma no_stale_buffered:
  assumes "recovery_inv (st, ready)" "fr_state st = Snapshotting" "sort_spec sorter"
    and "- 1 \<notin> fst ` set (replay_buffer st)"
  shows "dropWhile (\<lambda>(s, _). s < fr_snapshot_last st + 1) (sorter (replay_buffer st)) = sorter (replay_buffer st)"
proof -
  have "fr_snapshot_last st + 1 \<le> fst b" if "b \<in> set (replay_buffer st)" for b
    using assms(1,2) that by (auto simp: recovery_inv_def intro: inc_le)
  then have "fr_snapshot_last st + 1 \<le> fst b" if "b \<in> set (sorter (replay_buffer st))" for b
    using that by (simp add: sorter_set [OF assms(3)])
  then show ?thesis
    by (cases "sorter (replay_buffer st)") (fastforce simp: not_less)+
qed

section \<open>Properties\<close>

text \<open>
  C32. The recovered stream has no gap, no duplicate and no reordering: in every state that increments,
  snapshots and completions reach, the events handed out since the last snapshot carry the numbers
  that follow the snapshot's, one after the other, and a live feed expects exactly the next one. This
  needs of \<open>std::sort\<close> only that it sorts.
\<close>

theorem recovery_delivers_consecutively:
  assumes "sort_spec sorter"
    and "fr_reachable sorter maximum e0 (st, ready)"
  shows "consecutive (fr_snapshot_last st + 1) ready \<and>
    (fr_state st = Live \<longrightarrow>
       fr_expected_sequence st = Some (fr_snapshot_last st + 1 + of_nat (length ready)))"
  using recovery_inv_reachable [OF assms] by (simp add: recovery_inv_def fr_expected_sequence_def)

text \<open>
  A snapshot completes exactly when the buffered increments have no gap after it. Duplicates and
  the order of arrival do not matter. On success every buffered number is delivered and the buffer is
  empty; on a gap nothing is delivered and the feed waits for another snapshot. The number
  \<open>UINT64_MAX\<close> is excluded: after it the expected number wraps to 0.
\<close>

theorem finish_snapshot_iff_gap_free:
  assumes sorter: "sort_spec sorter"
    and reach: "fr_reachable sorter maximum e0 (st, ready)"
    and snap: "fr_state st = Snapshotting"
    and nowrap: "- 1 \<notin> fst ` set (replay_buffer st)"
  shows "case finish_snapshot sorter st ready of (completed, st', ready') \<Rightarrow>
    (completed \<longleftrightarrow> gap_free (fr_snapshot_last st + 1) (fst ` set (replay_buffer st))) \<and>
    fr_replay_size st' = 0 \<and>
    (completed \<longrightarrow> fr_state st' = Live \<and> fst ` set ready' = fst ` set (replay_buffer st)) \<and>
    (\<not> completed \<longrightarrow> fr_state st' = AwaitingSnapshot \<and> ready' = ready)"
proof -
  let ?buf = "replay_buffer st" and ?q = "fr_snapshot_last st + 1"
  have inv: "recovery_inv (st, ready)" using recovery_inv_reachable [OF sorter reach] .
  have set: "set (sorter ?buf) = set ?buf" and sorted: "sorted (map fst (sorter ?buf))"
    using sorter by (simp_all add: sorter_set sort_spec_def)
  have ready: "ready = []" and tag: "\<And>b. b \<in> set ?buf \<Longrightarrow> fst (snd b) = fst b"
    and above: "\<And>b. b \<in> set ?buf \<Longrightarrow> ?q \<le> fst b"
    using inv snap by (auto simp: recovery_inv_def intro: inc_le)
  have check: "check_contiguous ?q (sorter ?buf) \<noteq> None \<longleftrightarrow> gap_free ?q (fst ` set ?buf)"
    using check_contiguous_iff [OF sorted] nowrap set by simp
  have emit: "fst ` set (emit ?q (sorter ?buf) []) = fst ` set ?buf"
    if "check_contiguous ?q (sorter ?buf) \<noteq> None"
    using emit_set [OF that sorted, of "[]"] nowrap set tag above by auto
  show ?thesis
    using check emit snap no_stale_buffered [OF inv snap sorter nowrap] ready
    by (cases "check_contiguous ?q (sorter ?buf)")
      (simp_all add: finish_snapshot_def Let_def replay_buffer_def [symmetric])
qed

section \<open>Recovery completes\<close>

text \<open>The feed delivers a list of messages, in order of arrival.\<close>

fun feed :: "'p message feed_recovery \<Rightarrow> 'p message list \<Rightarrow> 'p message list \<Rightarrow> 'p message feed_recovery \<times> 'p message list" where
  "feed st [] ready = (st, ready)"
| "feed st (msg # msgs) ready = (case on_incremental st (fst msg) msg ready of (r, st', ready') \<Rightarrow> feed st' msgs ready')"

text \<open>While a snapshot is loaded, increments above it go to the buffer as long as there is room.\<close>

lemma feed_snapshotting:
  "fr_state st = Snapshotting \<Longrightarrow> (\<And>m. m \<in> set msgs \<Longrightarrow> fr_snapshot_last st < fst m) \<Longrightarrow>
     fr_replay_size st + length msgs \<le> length (fr_replay st) \<Longrightarrow>
     \<exists>st'. feed st msgs ready = (st', ready) \<and> fr_state st' = Snapshotting \<and>
       fr_snapshot_last st' = fr_snapshot_last st \<and> fr_replay_size st' \<le> length (fr_replay st') \<and>
       replay_buffer st' = replay_buffer st @ map (\<lambda>m. (fst m, m)) msgs"
proof (induction msgs arbitrary: st)
  case (Cons msg msgs)
  let ?st = "st\<lparr>fr_replay := (fr_replay st)[fr_replay_size st := (fst msg, msg)],
                fr_replay_size := fr_replay_size st + 1\<rparr>"
  have "on_incremental st (fst msg) msg ready = (Buffered, ?st, ready)"
    using Cons.prems(1,3) Cons.prems(2) [of msg] by (auto simp: on_incremental_def dest: leD)
  moreover have "replay_buffer ?st = replay_buffer st @ [(fst msg, msg)]"
    using Cons.prems(3) by (simp add: replay_buffer_def take_write)
  ultimately show ?case using Cons.IH [of ?st] Cons.prems by simp
qed simp

lemma check_emit_consecutive:
  "consecutive s0 (before @ ms) \<Longrightarrow> q = s0 + of_nat (length before) \<Longrightarrow>
     check_contiguous q (map (\<lambda>m. (fst m, m)) ms) = Some (q + of_nat (length ms)) \<and>
     emit q (map (\<lambda>m. (fst m, m)) ms) before = before @ ms"
proof (induction ms arbitrary: q before)
  case (Cons m ms)
  have "fst m = q" using Cons.prems unfolding consecutive_def by (auto dest: spec [of _ "length before"])
  with Cons.IH [of "before @ [m]" "q + 1"] Cons.prems show ?case by (simp add: add.assoc)
qed simp

lemma consecutive_unat:
  assumes "consecutive (q + 1) ms" "unat q + length ms < 2 ^ 64" "i < length ms"
  shows "unat (fst (ms ! i)) = unat q + 1 + i"
proof -
  have "fst (ms ! i) = q + of_nat (1 + i)" using assms(1,3) by (simp add: consecutive_def add.assoc)
  moreover have "unat (of_nat (1 + i) :: u64) = 1 + i" using assms(2,3) by (intro unat_of_nat_u64) simp
  ultimately show ?thesis using assms(2,3) unat_plus_u64 [of q "of_nat (1 + i)"] by simp
qed

lemma consecutive_sorted:
  assumes "consecutive (q + 1) ms" "unat q + length ms < 2 ^ 64"
  shows "sorted (map fst ms)" "distinct (map fst ms)" "m \<in> set ms \<Longrightarrow> q < fst m"
proof -
  note at = consecutive_unat [OF assms]
  have "fst (ms ! i) \<le> fst (ms ! j)" if "i \<le> j" "j < length ms" for i j
    unfolding word_le_nat_alt at [OF that(2)] at [OF order.strict_trans1 [OF that]] using that(1) by simp
  then show "sorted (map fst ms)" by (auto simp: sorted_iff_nth_mono)
  have "i = j" if "i < length ms" "j < length ms" "fst (ms ! i) = fst (ms ! j)" for i j
    using at [OF that(1)] at [OF that(2)] unfolding that(3) by linarith
  then show "distinct (map fst ms)" by (auto simp: distinct_conv_nth)
  show "q < fst m" if m: "m \<in> set ms"
  proof -
    obtain i where "i < length ms" "ms ! i = m" using m unfolding in_set_conv_nth by blast
    then show ?thesis unfolding word_less_nat_alt using at [of i] by simp
  qed
qed

text \<open>Sorting restores the order of the numbers, whatever the order of arrival.\<close>

lemma sorter_restores:
  assumes "sort_spec sorter" "mset arrived = mset ms" "sorted (map fst ms)" "distinct (map fst ms)"
  shows "sorter (map (\<lambda>m. (fst m, m)) arrived) = map (\<lambda>m. (fst m, m)) ms"
proof -
  let ?t = "\<lambda>m. (fst m, m)"
  let ?s = "sorter (map ?t arrived)"
  have perm: "mset ?s = mset (map ?t ms)" and sorted: "sorted (map fst ?s)"
    using assms(1,2) by (simp_all add: sort_spec_def)
  have "mset (map fst ?s) = mset (map fst ms)" using perm by (simp add: image_mset.compositionality comp_def)
  then have "distinct (map fst ?s)" using assms(4) mset_eq_imp_distinct_iff by blast
  moreover have "set ?s = set (map ?t ms)" using perm by (rule mset_eq_setD)
  moreover have "inj_on fst (set (map ?t ms))" using assms(4) by (auto simp: distinct_map inj_on_def)
  ultimately show ?thesis
    using map_sorted_distinct_set_unique [of fst ?s "map ?t ms"] sorted assms(3,4) by (simp add: comp_def)
qed

text \<open>
  C33. Recovery completes: if after a snapshot that ends at \<open>q\<close> the increments \<open>q + 1, ..., q + n\<close>, whose numbers do not wrap,
  arrive in any order and fit into the buffer, then \<open>finish_snapshot\<close> succeeds, delivers them in the
  order of their numbers, and the feed is live and expects \<open>q + n + 1\<close>. The state before the snapshot
  does not matter.
\<close>

theorem recovery_completes:
  assumes sorter: "sort_spec sorter"
    and ms: "consecutive (q + 1) ms"
    and nowrap: "unat q + length ms < 2 ^ 64"
    and room: "length ms \<le> length (fr_replay st)"
    and arrival: "mset arrived = mset ms"
  shows "\<exists>st1 st2. feed (begin_snapshot st q) arrived [] = (st1, []) \<and>
    finish_snapshot sorter st1 [] = (True, st2, ms) \<and>
    fr_expected_sequence st2 = Some (q + 1 + of_nat (length ms))"
proof -
  let ?t = "\<lambda>m. (fst m, m)"
  note order = consecutive_sorted [OF ms nowrap]
  have "q < fst m" if "m \<in> set arrived" for m
    using that order(3) arrival by (metis set_mset_mset)
  moreover have "length arrived = length ms" using arrival by (metis size_mset)
  ultimately obtain st1 where st1: "feed (begin_snapshot st q) arrived [] = (st1, [])"
    "fr_state st1 = Snapshotting" "fr_snapshot_last st1 = q" "replay_buffer st1 = map ?t arrived"
    using feed_snapshotting [of "begin_snapshot st q" arrived "[]"] room
    by (auto simp: begin_snapshot_def replay_buffer_def)
  have "q + 1 \<le> fst m" if "m \<in> set ms" for m using order(3) [OF that] by (rule inc_le)
  then have "dropWhile (\<lambda>(s, _). s < q + 1) (map ?t ms) = map ?t ms"
    by (cases ms) (fastforce simp: not_less)+
  with st1 sorter_restores [OF sorter arrival order(1,2)] check_emit_consecutive [of "q + 1" "[]" ms "q + 1"] ms
  show ?thesis
    by (simp add: finish_snapshot_def replay_buffer_def [symmetric] Let_def fr_expected_sequence_def)
qed

section \<open>A recovery on concrete messages\<close>

text \<open>
  A feed with room for four increments receives a snapshot that ends at 10, then the increments 12 and
  11, completes the snapshot and receives 13.
\<close>

lemma sort_spec_sort_key: "sort_spec (sort_key fst)"
  by (simp add: sort_spec_def)

definition sample_loading :: "nat message feed_recovery" where
  "sample_loading = fst (feed (begin_snapshot (fr_new 4 (0, 0)) 10) [(12, 7), (11, 5)] [])"

definition sample_live :: "nat message feed_recovery \<times> nat message list" where
  "sample_live = (case finish_snapshot (sort_key fst) sample_loading [] of (_, st, ready) \<Rightarrow> feed st [(13, 8)] ready)"

lemma reachable_feed:
  "fr_reachable sorter maximum e0 (st, ready) \<Longrightarrow> fr_reachable sorter maximum e0 (feed st msgs ready)"
proof (induction msgs arbitrary: st ready)
  case (Cons msg msgs)
  obtain r st' ready' where on: "on_incremental st (fst msg) msg ready = (r, st', ready')" by (metis prod_cases3)
  have "fr_reachable sorter maximum e0 (st', ready')"
    by (rule fr_reachable.step [OF Cons.prems fr_step.incremental [OF on]])
  from Cons.IH [OF this] on show ?case by simp
qed simp

lemma sample_loading_eq:
  "feed (begin_snapshot (fr_new 4 (0, 0)) 10) [(12, 7), (11, 5)] [] = (sample_loading, [])"
  "sample_loading = \<lparr>fr_replay = [(12, (12, 7)), (11, (11, 5)), (0, (0, 0)), (0, (0, 0))], fr_replay_size = 2,
     fr_state = Snapshotting, fr_expected = 0, fr_snapshot_last = 10\<rparr>"
  unfolding sample_loading_def by code_simp+

lemma sample_live_eq:
  "sample_live = (\<lparr>fr_replay = [(11, (11, 5)), (12, (12, 7)), (0, (0, 0)), (0, (0, 0))], fr_replay_size = 0,
     fr_state = Live, fr_expected = 14, fr_snapshot_last = 10\<rparr>, [(11, 5), (12, 7), (13, 8)])"
  by code_simp

lemma sample_loading_reachable: "fr_reachable (sort_key fst) 4 (0, 0) (sample_loading, [])"
proof -
  have "fr_reachable (sort_key fst) 4 (0, 0 :: nat) (begin_snapshot (fr_new 4 (0, 0)) 10, [])"
    by (rule fr_reachable.step [OF fr_reachable.start fr_step.begin_snap])
  from reachable_feed [OF this, of "[(12, 7), (11, 5)]"] show ?thesis unfolding sample_loading_eq(1) .
qed

lemma sample_live_reachable: "fr_reachable (sort_key fst) 4 (0, 0) sample_live"
proof -
  obtain completed st ready where finish: "finish_snapshot (sort_key fst) sample_loading [] = (completed, st, ready)"
    by (metis prod_cases3)
  have "fr_reachable (sort_key fst) 4 (0, 0) (st, ready)"
    by (rule fr_reachable.step [OF sample_loading_reachable fr_step.finish_snap [OF finish]])
  from reachable_feed [OF this, of "[(13, 8)]"] show ?thesis by (simp add: sample_live_def finish del: feed.simps)
qed

theorem recovery_delivers_consecutively_witness:
  "consecutive 11 (snd sample_live) \<and> fr_expected_sequence (fst sample_live) = Some 14 \<and>
     length (snd sample_live) = 3"
  using recovery_delivers_consecutively [OF sort_spec_sort_key, of 4 "(0, 0)" "fst sample_live" "snd sample_live"]
    sample_live_reachable
  by (simp add: sample_live_eq)

theorem finish_snapshot_iff_gap_free_witness:
  "fst (finish_snapshot (sort_key fst) sample_loading []) \<and> gap_free 11 {11, 12}"
proof -
  have "fst (finish_snapshot (sort_key fst) sample_loading [])" by code_simp
  moreover have "- 1 \<notin> fst ` set (replay_buffer sample_loading)"
    by (simp add: sample_loading_eq(2) replay_buffer_def)
  ultimately show ?thesis
    using finish_snapshot_iff_gap_free [OF sort_spec_sort_key sample_loading_reachable]
    by (auto simp: sample_loading_eq(2) replay_buffer_def insert_commute split: prod.splits)
qed

lemma sample_consecutive: "consecutive (10 + 1) [(11, 5 :: nat), (12, 7)]"
  by code_simp

theorem recovery_completes_witness:
  "\<exists>st1 st2. feed (begin_snapshot (fr_new 4 (0, 0)) 10) [(12, 7), (11, 5::nat)] [] = (st1, []) \<and>
    finish_snapshot (sort_key fst) st1 [] = (True, st2, [(11, 5), (12, 7)]) \<and>
    fr_expected_sequence st2 = Some 13"
  using recovery_completes [OF sort_spec_sort_key sample_consecutive, of "fr_new 4 (0, 0)" "[(12, 7), (11, 5)]"]
  by (simp add: fr_new_def del: feed.simps)

end
