(* ===== verification/L2_Spec.thy ===== *)
theory L2_Spec
  imports L3_Spec
begin

text \<open>
  The contract of the level-two (price-aggregated) books: a feed sends snapshots of the levels of both
  sides and numbered deltas that replace the quantity of single levels. This theory holds the data
  (\<open>cpp/include/llab/bybit_l2_order_book.hpp\<close>), the content a book must have after each message, and
  the interface the three level-two books provide.
\<close>

section \<open>Data\<close>

record l2_level =
  l2_price :: price
  l2_quantity :: quantity

record l2_change =
  ch_side :: side
  ch_price :: price
  ch_quantity :: quantity

section \<open>Content\<close>

lemma all_side: "(\<forall>s. P s) \<longleftrightarrow> P Bid \<and> P Ask"
  by (metis side.exhaust)

text \<open>The quantity at each price of each side; 0 where there is no level.\<close>

type_synonym l2_content = "side \<Rightarrow> price \<Rightarrow> quantity"

definition put :: "l2_change \<Rightarrow> l2_content \<Rightarrow> l2_content" where
  "put c f = f(ch_side c := (f (ch_side c))(ch_price c := ch_quantity c))"

definition level_change :: "side \<Rightarrow> l2_level \<Rightarrow> l2_change" where
  "level_change s l = \<lparr>ch_side = s, ch_price = l2_price l, ch_quantity = l2_quantity l\<rparr>"

definition snapshot_content :: "l2_level list \<Rightarrow> l2_level list \<Rightarrow> l2_content" where
  "snapshot_content bids asks =
     fold put (map (level_change Bid) bids @ map (level_change Ask) asks) (\<lambda>_ _. 0)"

fun is_best :: "side \<Rightarrow> l2_content \<Rightarrow> l2_level option \<Rightarrow> bool" where
  "is_best s f None \<longleftrightarrow> (\<forall>p. f s p = 0)"
| "is_best s f (Some l) \<longleftrightarrow> f s (l2_price l) = l2_quantity l \<and> l2_quantity l \<noteq> 0 \<and>
     (\<forall>p. f s p \<noteq> 0 \<longrightarrow> (if s = Bid then p \<le> l2_price l else l2_price l \<le> p))"

lemma is_best_at: "is_best s f (Some l) \<Longrightarrow> f s (l2_price l) = l2_quantity l \<and> l2_quantity l \<noteq> 0"
  unfolding is_best.simps by blast

lemma is_best_None: "is_best s f None \<Longrightarrow> \<not> is_best s f (Some l)"
  unfolding is_best.simps by metis

lemma is_best_price:
  assumes "is_best s f (Some a)" "is_best s f (Some b)"
  shows "l2_price a = l2_price b"
proof (rule antisym)
  have nz: "f s (l2_price a) \<noteq> 0" "f s (l2_price b) \<noteq> 0" using assms is_best_at by metis+
  have a: "if s = Bid then l2_price b \<le> l2_price a else l2_price a \<le> l2_price b" using assms(1) nz(2) unfolding is_best.simps by blast
  have b: "if s = Bid then l2_price a \<le> l2_price b else l2_price b \<le> l2_price a" using assms(2) nz(1) unfolding is_best.simps by blast
  show "l2_price a \<le> l2_price b" using a b by (cases s) simp_all
  show "l2_price b \<le> l2_price a" using a b by (cases s) simp_all
qed

lemma is_best_unique:
  assumes "is_best s f a" "is_best s f b"
  shows "a = b"
proof (cases a; cases b)
  fix x y assume ab: "a = Some x" "b = Some y"
  then have best: "is_best s f (Some x)" "is_best s f (Some y)" using assms by blast+
  have "l2_price x = l2_price y" using is_best_price [OF best] .
  moreover from this have "l2_quantity x = l2_quantity y" using is_best_at [OF best(1)] is_best_at [OF best(2)] by metis
  ultimately show ?thesis using ab by simp
qed (use assms is_best_None in blast)+

lemma put_other [simp]: "s \<noteq> ch_side c \<Longrightarrow> put c f s = f s"
  by (simp add: put_def)

lemma put_at: "put c f s p = (if s = ch_side c \<and> p = ch_price c then ch_quantity c else f s p)"
  by (simp add: put_def)

text \<open>Changes of different levels commute.\<close>

definition ch_key :: "l2_change \<Rightarrow> side \<times> price" where
  "ch_key c = (ch_side c, ch_price c)"

lemma put_commute: "ch_key c \<noteq> ch_key d \<Longrightarrow> put c (put d f) = put d (put c f)"
  by (auto simp: fun_eq_iff put_at ch_key_def)

lemma fold_put_commute: "ch_key c \<notin> ch_key ` set cs \<Longrightarrow> fold put cs (put c f) = put c (fold put cs f)"
proof (induction cs arbitrary: f)
  case (Cons d cs)
  then show ?case using put_commute [of d c f] by auto
qed simp

lemma fold_put_partition:
  "distinct (map ch_key cs) \<Longrightarrow>
     fold put (filter (\<lambda>c. \<not> P c) cs) (fold put (filter P cs) f) = fold put cs f"
proof (induction cs arbitrary: f)
  case (Cons c cs)
  have fresh: "ch_key c \<notin> ch_key ` set cs" using Cons.prems by auto
  have "fold put (filter P cs) (put c f) = put c (fold put (filter P cs) f)"
    "fold put (filter (\<lambda>c. \<not> P c) cs) (put c g) = put c (fold put (filter (\<lambda>c. \<not> P c) cs) g)"
    "fold put cs (put c f) = put c (fold put cs f)" for g
    using fresh by (intro fold_put_commute; auto)+
  with Cons show ?case by simp
qed simp

section \<open>Messages\<close>

datatype l2_message =
    Snapshot u64 "l2_level list" "l2_level list"
  | Delta u64 "l2_change list"

fun content_after :: "l2_content \<Rightarrow> l2_message list \<Rightarrow> l2_content" where
  "content_after f [] = f"
| "content_after f (Snapshot u bids asks # ms) = content_after (snapshot_content bids asks) ms"
| "content_after f (Delta u changes # ms) = content_after (fold put changes f) ms"

text \<open>A book that applies messages until it refuses one.\<close>

fun l2_run :: "('b \<Rightarrow> u64 \<Rightarrow> l2_level list \<Rightarrow> l2_level list \<Rightarrow> bool \<times> 'b) \<Rightarrow> ('b \<Rightarrow> u64 \<Rightarrow> l2_change list \<Rightarrow> bool \<times> 'b)
    \<Rightarrow> 'b \<Rightarrow> l2_message list \<Rightarrow> 'b option" where
  "l2_run snap delta b [] = Some b"
| "l2_run snap delta b (Snapshot u bids asks # ms) =
     (case snap b u bids asks of (accepted, b') \<Rightarrow> if accepted then l2_run snap delta b' ms else None)"
| "l2_run snap delta b (Delta u changes # ms) =
     (case delta b u changes of (accepted, b') \<Rightarrow> if accepted then l2_run snap delta b' ms else None)"

section \<open>The interface\<close>

text \<open>
  What a level-two book promises: an accepted message gives exactly the content of the feed, a delta
  is accepted only by a valid book and only with the next number, a refused message leaves an
  invalid book, and the best levels of a valid book are those of its content.
\<close>

locale l2_book =
  fixes ok :: "'b \<Rightarrow> bool"
    and valid :: "'b \<Rightarrow> bool"
    and uid :: "'b \<Rightarrow> u64"
    and content :: "'b \<Rightarrow> l2_content"
    and snap :: "'b \<Rightarrow> u64 \<Rightarrow> l2_level list \<Rightarrow> l2_level list \<Rightarrow> bool \<times> 'b"
    and delta :: "'b \<Rightarrow> u64 \<Rightarrow> l2_change list \<Rightarrow> bool \<times> 'b"
    and best_bid :: "'b \<Rightarrow> l2_level option"
    and best_ask :: "'b \<Rightarrow> l2_level option"
  assumes snap_accepted: "ok b \<Longrightarrow> snap b u bids asks = (True, b') \<Longrightarrow>
      ok b' \<and> valid b' \<and> uid b' = u \<and> u \<noteq> 0 \<and> content b' = snapshot_content bids asks"
    and snap_refused: "ok b \<Longrightarrow> snap b u bids asks = (False, b') \<Longrightarrow> ok b' \<and> \<not> valid b'"
    and delta_accepted: "ok b \<Longrightarrow> delta b u changes = (True, b') \<Longrightarrow>
      ok b' \<and> valid b' \<and> uid b' = u \<and> valid b \<and> u = uid b + 1 \<and> content b' = fold put changes (content b)"
    and delta_refused: "ok b \<Longrightarrow> delta b u changes = (False, b') \<Longrightarrow> ok b' \<and> \<not> valid b'"
    and best_bid_is: "ok b \<Longrightarrow> valid b \<Longrightarrow> is_best Bid (content b) (best_bid b)"
    and best_ask_is: "ok b \<Longrightarrow> valid b \<Longrightarrow> is_best Ask (content b) (best_ask b)"
begin

lemma run_ok:
  "ok b \<Longrightarrow> l2_run snap delta b ms = Some b' \<Longrightarrow>
     ok b' \<and> content b' = content_after (content b) ms \<and> (ms \<noteq> [] \<longrightarrow> valid b')"
proof (induction ms arbitrary: b)
  case (Cons m ms)
  show ?case
  proof (cases m)
    case (Snapshot u bids asks)
    obtain b1 where b1: "snap b u bids asks = (True, b1)" "l2_run snap delta b1 ms = Some b'"
      using Cons.prems(2) Snapshot by (auto split: prod.splits if_splits)
    note a = snap_accepted [OF Cons.prems(1) b1(1)]
    have "ms = [] \<Longrightarrow> b' = b1" using b1(2) by simp
    then show ?thesis using Cons.IH [OF _ b1(2)] a Snapshot by (cases "ms = []") auto
  next
    case (Delta u changes)
    obtain b1 where b1: "delta b u changes = (True, b1)" "l2_run snap delta b1 ms = Some b'"
      using Cons.prems(2) Delta by (auto split: prod.splits if_splits)
    note a = delta_accepted [OF Cons.prems(1) b1(1)]
    have "ms = [] \<Longrightarrow> b' = b1" using b1(2) by simp
    then show ?thesis using Cons.IH [OF _ b1(2)] a Delta by (cases "ms = []") auto
  qed
qed simp

lemma run_best:
  assumes "ok b" "l2_run snap delta b ms = Some b'" "ms \<noteq> []"
  shows "is_best Bid (content_after (content b) ms) (best_bid b')" "is_best Ask (content_after (content b) ms) (best_ask b')"
  using run_ok [OF assms(1,2)] assms(3) best_bid_is [of b'] best_ask_is [of b'] by auto

end

text \<open>
  A feed as a book can follow it: snapshots have a number and no empty level, and each delta has the
  number after the message before it. The state is that number, or nothing before the first snapshot.
\<close>

fun numbered_feed :: "u64 option \<Rightarrow> l2_message list \<Rightarrow> bool" where
  "numbered_feed st [] \<longleftrightarrow> True"
| "numbered_feed st (Snapshot u bids asks # ms) \<longleftrightarrow>
     u \<noteq> 0 \<and> list_all (\<lambda>l. l2_quantity l \<noteq> 0) (bids @ asks) \<and> numbered_feed (Some u) ms"
| "numbered_feed st (Delta u changes # ms) \<longleftrightarrow>
     (\<exists>n. st = Some n \<and> u = n + 1) \<and> numbered_feed (Some u) ms"

fun prices_fit :: "(price \<Rightarrow> bool) \<Rightarrow> l2_message \<Rightarrow> bool" where
  "prices_fit room (Snapshot u bids asks) \<longleftrightarrow> list_all (\<lambda>l. room (l2_price l)) (bids @ asks)"
| "prices_fit room (Delta u changes) \<longleftrightarrow> list_all (\<lambda>c. room (ch_price c)) changes"

text \<open>A book that accepts every message of such a feed whose prices it can represent.\<close>

locale l2_accepting = l2_book +
  fixes room :: "price \<Rightarrow> bool"
  assumes accepts_snap: "ok b \<Longrightarrow> u \<noteq> 0 \<Longrightarrow> list_all (\<lambda>l. l2_quantity l \<noteq> 0) (bids @ asks) \<Longrightarrow>
      list_all (\<lambda>l. room (l2_price l)) (bids @ asks) \<Longrightarrow> fst (snap b u bids asks)"
    and accepts_delta: "ok b \<Longrightarrow> valid b \<Longrightarrow> list_all (\<lambda>c. room (ch_price c)) changes \<Longrightarrow>
      fst (delta b (uid b + 1) changes)"
begin

lemma run_accepts:
  "ok b \<Longrightarrow> (\<And>n. st = Some n \<Longrightarrow> valid b \<and> uid b = n) \<Longrightarrow> numbered_feed st ms \<Longrightarrow>
     list_all (prices_fit room) ms \<Longrightarrow> \<exists>b'. l2_run snap delta b ms = Some b'"
proof (induction ms arbitrary: b st)
  case (Cons m ms)
  show ?case
  proof (cases m)
    case (Snapshot u bids asks)
    then obtain b1 where b1: "snap b u bids asks = (True, b1)"
      using accepts_snap [of b u bids asks] Cons.prems by (cases "snap b u bids asks") auto
    with Cons.IH [of b1 "Some u"] snap_accepted [OF Cons.prems(1) b1] Cons.prems(3,4) Snapshot
    show ?thesis by simp
  next
    case (Delta u changes)
    then have v: "valid b" and u: "u = uid b + 1" using Cons.prems(2,3) by auto
    then obtain b1 where b1: "delta b u changes = (True, b1)"
      using accepts_delta [of b changes] Cons.prems(1,4) Delta by (cases "delta b u changes") auto
    with Cons.IH [of b1 "Some u"] delta_accepted [OF Cons.prems(1) b1] Cons.prems(3,4) Delta
    show ?thesis by simp
  qed
qed simp

end

end
