(* ===== verification/L2_Order_Book.thy ===== *)
theory L2_Order_Book
  imports L2_Spec
begin

text \<open>
  The level-two book of sorted vectors, \<open>llab::bybit_l2::OrderBook\<close>
  (\<open>cpp/include/llab/bybit_l2_order_book.hpp\<close>): bids in descending and asks in ascending order of price, at
  most a fixed number of levels per side.
\<close>

section \<open>State and operations\<close>

record vector_book =
  vb_bids :: "l2_level list"
  vb_asks :: "l2_level list"
  vb_maximum_levels :: nat
  vb_update_id :: u64
  vb_valid :: bool

definition vb_new :: "nat \<Rightarrow> vector_book" where
  "vb_new maximum_levels_per_side =
     \<lparr>vb_bids = [], vb_asks = [], vb_maximum_levels = maximum_levels_per_side, vb_update_id = 0, vb_valid = False\<rparr>"

definition vb_levels :: "vector_book \<Rightarrow> side \<Rightarrow> l2_level list" where
  "vb_levels b s = (if s = Bid then vb_bids b else vb_asks b)"

definition vb_set_levels :: "vector_book \<Rightarrow> side \<Rightarrow> l2_level list \<Rightarrow> vector_book" where
  "vb_set_levels b s xs = (if s = Bid then b\<lparr>vb_bids := xs\<rparr> else b\<lparr>vb_asks := xs\<rparr>)"

definition invalidate :: "vector_book \<Rightarrow> bool \<times> vector_book" where
  "invalidate b = (False, b\<lparr>vb_bids := [], vb_asks := [], vb_update_id := 0, vb_valid := False\<rparr>)"

text \<open>\<open>before s a c\<close>: price \<open>a\<close> stands before price \<open>c\<close> on side \<open>s\<close>.\<close>

definition before :: "side \<Rightarrow> price \<Rightarrow> price \<Rightarrow> bool" where
  "before s a c = (if s = Bid then a > c else a < c)"

text \<open>The loop compares each level with the one before it.\<close>

fun valid_levels_from :: "l2_level option \<Rightarrow> l2_level list \<Rightarrow> side \<Rightarrow> bool" where
  "valid_levels_from prev [] s = True"
| "valid_levels_from prev (l # ls) s =
     (if l2_quantity l = 0 \<or>
         (case prev of None \<Rightarrow> False
          | Some k \<Rightarrow> if s = Bid then l2_price k \<le> l2_price l else l2_price k \<ge> l2_price l)
      then False else valid_levels_from (Some l) ls s)"

definition valid_levels :: "l2_level list \<Rightarrow> side \<Rightarrow> bool" where
  "valid_levels ls s = valid_levels_from None ls s"

definition vb_apply_snapshot :: "vector_book \<Rightarrow> u64 \<Rightarrow> l2_level list \<Rightarrow> l2_level list \<Rightarrow> bool \<times> vector_book" where
  "vb_apply_snapshot b update_id bids asks =
     (if update_id = 0 \<or> length bids > vb_maximum_levels b \<or> length asks > vb_maximum_levels b \<or>
         \<not> valid_levels bids Bid \<or> \<not> valid_levels asks Ask
      then invalidate b
      else (True, b\<lparr>vb_bids := bids, vb_asks := asks, vb_update_id := update_id, vb_valid := True\<rparr>))"

text \<open>
  The loop of \<open>delta_fits\<close> with the changes seen so far and the two counters. The counters are
  integers: each decrement is for another existing level, so that they never pass zero.
\<close>

fun delta_fits_from :: "vector_book \<Rightarrow> l2_change list \<Rightarrow> l2_change list \<Rightarrow> int \<Rightarrow> int \<Rightarrow> bool" where
  "delta_fits_from b earlier [] bid_count ask_count =
     (bid_count \<le> int (vb_maximum_levels b) \<and> ask_count \<le> int (vb_maximum_levels b))"
| "delta_fits_from b earlier (c # cs) bid_count ask_count =
     (if \<exists>e \<in> set earlier. ch_side e = ch_side c \<and> ch_price e = ch_price c then False
      else let found = (\<exists>l \<in> set (vb_levels b (ch_side c)). l2_price l = ch_price c);
               step = (if ch_quantity c = 0 \<and> found then - 1 else 0) + (if ch_quantity c \<noteq> 0 \<and> \<not> found then 1 else 0)
           in delta_fits_from b (earlier @ [c]) cs
                (if ch_side c = Bid then bid_count + step else bid_count)
                (if ch_side c = Bid then ask_count else ask_count + step))"

definition delta_fits :: "vector_book \<Rightarrow> l2_change list \<Rightarrow> bool" where
  "delta_fits b changes = delta_fits_from b [] changes (int (length (vb_bids b))) (int (length (vb_asks b)))"

text \<open>
  \<open>std::lower_bound\<close> on a vector sorted for its side: the number of levels that stand before the price,
  which are its first ones.
\<close>

definition l2_lower_bound :: "side \<Rightarrow> l2_level list \<Rightarrow> price \<Rightarrow> nat" where
  "l2_lower_bound s xs p = length (takeWhile (\<lambda>l. before s (l2_price l) p) xs)"

text \<open>\<open>apply_change\<close> on the vector of its side; nothing if the vector is full.\<close>

definition change_levels :: "nat \<Rightarrow> side \<Rightarrow> l2_level list \<Rightarrow> price \<Rightarrow> quantity \<Rightarrow> l2_level list option" where
  "change_levels maximum s xs p q =
     (let i = l2_lower_bound s xs p
      in if i < length xs \<and> l2_price (xs ! i) = p
         then Some (if q = 0 then take i xs @ drop (i + 1) xs else xs[i := (xs ! i)\<lparr>l2_quantity := q\<rparr>])
         else if q = 0 then Some xs
         else if length xs = maximum then None
         else Some (take i xs @ \<lparr>l2_price = p, l2_quantity = q\<rparr> # drop i xs))"

definition apply_change :: "vector_book \<Rightarrow> l2_change \<Rightarrow> bool \<times> vector_book" where
  "apply_change b c =
     (case change_levels (vb_maximum_levels b) (ch_side c) (vb_levels b (ch_side c)) (ch_price c) (ch_quantity c) of
        None \<Rightarrow> (False, b)
      | Some xs \<Rightarrow> (True, vb_set_levels b (ch_side c) xs))"

text \<open>One of the two loops of \<open>apply_delta\<close>: the changes that satisfy \<open>sel\<close>, until one is refused.\<close>

fun apply_changes :: "(l2_change \<Rightarrow> bool) \<Rightarrow> vector_book \<Rightarrow> l2_change list \<Rightarrow> bool \<times> vector_book" where
  "apply_changes sel b [] = (True, b)"
| "apply_changes sel b (c # cs) =
     (if sel c
      then case apply_change b c of (done_, b') \<Rightarrow> if done_ then apply_changes sel b' cs else (False, b')
      else apply_changes sel b cs)"

definition vb_apply_delta :: "vector_book \<Rightarrow> u64 \<Rightarrow> l2_change list \<Rightarrow> bool \<times> vector_book" where
  "vb_apply_delta b update_id changes =
     (if \<not> vb_valid b \<or> vb_update_id b = uint64_max \<or> update_id \<noteq> vb_update_id b + 1 \<or> \<not> delta_fits b changes
      then invalidate b
      else case apply_changes (\<lambda>c. ch_quantity c = 0) b changes of (removed, b) \<Rightarrow>
        if \<not> removed then invalidate b
        else case apply_changes (\<lambda>c. ch_quantity c \<noteq> 0) b changes of (inserted, b) \<Rightarrow>
          if \<not> inserted then invalidate b
          else (True, b\<lparr>vb_update_id := update_id\<rparr>))"

definition vb_best_bid :: "vector_book \<Rightarrow> l2_level option" where
  "vb_best_bid b = (if \<not> vb_valid b \<or> vb_bids b = [] then None else Some (hd (vb_bids b)))"

definition vb_best_ask :: "vector_book \<Rightarrow> l2_level option" where
  "vb_best_ask b = (if \<not> vb_valid b \<or> vb_asks b = [] then None else Some (hd (vb_asks b)))"

definition vb_level_count :: "vector_book \<Rightarrow> nat" where
  "vb_level_count b = length (vb_bids b) + length (vb_asks b)"

definition vb_top_levels :: "vector_book \<Rightarrow> side \<Rightarrow> nat \<Rightarrow> l2_level list" where
  "vb_top_levels b s maximum = (if \<not> vb_valid b then [] else take (min maximum (length (vb_levels b s))) (vb_levels b s))"

definition vb_depth_quantity :: "vector_book \<Rightarrow> side \<Rightarrow> nat \<Rightarrow> quantity" where
  "vb_depth_quantity b s depth =
     foldl (\<lambda>total i. total + l2_quantity (vb_levels b s ! i)) 0 [0..<min depth (length (vb_levels b s))]"

text \<open>The loop of \<open>hash_u64\<close>, eight bytes from the lowest.\<close>

fun l2_hash_bytes :: "nat \<Rightarrow> u64 \<Rightarrow> u64 \<Rightarrow> u64" where
  "l2_hash_bytes 0 hash v = hash"
| "l2_hash_bytes (Suc n) hash v = l2_hash_bytes n ((hash XOR (v AND 0xff)) * 1099511628211) (drop_bit 8 v)"

definition l2_hash_u64 :: "u64 \<Rightarrow> u64 \<Rightarrow> u64" where
  "l2_hash_u64 hash v = l2_hash_bytes 8 hash v"

definition l2_hash_levels :: "u64 \<Rightarrow> l2_level list \<Rightarrow> u64" where
  "l2_hash_levels hash levels =
     foldl (\<lambda>h l. l2_hash_u64 (l2_hash_u64 h (l2_price l)) (l2_quantity l)) (l2_hash_u64 hash (of_nat (length levels))) levels"

definition vb_state_digest :: "vector_book \<Rightarrow> u64" where
  "vb_state_digest b = l2_hash_levels (l2_hash_levels 14695981039346656037 (vb_bids b)) (vb_asks b)"

section \<open>One side\<close>

lemma before_simps [simp]:
  "before s p p \<longleftrightarrow> False"
  by (simp add: before_def)

lemma before_trans: "before s a b \<Longrightarrow> before s b c \<Longrightarrow> before s a c"
  by (auto simp: before_def split: if_splits)

lemma before_total: "\<not> before s a b \<Longrightarrow> a \<noteq> b \<Longrightarrow> before s b a"
  by (auto simp: before_def split: if_splits)

definition side_ok :: "side \<Rightarrow> l2_level list \<Rightarrow> bool" where
  "side_ok s xs \<longleftrightarrow> sorted_wrt (before s) (map l2_price xs) \<and> (\<forall>l \<in> set xs. l2_quantity l \<noteq> 0)"

definition qty_at :: "l2_level list \<Rightarrow> price \<Rightarrow> quantity" where
  "qty_at xs p = lookup0 (map (\<lambda>l. (l2_price l, l2_quantity l)) xs) p"

lemma qty_at_simps [simp]:
  "qty_at [] p = 0"
  "qty_at (x # xs) p = (if l2_price x = p then l2_quantity x else qty_at xs p)"
  by (auto simp: qty_at_def lookup0_def)

lemma side_ok_simps [simp]:
  "side_ok s []"
  "side_ok s (x # xs) \<longleftrightarrow> (\<forall>l \<in> set xs. before s (l2_price x) (l2_price l)) \<and> l2_quantity x \<noteq> 0 \<and> side_ok s xs"
  by (auto simp: side_ok_def)

lemma qty_at_zero: "side_ok s xs \<Longrightarrow> qty_at xs p = 0 \<longleftrightarrow> p \<notin> l2_price ` set xs"
  by (induction xs) auto

lemma qty_at_absent: "p \<notin> l2_price ` set xs \<Longrightarrow> qty_at xs p = 0"
  by (induction xs) auto

lemma not_after: "\<forall>l \<in> set xs. before s a (l2_price l) \<Longrightarrow> \<not> before s a p \<Longrightarrow> p \<notin> l2_price ` set xs"
  by auto

text \<open>The level vector after a change, without positions.\<close>

fun set_level :: "side \<Rightarrow> l2_level list \<Rightarrow> price \<Rightarrow> quantity \<Rightarrow> l2_level list" where
  "set_level s [] p q = (if q = 0 then [] else [\<lparr>l2_price = p, l2_quantity = q\<rparr>])"
| "set_level s (x # xs) p q =
     (if before s (l2_price x) p then x # set_level s xs p q
      else if l2_price x = p then if q = 0 then xs else x\<lparr>l2_quantity := q\<rparr> # xs
      else if q = 0 then x # xs else \<lparr>l2_price = p, l2_quantity = q\<rparr> # x # xs)"

lemma set_level_prices: "l2_price ` set (set_level s xs p q) \<subseteq> insert p (l2_price ` set xs)"
  by (induction xs) auto

lemma l2_lower_bound_simps [simp]:
  "l2_lower_bound s [] p = 0"
  "l2_lower_bound s (x # xs) p = (if before s (l2_price x) p then Suc (l2_lower_bound s xs p) else 0)"
  by (simp_all add: l2_lower_bound_def)

lemma l2_lower_bound_found:
  "side_ok s xs \<Longrightarrow>
     l2_lower_bound s xs p < length xs \<and> l2_price (xs ! l2_lower_bound s xs p) = p \<longleftrightarrow> qty_at xs p \<noteq> 0"
proof (induction xs)
  case (Cons x xs)
  have "qty_at xs p = 0" if "\<not> before s (l2_price x) p"
    using that Cons.prems by (intro qty_at_absent not_after [of _ s]) auto
  with Cons show ?case by auto
qed simp

lemma set_level_at_bound:
  "l2_lower_bound s xs p < length xs \<and> l2_price (xs ! l2_lower_bound s xs p) = p \<Longrightarrow>
     (if q = 0 then take (l2_lower_bound s xs p) xs @ drop (l2_lower_bound s xs p + 1) xs
      else xs[l2_lower_bound s xs p := (xs ! l2_lower_bound s xs p)\<lparr>l2_quantity := q\<rparr>]) = set_level s xs p q"
  by (induction xs) (auto split: if_splits)

lemma set_level_insert:
  "\<not> (l2_lower_bound s xs p < length xs \<and> l2_price (xs ! l2_lower_bound s xs p) = p) \<Longrightarrow>
     (if q = 0 then xs
      else take (l2_lower_bound s xs p) xs @ \<lparr>l2_price = p, l2_quantity = q\<rparr> # drop (l2_lower_bound s xs p) xs) =
     set_level s xs p q"
  by (induction xs) (auto split: if_splits)

lemma change_levels_eq:
  "side_ok s xs \<Longrightarrow> change_levels m s xs p q =
     (if q \<noteq> 0 \<and> qty_at xs p = 0 \<and> length xs = m then None else Some (set_level s xs p q))"
  using l2_lower_bound_found [of s xs p] set_level_at_bound [of s xs p q] set_level_insert [of s xs p q]
  by (auto simp: change_levels_def Let_def split: if_splits)

lemma side_ok_set_level: "side_ok s xs \<Longrightarrow> side_ok s (set_level s xs p q)"
proof (induction xs)
  case (Cons x xs)
  have "before s (l2_price x) (l2_price l)" if "l \<in> set (set_level s xs p q)" "before s (l2_price x) p" for l
    using that Cons.prems set_level_prices [of s xs p q] by auto
  moreover have "before s p (l2_price l)" if "\<not> before s (l2_price x) p" "l2_price x \<noteq> p" "l \<in> set (x # xs)" for l
    using that Cons.prems before_total [of s "l2_price x" p] before_trans [of s p "l2_price x"] by auto
  ultimately show ?case using Cons by auto
qed simp

lemma qty_at_set_level: "side_ok s xs \<Longrightarrow> qty_at (set_level s xs p q) = (qty_at xs)(p := q)"
proof (induction xs)
  case (Cons x xs)
  have "qty_at xs p = 0" if "\<not> before s (l2_price x) p"
    using that Cons.prems by (intro qty_at_absent not_after [of _ s]) auto
  with Cons show ?case by (auto simp: fun_eq_iff)
qed (simp add: fun_eq_iff)

text \<open>The number of levels is the number of prices with a quantity.\<close>

lemma length_levels: "side_ok s xs \<Longrightarrow> length xs = card {p. qty_at xs p \<noteq> 0}"
proof -
  assume ok: "side_ok s xs"
  then have "distinct (map l2_price xs)"
    by (induction xs) auto
  then have "length xs = card (l2_price ` set xs)" by (metis distinct_card length_map set_map)
  also have "l2_price ` set xs = {p. qty_at xs p \<noteq> 0}" using qty_at_zero [OF ok] by auto
  finally show ?thesis .
qed

section \<open>The book\<close>

definition vb_content :: "vector_book \<Rightarrow> l2_content" where
  "vb_content b s p = qty_at (vb_levels b s) p"

definition vb_ok :: "vector_book \<Rightarrow> bool" where
  "vb_ok b \<longleftrightarrow> (\<forall>s. side_ok s (vb_levels b s) \<and> length (vb_levels b s) \<le> vb_maximum_levels b)"

definition level_total_count :: "l2_content \<Rightarrow> side \<Rightarrow> nat" where
  "level_total_count f s = card {p. f s p \<noteq> 0}"

lemma vb_simps [simp]:
  "vb_levels (vb_set_levels b s xs) t = (if t = s then xs else vb_levels b t)"
  "vb_maximum_levels (vb_set_levels b s xs) = vb_maximum_levels b"
  "vb_update_id (vb_set_levels b s xs) = vb_update_id b"
  "vb_valid (vb_set_levels b s xs) = vb_valid b"
  "vb_levels (b\<lparr>vb_update_id := u\<rparr>) t = vb_levels b t"
  "vb_levels (b\<lparr>vb_valid := v\<rparr>) t = vb_levels b t"
  by (cases t; cases s; simp add: vb_levels_def vb_set_levels_def)+

lemma vb_count: "vb_ok b \<Longrightarrow> length (vb_levels b s) = level_total_count (vb_content b) s"
  using length_levels [of s "vb_levels b s"] by (simp add: vb_ok_def level_total_count_def vb_content_def)

lemma vb_okD: "vb_ok b \<Longrightarrow> side_ok s (vb_levels b s)" "vb_ok b \<Longrightarrow> length (vb_levels b s) \<le> vb_maximum_levels b"
  by (simp_all add: vb_ok_def)

lemma vb_content_put:
  "vb_ok b \<Longrightarrow> vb_content (vb_set_levels b (ch_side c) (set_level (ch_side c) (vb_levels b (ch_side c)) (ch_price c) (ch_quantity c))) =
     put c (vb_content b)"
  by (auto simp: fun_eq_iff vb_content_def put_at qty_at_set_level vb_okD)

text \<open>A change of the content changes the number of levels by at most one.\<close>

lemma count_put:
  "int (level_total_count (put c f) s) = int (level_total_count f s) +
     (if s = ch_side c
      then (if ch_quantity c = 0 \<and> f s (ch_price c) \<noteq> 0 then - 1 else 0) +
           (if ch_quantity c \<noteq> 0 \<and> f s (ch_price c) = 0 then 1 else 0)
      else 0)"
proof (cases "s = ch_side c")
  case True
  let ?S = "{p. f s p \<noteq> 0}"
  have "{p. put c f s p \<noteq> 0} = (if ch_quantity c = 0 then ?S - {ch_price c} else insert (ch_price c) ?S)"
    using True by (auto simp: put_at)
  moreover have "ch_price c \<in> ?S \<Longrightarrow> card ?S \<ge> 1" using card_gt_0_iff [of ?S] by (auto simp: Suc_le_eq)
  ultimately show ?thesis using True
    by (auto simp: level_total_count_def card_insert_if card_Diff_singleton_if of_nat_diff)
next
  case False
  then show ?thesis by (simp add: level_total_count_def)
qed

lemma count_put_mono: "ch_quantity c \<noteq> 0 \<Longrightarrow> level_total_count f s \<le> level_total_count (put c f) s"
  using count_put [of c f s] by (auto split: if_splits)

lemma count_fold_mono:
  "(\<And>c. c \<in> set cs \<Longrightarrow> ch_quantity c \<noteq> 0) \<Longrightarrow> level_total_count f s \<le> level_total_count (fold put cs f) s"
proof (induction cs arbitrary: f)
  case (Cons c cs)
  have "level_total_count f s \<le> level_total_count (put c f) s" using Cons.prems [of c] by (simp add: count_put_mono)
  also have "\<dots> \<le> level_total_count (fold put cs (put c f)) s" using Cons.prems by (intro Cons.IH) simp
  finally show ?case by simp
qed simp

text \<open>A change that leaves room is applied, and it is the change of the content.\<close>

lemma apply_change_eq:
  assumes "vb_ok b" "level_total_count (put c (vb_content b)) (ch_side c) \<le> vb_maximum_levels b"
  shows "\<exists>b'. apply_change b c = (True, b') \<and> vb_ok b' \<and> vb_content b' = put c (vb_content b) \<and>
    vb_maximum_levels b' = vb_maximum_levels b \<and> vb_update_id b' = vb_update_id b \<and> vb_valid b' = vb_valid b"
proof -
  let ?xs = "set_level (ch_side c) (vb_levels b (ch_side c)) (ch_price c) (ch_quantity c)"
  let ?b = "vb_set_levels b (ch_side c) ?xs"
  have "\<not> (ch_quantity c \<noteq> 0 \<and> qty_at (vb_levels b (ch_side c)) (ch_price c) = 0 \<and>
      length (vb_levels b (ch_side c)) = vb_maximum_levels b)"
    using assms(2) count_put [of c "vb_content b" "ch_side c"] vb_count [OF assms(1), of "ch_side c"]
    by (auto simp: vb_content_def)
  then have eq: "apply_change b c = (True, ?b)"
    using change_levels_eq [OF vb_okD(1) [OF assms(1)]] by (auto simp: apply_change_def)
  have content: "vb_content ?b = put c (vb_content b)" by (rule vb_content_put [OF assms(1)])
  have "side_ok (ch_side c) ?xs" by (intro side_ok_set_level vb_okD assms)
  moreover have "qty_at ?xs = put c (vb_content b) (ch_side c)"
    using qty_at_set_level [OF vb_okD(1) [OF assms(1)]] by (auto simp: fun_eq_iff put_at vb_content_def)
  ultimately have "length ?xs \<le> vb_maximum_levels b"
    using assms(2) length_levels [of "ch_side c" ?xs] by (simp add: level_total_count_def)
  then have "vb_ok ?b" using assms(1) \<open>side_ok (ch_side c) ?xs\<close> by (simp add: vb_ok_def)
  with eq content show ?thesis by simp
qed

section \<open>Deltas\<close>

lemma apply_changes_ok:
  "vb_ok b \<Longrightarrow>
     (\<And>n s. level_total_count (fold put (take n (filter sel cs)) (vb_content b)) s \<le> vb_maximum_levels b) \<Longrightarrow>
     \<exists>b'. apply_changes sel b cs = (True, b') \<and> vb_ok b' \<and>
       vb_content b' = fold put (filter sel cs) (vb_content b) \<and>
       vb_maximum_levels b' = vb_maximum_levels b \<and> vb_update_id b' = vb_update_id b \<and> vb_valid b' = vb_valid b"
proof (induction cs arbitrary: b)
  case (Cons c cs)
  show ?case
  proof (cases "sel c")
    case True
    have "level_total_count (put c (vb_content b)) (ch_side c) \<le> vb_maximum_levels b"
      using Cons.prems(2) [of 1 "ch_side c"] True by simp
    from apply_change_eq [OF Cons.prems(1) this] obtain b1 where b1:
      "apply_change b c = (True, b1)" "vb_ok b1" "vb_content b1 = put c (vb_content b)"
      "vb_maximum_levels b1 = vb_maximum_levels b" "vb_update_id b1 = vb_update_id b" "vb_valid b1 = vb_valid b"
      by blast
    have "level_total_count (fold put (take n (filter sel cs)) (vb_content b1)) s \<le> vb_maximum_levels b1" for n s
      using Cons.prems(2) [of "Suc n" s] True b1(3,4) by simp
    from Cons.IH [OF b1(2) this] b1 True show ?thesis by simp
  next
    case False
    with Cons show ?thesis by simp
  qed
qed simp

lemma removals_fit:
  "(\<And>c. c \<in> set cs \<Longrightarrow> ch_quantity c = 0) \<Longrightarrow> level_total_count (fold put cs f) s \<le> level_total_count f s"
proof (induction cs arbitrary: f)
  case (Cons c cs)
  have "level_total_count (fold put cs (put c f)) s \<le> level_total_count (put c f) s"
    using Cons.prems by (intro Cons.IH) simp
  also have "\<dots> \<le> level_total_count f s"
    using count_put [of c f s] Cons.prems [of c] by (auto split: if_splits)
  finally show ?case by simp
qed simp

lemma insertions_fit:
  assumes "\<And>c. c \<in> set cs \<Longrightarrow> ch_quantity c \<noteq> 0"
  shows "level_total_count (fold put (take n cs) f) s \<le> level_total_count (fold put cs f) s"
proof -
  have "level_total_count (fold put (take n cs) f) s \<le> level_total_count (fold put (drop n cs) (fold put (take n cs) f)) s"
    using assms by (intro count_fold_mono) (meson in_set_dropD)
  also have "fold put (drop n cs) (fold put (take n cs) f) = fold put cs f"
    by (metis append_take_drop_id fold_append comp_apply)
  finally show ?thesis .
qed

text \<open>The two loops, removals first, carry out the whole delta whenever its result has room.\<close>

lemma delta_loops:
  assumes ok: "vb_ok b" and dist: "distinct (map ch_key cs)"
    and room: "\<And>s. level_total_count (fold put cs (vb_content b)) s \<le> vb_maximum_levels b"
  shows "\<exists>b1 b2. apply_changes (\<lambda>c. ch_quantity c = 0) b cs = (True, b1) \<and>
    apply_changes (\<lambda>c. ch_quantity c \<noteq> 0) b1 cs = (True, b2) \<and> vb_ok b2 \<and>
    vb_content b2 = fold put cs (vb_content b) \<and>
    vb_maximum_levels b2 = vb_maximum_levels b \<and> vb_update_id b2 = vb_update_id b \<and> vb_valid b2 = vb_valid b"
proof -
  let ?z = "filter (\<lambda>c. ch_quantity c = 0) cs" and ?n = "filter (\<lambda>c. ch_quantity c \<noteq> 0) cs"
  have "level_total_count (fold put (take n ?z) (vb_content b)) s \<le> vb_maximum_levels b" for n s
  proof -
    have "ch_quantity c = 0" if "c \<in> set (take n ?z)" for c using in_set_takeD [OF that] by simp
    then have "level_total_count (fold put (take n ?z) (vb_content b)) s \<le> level_total_count (vb_content b) s"
      by (rule removals_fit)
    with vb_count [OF ok, of s] vb_okD(2) [OF ok, of s] show ?thesis by linarith
  qed
  from apply_changes_ok [OF ok this] obtain b1 where b1:
    "apply_changes (\<lambda>c. ch_quantity c = 0) b cs = (True, b1)" "vb_ok b1" "vb_content b1 = fold put ?z (vb_content b)"
    "vb_maximum_levels b1 = vb_maximum_levels b" "vb_update_id b1 = vb_update_id b" "vb_valid b1 = vb_valid b"
    by blast
  have all: "fold put ?n (vb_content b1) = fold put cs (vb_content b)"
    unfolding b1(3) by (rule fold_put_partition [OF dist])
  have "level_total_count (fold put (take n ?n) (vb_content b1)) s \<le> vb_maximum_levels b1" for n s
    using insertions_fit [of ?n n "vb_content b1" s] room [of s] by (simp add: all b1(4))
  from apply_changes_ok [OF b1(2) this] b1 all show ?thesis by auto
qed

text \<open>\<open>delta_fits\<close> decides in advance whether the levels are distinct and the result has room.\<close>

lemma fold_put_fresh: "(s, p) \<notin> ch_key ` set cs \<Longrightarrow> fold put cs f s p = f s p"
  by (induction cs arbitrary: f) (auto simp: put_at ch_key_def)

lemma delta_fits_from_iff:
  "distinct (map ch_key es) \<Longrightarrow> vb_ok b \<Longrightarrow>
     delta_fits_from b es cs (int (level_total_count (fold put es (vb_content b)) Bid))
         (int (level_total_count (fold put es (vb_content b)) Ask)) \<longleftrightarrow>
       distinct (map ch_key (es @ cs)) \<and>
       (\<forall>s. level_total_count (fold put (es @ cs) (vb_content b)) s \<le> vb_maximum_levels b)"
proof (induction cs arbitrary: es)
  case Nil
  then show ?case by (simp add: all_side)
next
  case (Cons c cs)
  let ?f = "fold put es (vb_content b)"
  show ?case
  proof (cases "ch_key c \<in> ch_key ` set es")
    case True
    then have "\<exists>e \<in> set es. ch_side e = ch_side c \<and> ch_price e = ch_price c" by (auto simp: ch_key_def)
    with True show ?thesis by simp
  next
    case False
    have none: "\<not> (\<exists>e \<in> set es. ch_side e = ch_side c \<and> ch_price e = ch_price c)" using False by (auto simp: ch_key_def image_iff)
    have at: "?f (ch_side c) (ch_price c) \<noteq> 0 \<longleftrightarrow> (\<exists>l \<in> set (vb_levels b (ch_side c)). l2_price l = ch_price c)"
      using False qty_at_zero [OF vb_okD(1) [OF Cons.prems(2)], of "ch_side c" "ch_price c"]
      by (auto simp: fold_put_fresh ch_key_def vb_content_def image_iff)
    have "delta_fits_from b es (c # cs) (int (level_total_count ?f Bid)) (int (level_total_count ?f Ask)) =
      delta_fits_from b (es @ [c]) cs (int (level_total_count (put c ?f) Bid)) (int (level_total_count (put c ?f) Ask))"
      unfolding delta_fits_from.simps(2) Let_def if_not_P [OF none] at [symmetric] count_put
      by (cases "ch_side c") simp_all
    moreover have "distinct (map ch_key (es @ [c]))" using False Cons.prems(1) by auto
    ultimately show ?thesis using Cons.IH [of "es @ [c]"] Cons.prems(2) by simp
  qed
qed

lemma delta_fits_iff:
  "vb_ok b \<Longrightarrow> delta_fits b cs \<longleftrightarrow>
     distinct (map ch_key cs) \<and> (\<forall>s. level_total_count (fold put cs (vb_content b)) s \<le> vb_maximum_levels b)"
  using delta_fits_from_iff [of "[]" b cs] vb_count [of b Bid] vb_count [of b Ask]
  by (simp add: delta_fits_def vb_levels_def)

section \<open>The vectors provide the interface\<close>

lemma vb_ok_new: "vb_ok (vb_new m)"
  by (simp add: vb_ok_def vb_new_def vb_levels_def)

lemma vb_ok_invalidate: "vb_ok (snd (invalidate b))"
  by (simp add: vb_ok_def invalidate_def vb_levels_def)

lemma valid_levels_from_iff:
  "valid_levels_from prev ls s \<longleftrightarrow> side_ok s ls \<and>
     (case prev of None \<Rightarrow> True | Some k \<Rightarrow> \<forall>l \<in> set ls. before s (l2_price k) (l2_price l))"
proof (induction ls arbitrary: prev)
  case (Cons l ls)
  have "(\<forall>x \<in> set (l # ls). before s (l2_price k) (l2_price x)) \<longleftrightarrow> before s (l2_price k) (l2_price l)"
    if "\<forall>x \<in> set ls. before s (l2_price l) (l2_price x)" for k
    using that before_trans by fastforce
  then show ?case
    by (auto simp: Cons.IH before_def not_le split: option.splits if_splits)
qed (simp split: option.splits)

lemma valid_levels_iff: "valid_levels ls s \<longleftrightarrow> side_ok s ls"
  by (simp add: valid_levels_def valid_levels_from_iff)

text \<open>Loading a list of levels puts each of them.\<close>

lemma fold_put_levels:
  "side_ok s ls \<Longrightarrow> fold put (map (level_change s) ls) f t p =
     (if t = s \<and> p \<in> l2_price ` set ls then qty_at ls p else f t p)"
proof (induction ls arbitrary: f)
  case (Cons l ls)
  then show ?case by (auto simp: put_at level_change_def)
qed simp

lemma snapshot_content_at:
  "side_ok Bid bids \<Longrightarrow> side_ok Ask asks \<Longrightarrow>
     snapshot_content bids asks s p = qty_at (if s = Bid then bids else asks) p"
  by (cases s) (auto simp: snapshot_content_def fold_put_levels qty_at_absent)

lemma vb_apply_snapshot_eq:
  assumes "vb_ok b"
  shows "vb_apply_snapshot b u bids asks =
    (if u \<noteq> 0 \<and> length bids \<le> vb_maximum_levels b \<and> length asks \<le> vb_maximum_levels b \<and> side_ok Bid bids \<and> side_ok Ask asks
     then (True, b\<lparr>vb_bids := bids, vb_asks := asks, vb_update_id := u, vb_valid := True\<rparr>) else invalidate b)"
  by (auto simp: vb_apply_snapshot_def valid_levels_iff)

text \<open>The deltas a book accepts.\<close>

definition delta_admitted :: "vector_book \<Rightarrow> u64 \<Rightarrow> l2_change list \<Rightarrow> bool" where
  "delta_admitted b u cs \<longleftrightarrow>
     vb_valid b \<and> vb_update_id b \<noteq> uint64_max \<and> u = vb_update_id b + 1 \<and> distinct (map ch_key cs) \<and>
     (\<forall>s. level_total_count (fold put cs (vb_content b)) s \<le> vb_maximum_levels b)"

lemma vb_apply_delta_accepts:
  assumes ok: "vb_ok b" and ad: "delta_admitted b u cs"
  shows "\<exists>b'. vb_apply_delta b u cs = (True, b') \<and> vb_ok b' \<and> vb_valid b' \<and> vb_update_id b' = u \<and>
    vb_content b' = fold put cs (vb_content b)"
proof -
  obtain b1 b2 where "apply_changes (\<lambda>c. ch_quantity c = 0) b cs = (True, b1)"
    "apply_changes (\<lambda>c. ch_quantity c \<noteq> 0) b1 cs = (True, b2)" "vb_ok b2"
    "vb_content b2 = fold put cs (vb_content b)" "vb_valid b2 = vb_valid b"
    using delta_loops [OF ok, of cs] ad unfolding delta_admitted_def by blast
  then show ?thesis
    using ad delta_fits_iff [OF ok]
    by (simp add: delta_admitted_def vb_apply_delta_def vb_ok_def vb_content_def fun_eq_iff)
qed

lemma vb_apply_delta_refuses: "vb_ok b \<Longrightarrow> \<not> delta_admitted b u cs \<Longrightarrow> vb_apply_delta b u cs = invalidate b"
  using delta_fits_iff [of b cs] by (auto simp: delta_admitted_def vb_apply_delta_def)

lemma head_is_best:
  assumes "vb_ok b" "vb_levels b s \<noteq> []"
  shows "is_best s (vb_content b) (Some (hd (vb_levels b s)))"
proof -
  obtain x xs where xs: "vb_levels b s = x # xs" using assms(2) by (cases "vb_levels b s") auto
  then have ok: "side_ok s (x # xs)" using vb_okD(1) [OF assms(1), of s] by simp
  have "if s = Bid then p \<le> l2_price x else l2_price x \<le> p" if "vb_content b s p \<noteq> 0" for p
    using that ok qty_at_zero [OF ok, of p] unfolding vb_content_def xs by (auto simp: before_def)
  then show ?thesis using ok by (simp add: xs vb_content_def)
qed

lemma vb_best_is:
  assumes "vb_ok b" "vb_valid b"
  shows "is_best Bid (vb_content b) (vb_best_bid b)" "is_best Ask (vb_content b) (vb_best_ask b)"
  using assms head_is_best [OF assms(1), of Bid] head_is_best [OF assms(1), of Ask]
  by (auto simp: vb_best_bid_def vb_best_ask_def vb_levels_def vb_content_def)

interpretation vector_book: l2_book vb_ok vb_valid vb_update_id vb_content vb_apply_snapshot vb_apply_delta vb_best_bid vb_best_ask
proof
  fix b b' u bids asks
  assume ok: "vb_ok b"
  show "vb_ok b' \<and> vb_valid b' \<and> vb_update_id b' = u \<and> u \<noteq> 0 \<and> vb_content b' = snapshot_content bids asks"
    if "vb_apply_snapshot b u bids asks = (True, b')"
    using that unfolding vb_apply_snapshot_eq [OF ok]
    by (auto simp: invalidate_def vb_ok_def all_side vb_levels_def fun_eq_iff vb_content_def snapshot_content_at split: if_splits)
  show "vb_ok b' \<and> \<not> vb_valid b'" if "vb_apply_snapshot b u bids asks = (False, b')"
    using that vb_ok_invalidate [of b] unfolding vb_apply_snapshot_eq [OF ok] by (auto simp: invalidate_def split: if_splits)
next
  fix b b' u cs
  assume ok: "vb_ok b"
  show "vb_ok b' \<and> vb_valid b' \<and> vb_update_id b' = u \<and> vb_valid b \<and> u = vb_update_id b + 1 \<and> vb_content b' = fold put cs (vb_content b)"
    if "vb_apply_delta b u cs = (True, b')"
  proof (cases "delta_admitted b u cs")
    case True
    with that vb_apply_delta_accepts [OF ok True] show ?thesis by (auto simp: delta_admitted_def)
  next
    case False
    with that vb_apply_delta_refuses [OF ok False] show ?thesis by (simp add: invalidate_def)
  qed
  show "vb_ok b' \<and> \<not> vb_valid b'" if "vb_apply_delta b u cs = (False, b')"
  proof (cases "delta_admitted b u cs")
    case True
    with that vb_apply_delta_accepts [OF ok True] show ?thesis by simp
  next
    case False
    with that vb_apply_delta_refuses [OF ok False] vb_ok_invalidate [of b] show ?thesis by (auto simp: invalidate_def)
  qed
qed (use vb_best_is in auto)

text \<open>A feed that the book accepts is numbered and its snapshots have no empty level.\<close>

lemma vb_run_numbered:
  "vb_ok b \<Longrightarrow> (vb_valid b \<Longrightarrow> st = Some (vb_update_id b)) \<Longrightarrow>
     l2_run vb_apply_snapshot vb_apply_delta b ms = Some b' \<Longrightarrow> numbered_feed st ms"
proof (induction ms arbitrary: b st)
  case (Cons m ms)
  show ?case
  proof (cases m)
    case (Snapshot u bids asks)
    obtain b1 where b1: "vb_apply_snapshot b u bids asks = (True, b1)" "l2_run vb_apply_snapshot vb_apply_delta b1 ms = Some b'"
      using Cons.prems(3) Snapshot by (auto split: prod.splits if_splits)
    then have "u \<noteq> 0 \<and> side_ok Bid bids \<and> side_ok Ask asks"
      by (auto simp: vb_apply_snapshot_eq [OF Cons.prems(1)] invalidate_def split: if_splits)
    with Cons.IH [OF _ _ b1(2), of "Some u"] vector_book.snap_accepted [OF Cons.prems(1) b1(1)] Snapshot
    show ?thesis by (auto simp: side_ok_def list_all_iff)
  next
    case (Delta u changes)
    obtain b1 where b1: "vb_apply_delta b u changes = (True, b1)" "l2_run vb_apply_snapshot vb_apply_delta b1 ms = Some b'"
      using Cons.prems(3) Delta by (auto split: prod.splits if_splits)
    with Cons.IH [OF _ _ b1(2), of "Some u"] vector_book.delta_accepted [OF Cons.prems(1) b1(1)] Cons.prems(2) Delta
    show ?thesis by auto
  qed
qed simp

section \<open>Properties\<close>

text \<open>
  C11. A delta is accepted exactly when the book is valid, the delta has the next number, no level
  occurs in it twice, and its result has room: whatever the order of its changes, a level that is
  removed makes room for one that is added. An accepted delta replaces the quantities of exactly its
  levels; a refused one leaves an empty invalid book.
\<close>

theorem vector_delta_iff_admitted:
  assumes "vb_ok b"
  shows "case vb_apply_delta b u cs of (accepted, b') \<Rightarrow>
    (accepted \<longleftrightarrow> delta_admitted b u cs) \<and> vb_ok b' \<and>
    (accepted \<longrightarrow> vb_valid b' \<and> vb_update_id b' = u \<and> vb_content b' = fold put cs (vb_content b)) \<and>
    (\<not> accepted \<longrightarrow> \<not> vb_valid b' \<and> vb_level_count b' = 0)"
proof (cases "delta_admitted b u cs")
  case True
  with vb_apply_delta_accepts [OF assms True] show ?thesis by auto
next
  case False
  with vb_apply_delta_refuses [OF assms False] vb_ok_invalidate [of b] show ?thesis
    by (auto simp: invalidate_def vb_level_count_def)
qed

text \<open>The books that any sequence of messages reaches, accepted or not.\<close>

inductive vb_reachable :: "nat \<Rightarrow> vector_book \<Rightarrow> bool" for maximum where
  new: "vb_reachable maximum (vb_new maximum)"
| snapshot: "vb_reachable maximum b \<Longrightarrow> vb_reachable maximum (snd (vb_apply_snapshot b u bids asks))"
| delta: "vb_reachable maximum b \<Longrightarrow> vb_reachable maximum (snd (vb_apply_delta b u cs))"

lemma vb_ok_step:
  assumes "vb_ok b"
  shows "vb_ok (snd (vb_apply_snapshot b u bids asks))" "vb_ok (snd (vb_apply_delta b u cs))"
proof -
  show "vb_ok (snd (vb_apply_snapshot b u bids asks))"
    using vector_book.snap_accepted [OF assms] vector_book.snap_refused [OF assms]
    by (cases "vb_apply_snapshot b u bids asks"; cases "fst (vb_apply_snapshot b u bids asks)") auto
  show "vb_ok (snd (vb_apply_delta b u cs))"
    using vector_book.delta_accepted [OF assms] vector_book.delta_refused [OF assms]
    by (cases "vb_apply_delta b u cs"; cases "fst (vb_apply_delta b u cs)") auto
qed

lemma apply_changes_maximum: "vb_maximum_levels (snd (apply_changes sel b cs)) = vb_maximum_levels b"
proof (induction cs arbitrary: b)
  case (Cons c cs)
  have "vb_maximum_levels (snd (apply_change b c)) = vb_maximum_levels b"
    by (simp add: apply_change_def split: option.splits)
  with Cons.IH [of "snd (apply_change b c)"] Cons.IH [of b] show ?case by (auto split: prod.splits)
qed simp

lemma vb_maximum_step [simp]:
  "vb_maximum_levels (snd (vb_apply_snapshot b u bids asks)) = vb_maximum_levels b"
  "vb_maximum_levels (snd (vb_apply_delta b u cs)) = vb_maximum_levels b"
proof -
  have "vb_maximum_levels b' = vb_maximum_levels b" if "apply_changes sel b cs = (r, b')" for sel b cs r b'
    using apply_changes_maximum [of sel b cs] that by simp
  then show "vb_maximum_levels (snd (vb_apply_delta b u cs)) = vb_maximum_levels b"
    by (auto simp: vb_apply_delta_def invalidate_def split: prod.splits)
qed (simp add: vb_apply_snapshot_def invalidate_def)

lemma vb_invalid_step:
  assumes "vb_ok b"
  shows "\<not> vb_valid (snd (vb_apply_snapshot b u bids asks)) \<Longrightarrow> vb_apply_snapshot b u bids asks = invalidate b"
    "\<not> vb_valid (snd (vb_apply_delta b u cs)) \<Longrightarrow> vb_apply_delta b u cs = invalidate b"
  using vb_apply_snapshot_eq [OF assms, of u bids asks] vb_apply_delta_refuses [OF assms, of u cs]
    vb_apply_delta_accepts [OF assms, of u cs]
  by (force split: if_splits, cases "delta_admitted b u cs", force+)

lemma vb_reachable_inv:
  "vb_reachable m b \<Longrightarrow> vb_ok b \<and> vb_maximum_levels b = m \<and> (\<not> vb_valid b \<longrightarrow> vb_bids b = [] \<and> vb_asks b = [])"
proof (induction rule: vb_reachable.induct)
  case new
  then show ?case using vb_ok_new by (simp add: vb_new_def)
next
  case (snapshot b u bids asks)
  then show ?case using vb_ok_step(1) vb_invalid_step(1) [of b u bids asks] by (auto simp: invalidate_def)
next
  case (delta b u cs)
  then show ?case using vb_ok_step(2) vb_invalid_step(2) [of b u cs] by (auto simp: invalidate_def)
qed

text \<open>
  C12. Whatever snapshots and deltas arrive, in whatever order and however malformed, the book that
  results has its bids in strictly descending and its asks in strictly ascending order, without empty
  levels and within its capacity, and an invalid book shows no level at all, so that stale state is never
  read.
\<close>

theorem vector_book_safe:
  assumes "vb_reachable m b"
  shows "sorted_wrt (>) (map l2_price (vb_bids b)) \<and> sorted_wrt (<) (map l2_price (vb_asks b)) \<and>
    list_all (\<lambda>l. l2_quantity l \<noteq> 0) (vb_bids b @ vb_asks b) \<and> length (vb_bids b) \<le> m \<and> length (vb_asks b) \<le> m \<and>
    (\<not> vb_valid b \<longrightarrow> vb_best_bid b = None \<and> vb_best_ask b = None \<and> vb_level_count b = 0 \<and>
       vb_top_levels b s k = [] \<and> vb_depth_quantity b s k = 0)"
proof -
  have inv: "vb_ok b" "vb_maximum_levels b = m" "\<not> vb_valid b \<longrightarrow> vb_bids b = [] \<and> vb_asks b = []"
    using vb_reachable_inv [OF assms] by simp_all
  have "side_ok Bid (vb_bids b)" "side_ok Ask (vb_asks b)" "length (vb_bids b) \<le> m" "length (vb_asks b) \<le> m"
    using inv(1,2) unfolding vb_ok_def all_side by (simp_all add: vb_levels_def)
  moreover have "before Bid = (>)" "before Ask = (<)" by (auto simp: before_def fun_eq_iff)
  ultimately show ?thesis using inv(3)
    by (auto simp: side_ok_def list_all_iff vb_best_bid_def vb_best_ask_def vb_level_count_def vb_top_levels_def
        vb_depth_quantity_def vb_levels_def)
qed

text \<open>The two digests of the sources hash a word in the same way.\<close>

lemma ucast_byte: "(ucast (ucast (w :: u64) :: u8) :: u64) = w AND 0xff"
proof -
  have "(0xff :: u64) = mask 8" by (simp add: mask_eq_exp_minus_1)
  then show ?thesis by (auto simp: bit_eq_iff bit_simps)
qed

lemma hash_u64_from_bytes: "n \<le> 8 \<Longrightarrow> hash_u64_from (64 - 8 * n) h v = l2_hash_bytes n h (drop_bit (64 - 8 * n) v)"
proof (induction n arbitrary: h)
  case 0
  then show ?case by (simp add: hash_u64_from.simps)
next
  case (Suc n)
  have "64 - 8 * Suc n < (64 :: nat)" "64 - 8 * Suc n + 8 = 64 - 8 * n" using Suc.prems by simp_all
  moreover have "drop_bit 8 (drop_bit (64 - 8 * Suc n) v) = drop_bit (64 - 8 * n) v"
    using Suc.prems by (simp add: drop_bit_drop_bit)
  ultimately show ?case
    using Suc by (subst hash_u64_from.simps) (simp add: hash_byte_def kFnvPrime_def ucast_byte)
qed

text \<open>
  The byte loop of the level-two digest, which shifts the value, hashes a word to the same value as
  that of the order books, which shifts by a growing distance.
\<close>

lemma l2_hash_u64_same: "l2_hash_u64 hash v = hash_u64 hash v"
  using hash_u64_from_bytes [of 8 hash v] by (simp add: l2_hash_u64_def hash_u64_def)

section \<open>A book on concrete messages\<close>

text \<open>Two levels per side; a delta removes one bid and adds another, in the order that fills the vector first.\<close>

definition sample_bids :: "l2_level list" where
  "sample_bids = [\<lparr>l2_price = 100, l2_quantity = 5\<rparr>, \<lparr>l2_price = 99, l2_quantity = 4\<rparr>]"

definition sample_asks :: "l2_level list" where
  "sample_asks = [\<lparr>l2_price = 102, l2_quantity = 7\<rparr>]"

definition sample_changes :: "l2_change list" where
  "sample_changes = [\<lparr>ch_side = Bid, ch_price = 101, ch_quantity = 3\<rparr>, \<lparr>ch_side = Bid, ch_price = 99, ch_quantity = 0\<rparr>]"

definition sample_l2 :: vector_book where
  "sample_l2 = snd (vb_apply_snapshot (vb_new 2) 7 sample_bids sample_asks)"

lemma sample_l2_reachable: "vb_reachable 2 sample_l2"
  unfolding sample_l2_def by (intro vb_reachable.intros)

theorem vector_delta_iff_admitted_witness: "delta_admitted sample_l2 8 sample_changes"
proof -
  have "fst (vb_apply_delta sample_l2 8 sample_changes)" by code_simp
  moreover have "vb_ok sample_l2" using vb_reachable_inv [OF sample_l2_reachable] by simp
  ultimately show ?thesis using vector_delta_iff_admitted [of sample_l2 8 sample_changes] by (auto split: prod.splits)
qed

theorem vector_book_safe_witness:
  "sorted_wrt (>) (map l2_price (vb_bids (snd (vb_apply_delta sample_l2 8 sample_changes)))) \<and>
   map l2_price (vb_bids (snd (vb_apply_delta sample_l2 8 sample_changes))) = [101, 100]"
proof -
  have "map l2_price (vb_bids (snd (vb_apply_delta sample_l2 8 sample_changes))) = [101, 100]" by code_simp
  then show ?thesis using vector_book_safe [OF vb_reachable.delta [OF sample_l2_reachable], of 8 sample_changes] by simp
qed

end
