(* ===== verification/L2_Dense_Ladder.thy ===== *)
theory L2_Dense_Ladder
  imports L2_Spec Ladder
begin

text \<open>
  The level-two book on a price ladder, \<open>llab::bybit_l2::DenseLadderBook\<close>
  (\<open>cpp/include/llab/bybit_l2_dense_ladder.hpp\<close>): one quantity per tick and side from a minimum price on, and
  the best prices found by a scan.
\<close>

section \<open>State and operations\<close>

record dense_l2_book =
  dn_minimum :: price
  dn_bids :: "quantity list"
  dn_asks :: "quantity list"
  dn_update_id :: u64
  dn_valid :: bool

definition dn_new :: "price \<Rightarrow> nat \<Rightarrow> dense_l2_book" where
  "dn_new minimum_price price_count =
     \<lparr>dn_minimum = minimum_price, dn_bids = replicate price_count 0, dn_asks = replicate price_count 0,
      dn_update_id = 0, dn_valid = False\<rparr>"

definition dn_clear :: "dense_l2_book \<Rightarrow> dense_l2_book" where
  "dn_clear b = b\<lparr>dn_bids := replicate (length (dn_bids b)) 0, dn_asks := replicate (length (dn_asks b)) 0\<rparr>"

text \<open>The range test uses the size of the bid ladder for both sides.\<close>

definition dn_set :: "dense_l2_book \<Rightarrow> l2_change \<Rightarrow> dense_l2_book option" where
  "dn_set b c =
     (if ch_price c < dn_minimum b \<or> unat (ch_price c - dn_minimum b) \<ge> length (dn_bids b) then None
      else let i = unat (ch_price c - dn_minimum b)
           in Some (if ch_side c = Bid then b\<lparr>dn_bids := (dn_bids b)[i := ch_quantity c]\<rparr>
                    else b\<lparr>dn_asks := (dn_asks b)[i := ch_quantity c]\<rparr>))"

text \<open>The loops stop at the first change that is refused; the changes before it stay.\<close>

fun dn_set_each :: "dense_l2_book \<Rightarrow> l2_change list \<Rightarrow> bool \<times> dense_l2_book" where
  "dn_set_each b [] = (True, b)"
| "dn_set_each b (c # cs) = (case dn_set b c of None \<Rightarrow> (False, b) | Some b' \<Rightarrow> dn_set_each b' cs)"

fun dn_apply_all :: "dense_l2_book \<Rightarrow> l2_level list \<Rightarrow> side \<Rightarrow> bool \<times> dense_l2_book" where
  "dn_apply_all b [] s = (True, b)"
| "dn_apply_all b (l # ls) s =
     (if l2_quantity l = 0 then (False, b)
      else case dn_set b \<lparr>ch_side = s, ch_price = l2_price l, ch_quantity = l2_quantity l\<rparr> of
             None \<Rightarrow> (False, b) | Some b' \<Rightarrow> dn_apply_all b' ls s)"

definition dn_apply_snapshot :: "dense_l2_book \<Rightarrow> u64 \<Rightarrow> l2_level list \<Rightarrow> l2_level list \<Rightarrow> bool \<times> dense_l2_book" where
  "dn_apply_snapshot b u bids asks =
     (let b = dn_clear b
      in if u = 0 then (False, b\<lparr>dn_valid := False\<rparr>)
         else case dn_apply_all b bids Bid of (loaded, b) \<Rightarrow>
           if \<not> loaded then (False, b\<lparr>dn_valid := False\<rparr>)
           else case dn_apply_all b asks Ask of (loaded, b) \<Rightarrow>
             if \<not> loaded then (False, b\<lparr>dn_valid := False\<rparr>)
             else (True, b\<lparr>dn_update_id := u, dn_valid := True\<rparr>))"

definition dn_apply_delta :: "dense_l2_book \<Rightarrow> u64 \<Rightarrow> l2_change list \<Rightarrow> bool \<times> dense_l2_book" where
  "dn_apply_delta b u changes =
     (if \<not> dn_valid b \<or> u \<noteq> dn_update_id b + 1 then (False, b\<lparr>dn_valid := False\<rparr>)
      else case dn_set_each b changes of (loaded, b) \<Rightarrow>
        if \<not> loaded then (False, b\<lparr>dn_valid := False\<rparr>) else (True, b\<lparr>dn_update_id := u\<rparr>))"

definition dn_best_bid :: "dense_l2_book \<Rightarrow> l2_level option" where
  "dn_best_bid b = map_option (\<lambda>i. \<lparr>l2_price = dn_minimum b + of_nat i, l2_quantity = dn_bids b ! i\<rparr>)
     (scan_down (dn_bids b) (length (dn_bids b)))"

definition dn_best_ask :: "dense_l2_book \<Rightarrow> l2_level option" where
  "dn_best_ask b = map_option (\<lambda>i. \<lparr>l2_price = dn_minimum b + of_nat i, l2_quantity = dn_asks b ! i\<rparr>)
     (scan_up (dn_asks b) 0)"

section \<open>Content\<close>

definition dn_ladder :: "dense_l2_book \<Rightarrow> side \<Rightarrow> quantity list" where
  "dn_ladder b s = (if s = Bid then dn_bids b else dn_asks b)"

definition dn_content :: "dense_l2_book \<Rightarrow> l2_content" where
  "dn_content b s p = ladder_at (dn_minimum b) (dn_ladder b s) p"

definition dn_ok :: "price \<Rightarrow> nat \<Rightarrow> dense_l2_book \<Rightarrow> bool" where
  "dn_ok base n b \<longleftrightarrow> dn_minimum b = base \<and> length (dn_bids b) = n \<and> length (dn_asks b) = n \<and> ladder_fits base n"

lemma dn_ok_new: "ladder_fits base n \<Longrightarrow> dn_ok base n (dn_new base n)"
  by (simp add: dn_ok_def dn_new_def)

lemma dn_ok_simps [simp]:
  "dn_ok base n (b\<lparr>dn_valid := v\<rparr>) = dn_ok base n b"
  "dn_ok base n (b\<lparr>dn_update_id := u\<rparr>) = dn_ok base n b"
  "dn_content (b\<lparr>dn_valid := v\<rparr>) = dn_content b"
  "dn_content (b\<lparr>dn_update_id := u\<rparr>) = dn_content b"
  by (simp_all add: dn_ok_def dn_content_def dn_ladder_def fun_eq_iff)

lemma dn_clear_simps [simp]:
  "dn_ok base n (dn_clear b) = dn_ok base n b"
  "dn_content (dn_clear b) = (\<lambda>_ _. 0)"
  by (auto simp: dn_ok_def dn_clear_def dn_content_def dn_ladder_def ladder_at_def in_ladder_def fun_eq_iff)

lemma dn_set_eq:
  assumes "dn_ok base n b"
  shows "case dn_set b c of None \<Rightarrow> \<not> in_ladder base n (ch_price c)
    | Some b' \<Rightarrow> in_ladder base n (ch_price c) \<and> dn_ok base n b' \<and> dn_content b' = put c (dn_content b) \<and>
        dn_valid b' = dn_valid b \<and> dn_update_id b' = dn_update_id b"
proof (cases "in_ladder base n (ch_price c)")
  case True
  let ?i = "unat (ch_price c - base)"
  have "ladder_at base (xs[?i := q]) p = (if p = ch_price c then q else ladder_at base xs p)" if "length xs = n" for xs q p
    using ladder_at_update [of base xs "ch_price c" q p] that True by simp
  with True assms show ?thesis
    by (cases "ch_side c") (auto simp: dn_set_def dn_ok_def in_ladder_def dn_content_def dn_ladder_def put_at Let_def fun_eq_iff all_side)
next
  case False
  with assms show ?thesis by (auto simp: dn_set_def dn_ok_def in_ladder_def)
qed

lemma dn_set_each_eq:
  assumes "dn_ok base n b" "dn_set_each b cs = (loaded, b')"
  shows "dn_ok base n b' \<and> (loaded \<longleftrightarrow> list_all (\<lambda>c. in_ladder base n (ch_price c)) cs) \<and>
    (loaded \<longrightarrow> dn_content b' = fold put cs (dn_content b) \<and> dn_valid b' = dn_valid b)"
  using assms
proof (induction cs arbitrary: b)
  case (Cons c cs)
  show ?case
  proof (cases "dn_set b c")
    case None
    with Cons.prems dn_set_eq [OF Cons.prems(1), of c] show ?thesis by auto
  next
    case (Some b1)
    with Cons.prems dn_set_eq [OF Cons.prems(1), of c] Cons.IH [of b1] show ?thesis by auto
  qed
qed simp

lemma dn_apply_all_each:
  "dn_apply_all b ls s =
     (if list_all (\<lambda>l. l2_quantity l \<noteq> 0) ls then dn_set_each b (map (level_change s) ls)
      else (False, snd (dn_apply_all b ls s)))"
  by (induction ls arbitrary: b) (auto simp: level_change_def split: option.splits)

lemma dn_apply_all_ok: "dn_ok base n b \<Longrightarrow> dn_ok base n (snd (dn_apply_all b ls s))"
proof (induction ls arbitrary: b)
  case (Cons l ls)
  then show ?case using dn_set_eq [OF Cons.prems, of "\<lparr>ch_side = s, ch_price = l2_price l, ch_quantity = l2_quantity l\<rparr>"]
    by (auto split: option.splits)
qed simp

lemma dn_apply_all_eq:
  assumes "dn_ok base n b" "dn_apply_all b ls s = (loaded, b')"
  shows "dn_ok base n b' \<and>
    (loaded \<longleftrightarrow> list_all (\<lambda>l. l2_quantity l \<noteq> 0) ls \<and> list_all (\<lambda>l. in_ladder base n (l2_price l)) ls) \<and>
    (loaded \<longrightarrow> dn_content b' = fold put (map (level_change s) ls) (dn_content b))"
proof (cases "list_all (\<lambda>l. l2_quantity l \<noteq> 0) ls")
  case True
  then have "dn_set_each b (map (level_change s) ls) = (loaded, b')" using assms(2) dn_apply_all_each [of b ls s] by simp
  from dn_set_each_eq [OF assms(1) this] True show ?thesis by (simp add: list.pred_map comp_def level_change_def)
next
  case False
  then have "loaded = False" using assms(2) dn_apply_all_each [of b ls s] by (simp split: if_splits)
  with False assms dn_apply_all_ok [OF assms(1), of ls s] show ?thesis by simp
qed

section \<open>The ladder provides the interface\<close>

lemma dn_apply_snapshot_eq:
  assumes ok: "dn_ok base n b" and snap: "dn_apply_snapshot b u bids asks = (accepted, b')"
  shows "dn_ok base n b' \<and>
    (accepted \<longleftrightarrow> u \<noteq> 0 \<and> list_all (\<lambda>l. l2_quantity l \<noteq> 0) (bids @ asks) \<and>
       list_all (\<lambda>l. in_ladder base n (l2_price l)) (bids @ asks)) \<and>
    (accepted \<longrightarrow> dn_valid b' \<and> dn_update_id b' = u \<and> dn_content b' = snapshot_content bids asks) \<and>
    (\<not> accepted \<longrightarrow> \<not> dn_valid b')"
proof (cases "u = 0")
  case True
  with snap ok show ?thesis by (auto simp: dn_apply_snapshot_def)
next
  case False
  obtain l1 b1 where b1: "dn_apply_all (dn_clear b) bids Bid = (l1, b1)" by fastforce
  obtain l2 b2 where b2: "dn_apply_all b1 asks Ask = (l2, b2)" by fastforce
  have "dn_ok base n (dn_clear b)" using ok by simp
  note e1 = dn_apply_all_eq [OF this b1]
  then have "dn_ok base n b1" by simp
  note e2 = dn_apply_all_eq [OF this b2]
  show ?thesis using False snap e1 e2
    by (auto simp: dn_apply_snapshot_def Let_def b1 b2 snapshot_content_def split: if_splits)
qed

lemma dn_apply_delta_eq:
  assumes ok: "dn_ok base n b" and delta: "dn_apply_delta b u cs = (accepted, b')"
  shows "dn_ok base n b' \<and>
    (accepted \<longleftrightarrow> dn_valid b \<and> u = dn_update_id b + 1 \<and> list_all (\<lambda>c. in_ladder base n (ch_price c)) cs) \<and>
    (accepted \<longrightarrow> dn_valid b' \<and> dn_update_id b' = u \<and> dn_content b' = fold put cs (dn_content b)) \<and>
    (\<not> accepted \<longrightarrow> \<not> dn_valid b')"
proof -
  obtain l1 b1 where b1: "dn_set_each b cs = (l1, b1)" by fastforce
  show ?thesis using dn_set_each_eq [OF ok b1] delta ok
    by (auto simp: dn_apply_delta_def b1 split: if_splits)
qed

text \<open>The occupied prices of a side are the occupied offsets of its ladder.\<close>

lemma dn_content_at:
  assumes "dn_ok base n b" "i < n"
  shows "dn_content b s (ladder_price base i) = dn_ladder b s ! i"
  using assms ladder_at_price [of base "dn_ladder b s" i] by (auto simp: dn_ok_def dn_content_def dn_ladder_def)

lemma dn_content_nonzero:
  assumes "dn_ok base n b" "dn_content b s p \<noteq> 0"
  shows "\<exists>i < n. p = ladder_price base i \<and> dn_ladder b s ! i \<noteq> 0"
proof -
  have "length (dn_ladder b s) = n" "dn_minimum b = base" using assms(1) by (auto simp: dn_ok_def dn_ladder_def)
  moreover from this have "in_ladder base n p" "dn_ladder b s ! unat (p - base) \<noteq> 0"
    using assms(2) by (auto simp: dn_content_def ladder_at_def split: if_splits)
  ultimately show ?thesis using in_ladderD [of base n p] by metis
qed

lemma dn_best_at:
  assumes ok: "dn_ok base n b" and i: "i < n" "dn_ladder b s ! i \<noteq> 0"
    and least: "\<And>j. j < n \<Longrightarrow> dn_ladder b s ! j \<noteq> 0 \<Longrightarrow> if s = Bid then j \<le> i else i \<le> j"
  shows "is_best s (dn_content b) (Some \<lparr>l2_price = ladder_price base i, l2_quantity = dn_ladder b s ! i\<rparr>)"
proof -
  have fits: "ladder_fits base n" using ok by (simp add: dn_ok_def)
  have "if s = Bid then p \<le> ladder_price base i else ladder_price base i \<le> p" if nz: "dn_content b s p \<noteq> 0" for p
  proof -
    obtain j where j: "j < n" "p = ladder_price base j" "dn_ladder b s ! j \<noteq> 0"
      using dn_content_nonzero [OF ok nz] by blast
    with least [OF j(1,3)] i(1) show ?thesis
      by (auto simp: not_less [symmetric] ladder_price_less [OF fits] split: if_splits)
  qed
  then show ?thesis using i(2) dn_content_at [OF ok i(1), of s] by simp
qed

lemma dn_best_is:
  assumes ok: "dn_ok base n b"
  shows "is_best Bid (dn_content b) (dn_best_bid b)" "is_best Ask (dn_content b) (dn_best_ask b)"
proof -
  have len: "length (dn_bids b) = n" "length (dn_asks b) = n" "dn_minimum b = base" using ok by (auto simp: dn_ok_def)
  have none: "is_best s (dn_content b) None" if "\<And>j. j < n \<Longrightarrow> dn_ladder b s ! j = 0" for s
    using that dn_content_nonzero [OF ok, of s] by auto
  show "is_best Bid (dn_content b) (dn_best_bid b)"
  proof (cases "scan_down (dn_bids b) n")
    case None
    then have "is_best Bid (dn_content b) None" by (intro none) (simp add: scan_down_None dn_ladder_def)
    then show ?thesis using None len by (simp add: dn_best_bid_def del: is_best.simps)
  next
    case (Some i)
    from scan_down_Some [OF this] dn_best_at [OF ok, of i Bid] show ?thesis
      using len Some by (auto simp: dn_best_bid_def dn_ladder_def ladder_price_def not_le [symmetric] simp del: is_best.simps)
  qed
  show "is_best Ask (dn_content b) (dn_best_ask b)"
  proof (cases "scan_up (dn_asks b) 0")
    case None
    then have "is_best Ask (dn_content b) None" using len by (intro none) (simp add: scan_up_None dn_ladder_def)
    then show ?thesis using None by (simp add: dn_best_ask_def del: is_best.simps)
  next
    case (Some i)
    from scan_up_Some [OF this] dn_best_at [OF ok, of i Ask] show ?thesis
      using len Some by (auto simp: dn_best_ask_def dn_ladder_def ladder_price_def not_le [symmetric] simp del: is_best.simps)
  qed
qed

interpretation dense_l2: l2_accepting "dn_ok base n" dn_valid dn_update_id dn_content dn_apply_snapshot dn_apply_delta
  dn_best_bid dn_best_ask "in_ladder base n" for base n
proof
  fix b b' u bids asks cs
  assume ok: "dn_ok base n b"
  show "dn_ok base n b' \<and> dn_valid b' \<and> dn_update_id b' = u \<and> u \<noteq> 0 \<and> dn_content b' = snapshot_content bids asks"
    if "dn_apply_snapshot b u bids asks = (True, b')"
    using dn_apply_snapshot_eq [OF ok that] by simp
  show "dn_ok base n b' \<and> \<not> dn_valid b'" if "dn_apply_snapshot b u bids asks = (False, b')"
    using dn_apply_snapshot_eq [OF ok that] by simp
  show "dn_ok base n b' \<and> dn_valid b' \<and> dn_update_id b' = u \<and> dn_valid b \<and> u = dn_update_id b + 1 \<and>
      dn_content b' = fold put cs (dn_content b)" if "dn_apply_delta b u cs = (True, b')"
    using dn_apply_delta_eq [OF ok that] by simp
  show "dn_ok base n b' \<and> \<not> dn_valid b'" if "dn_apply_delta b u cs = (False, b')"
    using dn_apply_delta_eq [OF ok that] by simp
  show "fst (dn_apply_snapshot b u bids asks)" if "u \<noteq> 0" "list_all (\<lambda>l. l2_quantity l \<noteq> 0) (bids @ asks)"
    "list_all (\<lambda>l. in_ladder base n (l2_price l)) (bids @ asks)"
    using that dn_apply_snapshot_eq [OF ok prod.collapse [symmetric], of u bids asks] by simp
  show "fst (dn_apply_delta b (dn_update_id b + 1) cs)" if "dn_valid b" "list_all (\<lambda>c. in_ladder base n (ch_price c)) cs"
    using that dn_apply_delta_eq [OF ok prod.collapse [symmetric], of "dn_update_id b + 1" cs] by simp
qed (use dn_best_is in auto)

end
