(* ===== verification/L2_Ordered_Map.thy ===== *)
theory L2_Ordered_Map
  imports L2_Spec Order_Book
begin

text \<open>
  The level-two book on ordered maps, \<open>llab::bybit_l2::OrderedMapBook\<close>
  (\<open>cpp/include/llab/bybit_l2_ordered_map.hpp\<close>). The maps are the sorted association lists of version 1 of the
  order book.
\<close>

section \<open>State and operations\<close>

record map_l2_book =
  om_bids :: "(price \<times> quantity) list"
  om_asks :: "(price \<times> quantity) list"
  om_update_id :: u64
  om_valid :: bool

definition om_new :: map_l2_book where
  "om_new = \<lparr>om_bids = [], om_asks = [], om_update_id = 0, om_valid = False\<rparr>"

definition om_side :: "map_l2_book \<Rightarrow> side \<Rightarrow> (price \<times> quantity) list" where
  "om_side b s = (if s = Bid then om_bids b else om_asks b)"

definition om_set_side :: "map_l2_book \<Rightarrow> side \<Rightarrow> (price \<times> quantity) list \<Rightarrow> map_l2_book" where
  "om_set_side b s xs = (if s = Bid then b\<lparr>om_bids := xs\<rparr> else b\<lparr>om_asks := xs\<rparr>)"

fun om_load :: "map_l2_book \<Rightarrow> l2_level list \<Rightarrow> side \<Rightarrow> bool \<times> map_l2_book" where
  "om_load b [] s = (True, b)"
| "om_load b (l # ls) s =
     (if l2_quantity l = 0 then (False, b)
      else om_load (om_set_side b s (omap_put (l2_price l) (l2_quantity l) (om_side b s))) ls s)"

definition om_change :: "map_l2_book \<Rightarrow> l2_change \<Rightarrow> map_l2_book" where
  "om_change b c =
     om_set_side b (ch_side c)
       (if ch_quantity c \<noteq> 0 then omap_put (ch_price c) (ch_quantity c) (om_side b (ch_side c))
        else omap_erase (ch_price c) (om_side b (ch_side c)))"

definition om_apply_snapshot :: "map_l2_book \<Rightarrow> u64 \<Rightarrow> l2_level list \<Rightarrow> l2_level list \<Rightarrow> bool \<times> map_l2_book" where
  "om_apply_snapshot b u bids asks =
     (let b = b\<lparr>om_bids := [], om_asks := []\<rparr>
      in if u = 0 then (False, b\<lparr>om_valid := False\<rparr>)
         else case om_load b bids Bid of (loaded, b) \<Rightarrow>
           if \<not> loaded then (False, b\<lparr>om_valid := False\<rparr>)
           else case om_load b asks Ask of (loaded, b) \<Rightarrow>
             if \<not> loaded then (False, b\<lparr>om_valid := False\<rparr>)
             else (True, b\<lparr>om_update_id := u, om_valid := True\<rparr>))"

definition om_apply_delta :: "map_l2_book \<Rightarrow> u64 \<Rightarrow> l2_change list \<Rightarrow> bool \<times> map_l2_book" where
  "om_apply_delta b u changes =
     (if \<not> om_valid b \<or> u \<noteq> om_update_id b + 1 then (False, b\<lparr>om_valid := False\<rparr>)
      else (True, (foldl om_change b changes)\<lparr>om_update_id := u\<rparr>))"

definition om_best_bid :: "map_l2_book \<Rightarrow> l2_level option" where
  "om_best_bid b = (if om_bids b = [] then None
     else Some \<lparr>l2_price = fst (last (om_bids b)), l2_quantity = snd (last (om_bids b))\<rparr>)"

definition om_best_ask :: "map_l2_book \<Rightarrow> l2_level option" where
  "om_best_ask b = (if om_asks b = [] then None
     else Some \<lparr>l2_price = fst (hd (om_asks b)), l2_quantity = snd (hd (om_asks b))\<rparr>)"

section \<open>Content\<close>

definition om_content :: "map_l2_book \<Rightarrow> l2_content" where
  "om_content b s p = lookup0 (om_side b s) p"

definition om_side_ok :: "(price \<times> quantity) list \<Rightarrow> bool" where
  "om_side_ok xs \<longleftrightarrow> sorted_wrt (<) (map fst xs) \<and> (\<forall>(p, q) \<in> set xs. q \<noteq> 0)"

definition om_ok :: "map_l2_book \<Rightarrow> bool" where
  "om_ok b \<longleftrightarrow> (\<forall>s. om_side_ok (om_side b s))"

lemma om_side_simps [simp]:
  "om_side (om_set_side b s xs) t = (if t = s then xs else om_side b t)"
  "om_valid (om_set_side b s xs) = om_valid b"
  "om_update_id (om_set_side b s xs) = om_update_id b"
  "om_side (b\<lparr>om_valid := v\<rparr>) t = om_side b t"
  "om_side (b\<lparr>om_update_id := u\<rparr>) t = om_side b t"
  "om_side (b\<lparr>om_bids := [], om_asks := []\<rparr>) t = []"
  by (cases t; cases s; simp add: om_side_def om_set_side_def)+

lemma om_ok_new: "om_ok om_new"
  by (simp add: om_ok_def om_new_def om_side_def om_side_ok_def)

lemma om_side_ok_put: "om_side_ok xs \<Longrightarrow> q \<noteq> 0 \<Longrightarrow> om_side_ok (omap_put p q xs)"
  using set_omap_put [of p q xs] by (auto simp: om_side_ok_def sorted_omap_put)

lemma om_side_ok_erase: "om_side_ok xs \<Longrightarrow> om_side_ok (omap_erase p xs)"
  using sorted_omap_erase [of xs p] by (auto simp: om_side_ok_def omap_erase_def)

lemma om_change_ok: "om_ok b \<Longrightarrow> om_ok (om_change b c)"
  by (auto simp: om_ok_def om_change_def om_side_ok_put om_side_ok_erase)

lemma om_change_content: "om_ok b \<Longrightarrow> om_content (om_change b c) = put c (om_content b)"
  by (auto simp: om_change_def om_content_def put_at fun_eq_iff lookup0_def om_ok_def om_side_ok_def
      map_of_omap_put map_of_omap_erase)

lemma om_change_other [simp]:
  "om_valid (om_change b c) = om_valid b" "om_update_id (om_change b c) = om_update_id b"
  by (simp_all add: om_change_def)

lemma om_changes:
  "om_ok b \<Longrightarrow> om_ok (foldl om_change b cs) \<and> om_content (foldl om_change b cs) = fold put cs (om_content b) \<and>
     om_valid (foldl om_change b cs) = om_valid b"
  by (induction cs arbitrary: b) (auto simp: om_change_ok om_change_content)

text \<open>Loading levels is changing them one after the other.\<close>

lemma om_load_eq:
  "om_load b ls s = (if list_all (\<lambda>l. l2_quantity l \<noteq> 0) ls then (True, foldl om_change b (map (level_change s) ls))
     else (False, foldl om_change b (map (level_change s) (takeWhile (\<lambda>l. l2_quantity l \<noteq> 0) ls))))"
  by (induction ls arbitrary: b) (auto simp: om_change_def level_change_def)

section \<open>The maps provide the interface\<close>

lemma om_apply_snapshot_eq:
  assumes "om_apply_snapshot b u bids asks = (accepted, b')"
  shows "om_ok b' \<and>
    (accepted \<longleftrightarrow> u \<noteq> 0 \<and> list_all (\<lambda>l. l2_quantity l \<noteq> 0) (bids @ asks)) \<and>
    (accepted \<longrightarrow> om_valid b' \<and> om_update_id b' = u \<and> om_content b' = snapshot_content bids asks) \<and>
    (\<not> accepted \<longrightarrow> \<not> om_valid b')"
proof -
  let ?b = "b\<lparr>om_bids := [], om_asks := []\<rparr>"
  have ok: "om_ok ?b" and empty: "om_content ?b = (\<lambda>_ _. 0)"
    by (simp_all add: om_ok_def om_side_ok_def om_content_def lookup0_def fun_eq_iff)
  have keep: "om_ok (c\<lparr>om_valid := v\<rparr>) = om_ok c" "om_ok (c\<lparr>om_update_id := u\<rparr>) = om_ok c"
    "om_content (c\<lparr>om_valid := v\<rparr>) = om_content c" "om_content (c\<lparr>om_update_id := u\<rparr>) = om_content c" for c v u
    by (simp_all add: om_ok_def om_content_def fun_eq_iff)
  note all = om_changes [OF ok] 
  show ?thesis
    using assms all om_changes [OF conjunct1 [OF all]]
    by (auto simp: om_apply_snapshot_def Let_def om_load_eq ok empty keep snapshot_content_def split: if_splits)
qed

lemma om_at:
  assumes "om_side_ok xs" "x \<in> set xs"
  shows "lookup0 xs (fst x) = snd x" "snd x \<noteq> 0"
proof -
  have "distinct (map fst xs)" using assms(1) by (simp add: om_side_ok_def strict_sorted_iff)
  then have "map_of xs (fst x) = Some (snd x)" using assms(2) by (intro map_of_is_SomeI) simp_all
  then show "lookup0 xs (fst x) = snd x" by (simp only: lookup0_def option.case)
  show "snd x \<noteq> 0" using assms by (auto simp: om_side_ok_def)
qed

lemma sorted_ends: "sorted xs \<Longrightarrow> x \<in> set xs \<Longrightarrow> hd xs \<le> x \<and> x \<le> last xs"
  by (induction xs) auto

lemma om_ends:
  assumes "om_side_ok xs" "lookup0 xs p \<noteq> 0"
  shows "p \<le> fst (last xs)" "fst (hd xs) \<le> p"
proof -
  have "p \<in> set (map fst xs)" using assms(2) by (force simp: lookup0_def map_of_eq_None_iff split: option.splits dest: map_of_SomeD)
  moreover have s: "sorted (map fst xs)" using assms(1) by (simp add: om_side_ok_def strict_sorted_iff)
  ultimately have "p \<le> last (map fst xs)" "hd (map fst xs) \<le> p"
    using sorted_ends by blast+
  moreover have "xs \<noteq> []" using assms(2) by (auto simp: lookup0_def)
  ultimately show "p \<le> fst (last xs)" "fst (hd xs) \<le> p" by (simp_all add: last_map hd_map)
qed

lemma om_best_is:
  assumes "om_ok b"
  shows "is_best Bid (om_content b) (om_best_bid b)" "is_best Ask (om_content b) (om_best_ask b)"
proof -
  have ok: "om_side_ok (om_bids b)" "om_side_ok (om_asks b)"
    using assms unfolding om_ok_def all_side by (simp_all add: om_side_def)
  show "is_best Bid (om_content b) (om_best_bid b)"
    using om_at [OF ok(1), of "last (om_bids b)"] om_ends(1) [OF ok(1)]
    by (auto simp: om_best_bid_def om_content_def om_side_def lookup0_def)
  show "is_best Ask (om_content b) (om_best_ask b)"
    using om_at [OF ok(2), of "hd (om_asks b)"] om_ends(2) [OF ok(2)]
    by (auto simp: om_best_ask_def om_content_def om_side_def lookup0_def)
qed

interpretation map_l2: l2_accepting om_ok om_valid om_update_id om_content om_apply_snapshot om_apply_delta
  om_best_bid om_best_ask "\<lambda>_. True"
proof
  fix b b' u bids asks cs
  assume ok: "om_ok b"
  have keep: "om_ok (c\<lparr>om_update_id := u\<rparr>) = om_ok c" "om_content (c\<lparr>om_update_id := u\<rparr>) = om_content c"
    "om_ok (c\<lparr>om_valid := v\<rparr>) = om_ok c" for c v
    by (simp_all add: om_ok_def om_content_def fun_eq_iff)
  show "om_ok b' \<and> om_valid b' \<and> om_update_id b' = u \<and> u \<noteq> 0 \<and> om_content b' = snapshot_content bids asks"
    if "om_apply_snapshot b u bids asks = (True, b')"
    using om_apply_snapshot_eq [OF that] by simp
  show "om_ok b' \<and> \<not> om_valid b'" if "om_apply_snapshot b u bids asks = (False, b')"
    using om_apply_snapshot_eq [OF that] by simp
  show "om_ok b' \<and> om_valid b' \<and> om_update_id b' = u \<and> om_valid b \<and> u = om_update_id b + 1 \<and>
      om_content b' = fold put cs (om_content b)" if "om_apply_delta b u cs = (True, b')"
    using that om_changes [OF ok, of cs] keep by (auto simp: om_apply_delta_def split: if_splits)
  show "om_ok b' \<and> \<not> om_valid b'" if "om_apply_delta b u cs = (False, b')"
    using that ok keep by (auto simp: om_apply_delta_def split: if_splits)
  show "fst (om_apply_snapshot b u bids asks)" if "u \<noteq> 0" "list_all (\<lambda>l. l2_quantity l \<noteq> 0) (bids @ asks)"
    using that om_apply_snapshot_eq [OF prod.collapse [symmetric], of b u bids asks] by simp
  show "fst (om_apply_delta b (om_update_id b + 1) cs)" if "om_valid b"
    using that by (simp add: om_apply_delta_def)
qed (use om_best_is in auto)

end
