(* ===== verification/L2_Benchmark.thy ===== *)
theory L2_Benchmark
  imports L2_Order_Book L2_Dense_Ladder L2_Ordered_Map
begin

text \<open>
  The benchmark of the level-two books, \<open>cpp/benchmarks/bybit_l2_book_benchmark.cpp\<close>: the levels of its snapshot, the changes of
  its three workloads (replaced quantities, and levels that move to and fro in a narrow or a wide book), and the run of one sample over any of
  the three books, without the clock.
\<close>

section \<open>The feed\<close>

definition kL2Events :: nat where
  "kL2Events = 100000"

definition bench_n :: "string \<Rightarrow> nat" where
  "bench_n w = (if w = ''wide'' then 1000 else 50)"

definition bench_gap :: "string \<Rightarrow> price" where
  "bench_gap w = (if w = ''wide'' then 1000 else 2)"

definition bench_levels :: "side \<Rightarrow> nat \<Rightarrow> price \<Rightarrow> l2_level list" where
  "bench_levels s n gap =
     map (\<lambda>i. \<lparr>l2_price = (if s = Bid then 2000000 - of_nat i * gap else 2000001 + of_nat i * gap),
               l2_quantity = 100 + of_nat i\<rparr>) [0..<n]"

definition bench_change :: "string \<Rightarrow> l2_level list \<Rightarrow> l2_level list \<Rightarrow> nat \<Rightarrow> l2_change" where
  "bench_change w b a i =
     (let n = bench_n w; gap = bench_gap w;
          side = (if (i div 2) mod 2 \<noteq> 0 then Bid else Ask);
          idx = ((i div 2) div 2) mod n;
          base = (if side = Bid then l2_price (b ! idx) else l2_price (a ! idx));
          round = (i div 2) div (2 * n);
          active = base + (if round mod 2 \<noteq> 0 then gap div 2 else 0);
          other = base + (if round mod 2 \<noteq> 0 then 0 else gap div 2)
      in if w = ''replace'' then \<lparr>ch_side = side, ch_price = base, ch_quantity = 100 + of_nat (i mod 97)\<rparr>
         else if i mod 2 = 0 then \<lparr>ch_side = side, ch_price = active, ch_quantity = 0\<rparr>
         else \<lparr>ch_side = side, ch_price = other, ch_quantity = 100 + of_nat (i mod 97)\<rparr>)"

section \<open>A sample\<close>

text \<open>\<open>None\<close> stands for \<open>std::terminate\<close>, which the run calls when the book refuses a message.\<close>

fun l2_bench_deltas :: "('b \<Rightarrow> u64 \<Rightarrow> l2_change list \<Rightarrow> bool \<times> 'b) \<Rightarrow> 'b \<Rightarrow> nat \<Rightarrow> l2_change list \<Rightarrow> 'b option" where
  "l2_bench_deltas delta x i [] = Some x"
| "l2_bench_deltas delta x i (c # cs) =
     (case delta x (of_nat i + 2) [c] of (accepted, x') \<Rightarrow>
        if accepted then l2_bench_deltas delta x' (i + 1) cs else None)"

text \<open>The value is the one that is folded into \<open>sink\<close>; reading it from an empty book would be undefined, also \<open>None\<close>.\<close>

definition l2_bench_run :: "('b \<Rightarrow> u64 \<Rightarrow> l2_level list \<Rightarrow> l2_level list \<Rightarrow> bool \<times> 'b)
    \<Rightarrow> ('b \<Rightarrow> u64 \<Rightarrow> l2_change list \<Rightarrow> bool \<times> 'b) \<Rightarrow> ('b \<Rightarrow> l2_level option)
    \<Rightarrow> 'b \<Rightarrow> l2_level list \<Rightarrow> l2_level list \<Rightarrow> l2_change list \<Rightarrow> quantity option" where
  "l2_bench_run snap delta best x b a e =
     (case snap x 1 b a of (accepted, x1) \<Rightarrow>
        if \<not> accepted then None
        else case l2_bench_deltas delta x1 0 e of
               None \<Rightarrow> None
             | Some x2 \<Rightarrow> map_option l2_quantity (best x2))"

definition l2_bench_one :: "string \<Rightarrow> string \<Rightarrow> quantity option" where
  "l2_bench_one v w =
     (let n = bench_n w; gap = bench_gap w; b = bench_levels Bid n gap; a = bench_levels Ask n gap;
          e = map (bench_change w b a) [0..<kL2Events]
      in if v = ''vector'' then l2_bench_run vb_apply_snapshot vb_apply_delta vb_best_bid (vb_new n) b a e
         else if v = ''dense'' then l2_bench_run dn_apply_snapshot dn_apply_delta dn_best_bid (dn_new 0 3000000) b a e
         else if v = ''map'' then l2_bench_run om_apply_snapshot om_apply_delta om_best_bid om_new b a e
         else None)"

section \<open>The sample as a feed\<close>

fun delta_feed :: "nat \<Rightarrow> l2_change list \<Rightarrow> l2_message list" where
  "delta_feed i [] = []"
| "delta_feed i (c # cs) = Delta (of_nat i + 2) [c] # delta_feed (i + 1) cs"

lemma l2_bench_deltas_run: "l2_bench_deltas delta x i cs = l2_run snap delta x (delta_feed i cs)"
  by (induction cs arbitrary: x i) (auto split: prod.splits)

lemma l2_bench_run_feed:
  "l2_bench_run snap delta best x b a e =
     (case l2_run snap delta x (Snapshot 1 b a # delta_feed 0 e) of
        None \<Rightarrow> None | Some x' \<Rightarrow> map_option l2_quantity (best x'))"
  by (simp add: l2_bench_run_def l2_bench_deltas_run [where snap = snap] split: prod.splits option.splits)

lemma content_after_deltas: "content_after f (delta_feed i cs) = fold put cs f"
  by (induction cs arbitrary: f i) simp_all

lemma delta_feed_fit: "list_all (prices_fit room) (delta_feed i cs) \<longleftrightarrow> list_all (\<lambda>c. room (ch_price c)) cs"
  by (induction cs arbitrary: i) simp_all

lemma delta_feed_numbered: "numbered_feed (Some (of_nat i + 1)) (delta_feed i cs)"
proof (induction cs arbitrary: i)
  case (Cons c cs)
  have "numbered_feed (Some (of_nat i + 2)) (delta_feed (Suc i) cs)" using Cons.IH [of "Suc i"] by (simp add: add.commute)
  then show ?case by simp
qed simp

section \<open>The three books on one feed\<close>

lemma l2_runs_same:
  assumes run: "l2_run vb_apply_snapshot vb_apply_delta (vb_new maximum) ms = Some v"
    and feed: "ms \<noteq> []" "ladder_fits base n" "list_all (prices_fit (in_ladder base n)) ms"
  shows "\<exists>m d. l2_run om_apply_snapshot om_apply_delta om_new ms = Some m \<and>
    l2_run dn_apply_snapshot dn_apply_delta (dn_new base n) ms = Some d \<and>
    om_best_bid m = vb_best_bid v \<and> dn_best_bid d = vb_best_bid v \<and>
    om_best_ask m = vb_best_ask v \<and> dn_best_ask d = vb_best_ask v"
proof -
  have num: "numbered_feed None ms" using vb_run_numbered [OF vb_ok_new _ run] by (simp add: vb_new_def)
  have "list_all (prices_fit (\<lambda>_. True)) ms"
    by (rule list.pred_mono_strong [OF feed(3)]) (auto elim!: prices_fit.elims simp: list_all_iff)
  then obtain m where m: "l2_run om_apply_snapshot om_apply_delta om_new ms = Some m"
    using map_l2.run_accepts [OF om_ok_new _ num] by auto
  obtain d where d: "l2_run dn_apply_snapshot dn_apply_delta (dn_new base n) ms = Some d"
    using dense_l2.run_accepts [OF dn_ok_new [OF feed(2)] _ num feed(3)] by auto
  have same: "content_after f ms = content_after g ms" for f g
    using num feed(1) by (cases ms; cases "hd ms") auto
  note v = vector_book.run_best [OF vb_ok_new run feed(1), unfolded same [of "vb_content (vb_new maximum)" "\<lambda>_ _. 0"]]
  note m' = map_l2.run_best [OF om_ok_new m feed(1), unfolded same [of "om_content om_new" "\<lambda>_ _. 0"]]
  note d' = dense_l2.run_best [OF dn_ok_new [OF feed(2)] d feed(1), unfolded same [of "dn_content (dn_new base n)" "\<lambda>_ _. 0"]]
  show ?thesis
    using m d is_best_unique [OF m'(1) v(1)] is_best_unique [OF m'(2) v(2)]
      is_best_unique [OF d'(1) v(1)] is_best_unique [OF d'(2) v(2)] by blast
qed

section \<open>The vector book has room for the feed\<close>

text \<open>
  If the prices that can have a level before the \<open>i\<close>-th change lie in a set of at most \<open>n\<close> elements on each side,
  a book of \<open>n\<close> levels for each side accepts all changes.
\<close>

definition support_in :: "l2_content \<Rightarrow> (side \<Rightarrow> price set) \<Rightarrow> bool" where
  "support_in f S \<longleftrightarrow> (\<forall>s p. f s p \<noteq> 0 \<longrightarrow> p \<in> S s)"

lemma support_count:
  assumes "support_in f S" "finite (S s)" "card (S s) \<le> n"
  shows "level_total_count f s \<le> n"
proof -
  have "{p. f s p \<noteq> 0} \<subseteq> S s" using assms(1) by (auto simp: support_in_def)
  from card_mono [OF assms(2) this] assms(3) show ?thesis by (simp add: level_total_count_def)
qed

lemma vector_accepts_deltas:
  assumes small: "\<And>i s. finite (S i s) \<and> card (S i s) \<le> n"
    and step: "\<And>i f. support_in f (S i) \<Longrightarrow> support_in (put (e i) f) (S (Suc i))"
  shows "vb_ok x \<Longrightarrow> vb_valid x \<Longrightarrow> vb_update_id x = of_nat i + 1 \<Longrightarrow> vb_maximum_levels x = n \<Longrightarrow>
    support_in (vb_content x) (S i) \<Longrightarrow> i + k < 2 ^ 63 \<Longrightarrow>
    \<exists>x'. l2_bench_deltas vb_apply_delta x i (map e [i..<i + k]) = Some x'"
proof (induction k arbitrary: x i)
  case (Suc k)
  let ?u = "of_nat i + 2 :: u64"
  have sup: "support_in (put (e i) (vb_content x)) (S (Suc i))" using step Suc.prems(5) by blast
  have "unat (of_nat i + 1 :: u64) = i + 1"
    using unat_plus_u64 [of "of_nat i" 1] Suc.prems(6) by (simp add: unat_of_nat_u64)
  then have "(of_nat i + 1 :: u64) \<noteq> uint64_max" using Suc.prems(6) by auto
  then have "delta_admitted x ?u [e i]"
    using Suc.prems support_count [OF sup] small by (auto simp: delta_admitted_def)
  then obtain x1 where x1: "vb_apply_delta x ?u [e i] = (True, x1)" "vb_ok x1" "vb_valid x1" "vb_update_id x1 = ?u"
      "vb_content x1 = put (e i) (vb_content x)"
    using vb_apply_delta_accepts [OF Suc.prems(1), of ?u "[e i]"] by auto
  have "vb_maximum_levels x1 = n" using vb_maximum_step(2) [of x ?u "[e i]"] x1(1) Suc.prems(4) by simp
  with Suc.IH [of x1 "Suc i"] x1 sup Suc.prems(6)
  have "\<exists>x'. l2_bench_deltas vb_apply_delta x1 (i + 1) (map e [Suc i..<Suc i + k]) = Some x'" by (simp add: add.commute)
  moreover have "[i..<i + Suc k] = i # [Suc i..<Suc i + k]" by (simp add: upt_conv_Cons del: upt_Suc)
  ultimately show ?case using x1(1) by (simp del: upt_Suc)
qed simp

section \<open>Where the levels of the workloads are\<close>

definition bench_base :: "string \<Rightarrow> side \<Rightarrow> nat \<Rightarrow> price" where
  "bench_base w s j = (if s = Bid then 2000000 - of_nat j * bench_gap w else 2000001 + of_nat j * bench_gap w)"

text \<open>
  Two changes move one level. The \<open>p\<close>-th pair handles the place \<open>p mod (2 * n)\<close>, where the places alternate between the sides;
  before it, each level has moved once for every complete round, and once more if its place was already handled in this one.
\<close>

definition place :: "side \<Rightarrow> nat \<Rightarrow> nat" where
  "place s j = 2 * j + (if s = Bid then 1 else 0)"

definition moves :: "nat \<Rightarrow> nat \<Rightarrow> side \<Rightarrow> nat \<Rightarrow> nat" where
  "moves n p s j = p div (2 * n) + (if place s j < p mod (2 * n) then 1 else 0)"

definition moved_price :: "string \<Rightarrow> nat \<Rightarrow> side \<Rightarrow> nat \<Rightarrow> price" where
  "moved_price w p s j = bench_base w s j + (if odd (moves (bench_n w) p s j) then bench_gap w div 2 else 0)"

definition handled_side :: "nat \<Rightarrow> side" where
  "handled_side p = (if odd p then Bid else Ask)"

definition handled_index :: "nat \<Rightarrow> nat \<Rightarrow> nat" where
  "handled_index n p = (p div 2) mod n"

lemma place_less: "j < n \<Longrightarrow> place s j < 2 * n"
  by (auto simp: place_def)

lemma place_handled: "place (handled_side p) (handled_index n p) = p mod (2 * n)"
  using mod_mult2_eq [of p 2 n] by (simp add: place_def handled_side_def handled_index_def odd_iff_mod_2_eq_one)

lemma place_eq_iff: "place s j = place s' j' \<longleftrightarrow> s = s' \<and> j = j'"
  by (cases s; cases s') (simp_all add: place_def, presburger+)

lemma moves_Suc:
  assumes "j < n"
  shows "moves n (Suc p) s j = moves n p s j + (if s = handled_side p \<and> j = handled_index n p then 1 else 0)"
proof -
  have here: "s = handled_side p \<and> j = handled_index n p \<longleftrightarrow> place s j = p mod (2 * n)"
    using place_eq_iff place_handled by metis
  have "place s j < 2 * n" using assms by (rule place_less)
  then show ?thesis
    unfolding moves_def here using assms by (auto simp: div_Suc mod_Suc)
qed

lemma moves_handled: "moves n p (handled_side p) (handled_index n p) = p div (2 * n)"
  by (simp add: moves_def place_handled)

lemma moved_price_Suc:
  "j < bench_n w \<Longrightarrow> s \<noteq> handled_side p \<or> j \<noteq> handled_index (bench_n w) p \<Longrightarrow> moved_price w (Suc p) s j = moved_price w p s j"
  by (auto simp: moved_price_def moves_Suc)

lemma bench_n_pos [simp]: "0 < bench_n w"
  by (simp add: bench_n_def)

lemma handled_index_less [simp]: "handled_index (bench_n w) p < bench_n w"
  by (simp add: handled_index_def)

text \<open>The changes in these terms.\<close>

lemma bench_levels_nth:
  "j < bench_n w \<Longrightarrow> l2_price (bench_levels s (bench_n w) (bench_gap w) ! j) = bench_base w s j"
  by (simp add: bench_levels_def bench_base_def)

abbreviation bench_bids :: "string \<Rightarrow> l2_level list" where
  "bench_bids w \<equiv> bench_levels Bid (bench_n w) (bench_gap w)"

abbreviation bench_asks :: "string \<Rightarrow> l2_level list" where
  "bench_asks w \<equiv> bench_levels Ask (bench_n w) (bench_gap w)"

lemma bench_change_eq:
  fixes i :: nat
  defines "p \<equiv> i div 2"
  shows "bench_change w (bench_bids w) (bench_asks w) i =
    \<lparr>ch_side = handled_side p,
     ch_price = (if w = ''replace'' then bench_base w (handled_side p) (handled_index (bench_n w) p)
                 else moved_price w (if even i then p else Suc p) (handled_side p) (handled_index (bench_n w) p)),
     ch_quantity = (if w \<noteq> ''replace'' \<and> even i then 0 else 100 + of_nat (i mod 97))\<rparr>"
proof -
  let ?s = "handled_side p" and ?j = "handled_index (bench_n w) p" and ?r = "p div (2 * bench_n w)"
  have side: "(if p mod 2 \<noteq> 0 then Bid else Ask) = ?s"
    by (simp add: handled_side_def odd_iff_mod_2_eq_one)
  have base: "(if ?s = Bid then l2_price (bench_bids w ! ?j) else l2_price (bench_asks w ! ?j)) = bench_base w ?s ?j"
    by (cases ?s) (simp_all add: bench_levels_nth)
  have active: "bench_base w ?s ?j + (if ?r mod 2 \<noteq> 0 then bench_gap w div 2 else 0) = moved_price w p ?s ?j"
    by (simp only: moved_price_def moves_handled odd_iff_mod_2_eq_one mod2_eq_if) simp
  have other: "bench_base w ?s ?j + (if ?r mod 2 \<noteq> 0 then 0 else bench_gap w div 2) = moved_price w (Suc p) ?s ?j"
    by (simp only: moved_price_def moves_Suc [OF handled_index_less] moves_handled odd_iff_mod_2_eq_one mod2_eq_if) simp
  show ?thesis
    unfolding bench_change_def Let_def side p_def [symmetric] handled_index_def [symmetric] base active other
    by (simp add: even_iff_mod_2_eq_zero)
qed

definition bench_support :: "string \<Rightarrow> nat \<Rightarrow> side \<Rightarrow> price set" where
  "bench_support w i s =
     (let p = i div 2; n = bench_n w
      in if w = ''replace'' then bench_base w s ` {..<n}
         else moved_price w p s ` {..<n} -
           (if odd i \<and> s = handled_side p then {moved_price w p s (handled_index n p)} else {}))"

lemma bench_support_small: "finite (bench_support w i s) \<and> card (bench_support w i s) \<le> bench_n w"
proof -
  let ?g = "if w = ''replace'' then bench_base w s else moved_price w (i div 2) s"
  have sub: "bench_support w i s \<subseteq> ?g ` {..<bench_n w}"
    by (auto simp: bench_support_def Let_def)
  have "card (bench_support w i s) \<le> card (?g ` {..<bench_n w})" by (rule card_mono [OF _ sub]) simp
  also have "\<dots> \<le> bench_n w" using card_image_le [of "{..<bench_n w}" ?g] by simp
  finally show ?thesis using finite_subset [OF sub] by simp
qed

lemma bench_support_step:
  assumes "support_in f (bench_support w i)"
  shows "support_in (put (bench_change w (bench_bids w) (bench_asks w) i) f) (bench_support w (Suc i))"
proof (cases "w = ''replace''")
  case True
  with assms show ?thesis
    by (auto simp: support_in_def put_at bench_change_eq bench_support_def)
next
  case False
  let ?n = "bench_n w" and ?p = "i div 2"
  let ?s = "handled_side ?p" and ?j = "handled_index ?n ?p"
  have f: "p \<in> bench_support w i s" if "f s p \<noteq> 0" for s p using assms that by (auto simp: support_in_def)
  show ?thesis
  proof (cases "even i")
    case True
    with False f show ?thesis
      by (auto simp: support_in_def put_at bench_change_eq bench_support_def Let_def split: if_splits)
  next
    case odd: False
    then have p: "Suc i div 2 = Suc ?p" by simp
    have "p \<in> bench_support w (Suc i) s" if q: "f s p \<noteq> 0" for s p
    proof -
      obtain j where "j < ?n" "p = moved_price w ?p s j" "s \<noteq> ?s \<or> j \<noteq> ?j"
        using f [OF q] False odd by (auto simp: bench_support_def Let_def split: if_splits)
      then have "j < ?n" "p = moved_price w (Suc ?p) s j" using moved_price_Suc [of j w s ?p] by auto
      then show ?thesis using False odd by (auto simp: bench_support_def Let_def p simp del: div_Suc)
    qed
    moreover have "moved_price w (Suc ?p) ?s ?j \<in> bench_support w (Suc i) ?s"
      using False odd by (auto simp: bench_support_def Let_def p simp del: div_Suc)
    ultimately show ?thesis
      using False odd by (auto simp: support_in_def put_at bench_change_eq split: if_splits)
  qed
qed

section \<open>Prices\<close>

lemma length_bench_levels [simp]: "length (bench_levels s n gap) = n"
  by (simp add: bench_levels_def)

lemma bench_scaled:
  assumes "j < bench_n w"
  shows "unat (of_nat j * bench_gap w) = j * unat (bench_gap w)" "j * unat (bench_gap w) \<le> 999000"
proof -
  have g: "unat (bench_gap w) \<le> 1000" "j \<le> 999" using assms by (auto simp: bench_gap_def bench_n_def split: if_splits)
  show le: "j * unat (bench_gap w) \<le> 999000" using mult_le_mono [OF g(2,1)] by simp
  have "unat (of_nat j :: u64) = j" using g(2) by (simp add: unat_of_nat_u64)
  with le show "unat (of_nat j * bench_gap w) = j * unat (bench_gap w)" by (simp add: unat_word_ariths)
qed

lemma bench_prices:
  assumes "j < bench_n w"
  shows "unat (bench_base w s j) < 3000000" "bench_base w s j \<noteq> 0" "unat (moved_price w p s j) < 3000000"
proof -
  note m = bench_scaled [OF assms]
  have b: "1001000 \<le> unat (bench_base w s j)" "unat (bench_base w s j) < 2999002"
    using m(2) by (auto simp: bench_base_def unat_minus_u64 unat_plus_u64 m(1))
  show "unat (bench_base w s j) < 3000000" using b(2) by simp
  show "bench_base w s j \<noteq> 0" using b(1) by auto
  have h: "unat (bench_gap w div 2) \<le> 500" by (auto simp: bench_gap_def)
  then have "unat (bench_base w s j + bench_gap w div 2) = unat (bench_base w s j) + unat (bench_gap w div 2)"
    using b(2) by (intro unat_plus_u64) simp
  then show "unat (moved_price w p s j) < 3000000" using b(2) h by (simp add: moved_price_def)
qed

lemma bench_feed_in_ladder:
  "list_all (prices_fit (in_ladder 0 3000000))
     (Snapshot 1 (bench_bids w) (bench_asks w) # delta_feed 0 (map (bench_change w (bench_bids w) (bench_asks w)) [0..<k]))"
proof -
  have "unat (l2_price l) < 3000000" if l: "l \<in> set (bench_levels s (bench_n w) (bench_gap w))" for l s
  proof -
    obtain j where "j < bench_n w" "l = bench_levels s (bench_n w) (bench_gap w) ! j"
      using l by (auto simp: in_set_conv_nth)
    then show ?thesis using bench_levels_nth [of j w s] bench_prices(1) [of j w s] by simp
  qed
  moreover have "unat (ch_price (bench_change w (bench_bids w) (bench_asks w) i)) < 3000000" for i
    using bench_prices(1,3) [OF handled_index_less] by (auto simp: bench_change_eq intro: less_trans)
  ultimately show ?thesis
    by (simp add: delta_feed_fit list.pred_map o_def) (auto simp: list_all_iff in_ladder_def not_le)
qed

lemma bench_quantity_nonzero: "n < 1000 \<Longrightarrow> (100 + of_nat n :: u64) \<noteq> 0"
  using unat_plus_u64 [of 100 "of_nat n"] by (auto simp: unat_of_nat_u64 dest: arg_cong [where f = unat])

lemma bench_levels_ok: "side_ok s (bench_levels s (bench_n w) (bench_gap w))"
proof -
  have base: "before s (bench_base w s i) (bench_base w s j)" if "i < j" "j < bench_n w" for i j
  proof -
    have "0 < unat (bench_gap w)" by (simp add: bench_gap_def)
    then have lt: "i * unat (bench_gap w) < j * unat (bench_gap w)" using that by simp
    have u: "unat (bench_base w s k) = (if s = Bid then 2000000 - k * unat (bench_gap w) else 2000001 + k * unat (bench_gap w))"
      if "k < bench_n w" for k
      using bench_scaled [OF that] by (simp add: bench_base_def unat_minus_u64 unat_plus_u64)
    have "2000000 - j * unat (bench_gap w) < 2000000 - i * unat (bench_gap w)"
      using lt bench_scaled(2) [of j w] that(2) by linarith
    then show ?thesis using lt that u [of i] u [of j] unfolding before_def word_less_nat_alt by (cases s) simp_all
  qed
  have "l2_quantity l \<noteq> 0" if "l \<in> set (bench_levels s (bench_n w) (bench_gap w))" for l
    using that bench_quantity_nonzero by (auto simp: bench_levels_def bench_n_def split: if_splits)
  moreover have "sorted_wrt (before s) (map l2_price (bench_levels s (bench_n w) (bench_gap w)))"
    using base by (simp add: sorted_wrt_iff_nth_less bench_levels_nth)
  ultimately show ?thesis by (auto simp: side_ok_def list_all_iff)
qed

section \<open>Every sample completes\<close>

abbreviation bench_changes :: "string \<Rightarrow> l2_change list" where
  "bench_changes w \<equiv> map (bench_change w (bench_bids w) (bench_asks w)) [0..<kL2Events]"

abbreviation bench_feed :: "string \<Rightarrow> l2_message list" where
  "bench_feed w \<equiv> Snapshot 1 (bench_bids w) (bench_asks w) # delta_feed 0 (bench_changes w)"

lemma snapshot_support: "support_in (snapshot_content (bench_bids w) (bench_asks w)) (bench_support w 0)"
proof -
  have "l2_price ` set (bench_levels s (bench_n w) (bench_gap w)) = bench_support w 0 s" for s
    by (force simp: bench_levels_def bench_support_def Let_def moved_price_def moves_def bench_base_def image_iff)
  then show ?thesis
    using qty_at_zero [OF bench_levels_ok]
    by (auto simp: support_in_def all_side snapshot_content_at [OF bench_levels_ok bench_levels_ok])
qed

lemma bench_vector_runs: "\<exists>v. l2_run vb_apply_snapshot vb_apply_delta (vb_new (bench_n w)) (bench_feed w) = Some v"
proof -
  let ?b = "vb_new (bench_n w)"
  obtain x where x: "vb_apply_snapshot ?b 1 (bench_bids w) (bench_asks w) = (True, x)"
    using bench_levels_ok unfolding vb_apply_snapshot_eq [OF vb_ok_new] by (simp add: vb_new_def)
  have "vb_maximum_levels x = bench_n w" using vb_maximum_step(1) [of ?b 1 "bench_bids w" "bench_asks w"] unfolding x by (simp add: vb_new_def)
  with vector_book.snap_accepted [OF vb_ok_new x] snapshot_support [of w]
    vector_accepts_deltas [of "bench_support w" "bench_n w" "bench_change w (bench_bids w) (bench_asks w)" x 0 kL2Events,
      OF bench_support_small bench_support_step]
  show ?thesis by (auto simp: x l2_bench_deltas_run [where snap = vb_apply_snapshot] kL2Events_def simp del: upt_Suc)
qed

text \<open>The last change of every workload gives a bid level a quantity, so there is a best bid.\<close>

lemma bench_last_bid: "\<not> is_best Bid (content_after f (bench_feed w)) None"
proof -
  have "[0..<kL2Events] = [0..<99999] @ [99999]" using upt_Suc_append [of 0 99999] by (simp add: kL2Events_def)
  then have "content_after f (bench_feed w) = put (bench_change w (bench_bids w) (bench_asks w) 99999)
      (fold put (map (bench_change w (bench_bids w) (bench_asks w)) [0..<99999]) (snapshot_content (bench_bids w) (bench_asks w)))"
    by (simp add: content_after_deltas del: upt_Suc)
  moreover have "(100 + of_nat (99999 mod 97) :: u64) \<noteq> 0" by simp
  ultimately show ?thesis by (auto simp: put_at bench_change_eq handled_side_def)
qed

lemma best_after_feed:
  assumes "is_best Bid (content_after f (bench_feed w)) l"
  shows "\<exists>q. map_option l2_quantity l = Some q \<and> q \<noteq> 0"
  using bench_last_bid [of f w] is_best_at [of Bid "content_after f (bench_feed w)"] assms by (cases l) auto

text \<open>
  C18. On every workload no sample of the level-two benchmark ends in \<open>std::terminate\<close>: each of the three books accepts the snapshot
  and all 100000 deltas, in particular the vector book always has room for the level that is moved, and they all read the same
  non-zero quantity of the best bid.
\<close>

theorem l2_benchmark_completes:
  "\<exists>q. q \<noteq> 0 \<and> l2_bench_one ''vector'' w = Some q \<and> l2_bench_one ''dense'' w = Some q \<and> l2_bench_one ''map'' w = Some q"
proof -
  obtain v where v: "l2_run vb_apply_snapshot vb_apply_delta (vb_new (bench_n w)) (bench_feed w) = Some v"
    using bench_vector_runs by blast
  have "ladder_fits 0 3000000" by (simp add: ladder_fits_def)
  with l2_runs_same [OF v _ _ bench_feed_in_ladder] obtain m d where
    r: "l2_run om_apply_snapshot om_apply_delta om_new (bench_feed w) = Some m"
      "l2_run dn_apply_snapshot dn_apply_delta (dn_new 0 3000000) (bench_feed w) = Some d"
      "om_best_bid m = vb_best_bid v" "dn_best_bid d = vb_best_bid v" by auto
  from vector_book.run_best(1) [OF vb_ok_new v] obtain q where "map_option l2_quantity (vb_best_bid v) = Some q" "q \<noteq> 0"
    using best_after_feed by blast
  with v r show ?thesis by (auto simp: l2_bench_one_def Let_def l2_bench_run_feed simp del: l2_run.simps delta_feed.simps)
qed

end
