(* ===== verification/L2_Labels.thy ===== *)
theory L2_Labels
  imports Prelude
begin

text \<open>
  The labels of the level-two data sets (\<open>cpp/include/llab/bybit_l2_labels.hpp\<close>): for each observation the first
  later one at least a horizon away, found by a pointer that only moves forward, and the direction of
  a price move.
\<close>

section \<open>Operations\<close>

text \<open>The inner loop: move \<open>future\<close> on while it is too early. The sum of the bound wraps.\<close>

function advance :: "u64 list \<Rightarrow> u64 \<Rightarrow> nat \<Rightarrow> nat" where
  "advance ts bound future =
     (if future < length ts \<and> ts ! future < bound then advance ts bound (future + 1) else future)"
  by pat_completeness auto
termination
  by (relation "measure (\<lambda>(ts, bound, future). length ts - future)") auto

declare advance.simps [simp del]

function first_future_from :: "u64 list \<Rightarrow> u64 \<Rightarrow> nat \<Rightarrow> nat \<Rightarrow> nat list \<Rightarrow> nat list result" where
  "first_future_from ts horizon_ms current future out =
     (if current < length ts
      then if current \<noteq> 0 \<and> ts ! current < ts ! (current - 1)
           then Raise (Invalid_argument ''timestamps must be monotonic'')
           else let future = advance ts (ts ! current + horizon_ms) (if future < current + 1 then current + 1 else future)
                in first_future_from ts horizon_ms (current + 1) future (out[current := future])
      else Value out)"
  by pat_completeness auto
termination
  by (relation "measure (\<lambda>(ts, h, current, future, out). length ts - current)") auto

declare first_future_from.simps [simp del]

definition first_future_indices :: "u64 list \<Rightarrow> u64 \<Rightarrow> nat list result" where
  "first_future_indices ts horizon_ms =
     first_future_from ts horizon_ms 0 0 (replicate (length ts) (length ts))"

definition direction_label :: "u64 \<Rightarrow> u64 \<Rightarrow> u64 \<Rightarrow> int result" where
  "direction_label current_mid future_mid threshold =
     (if threshold = 0 then Raise (Invalid_argument ''threshold must be positive'')
      else if future_mid \<ge> current_mid \<and> future_mid - current_mid \<ge> threshold then Value 1
      else if current_mid \<ge> future_mid \<and> current_mid - future_mid \<ge> threshold then Value (- 1)
      else Value 0)"

section \<open>The forward pointer finds the first later observation\<close>

text \<open>The reference: the first index after \<open>i\<close> whose time has reached the horizon, or the length.\<close>

definition first_future :: "u64 list \<Rightarrow> u64 \<Rightarrow> nat \<Rightarrow> nat" where
  "first_future ts horizon_ms i =
     (case filter (\<lambda>j. uint (ts ! i) + uint horizon_ms \<le> uint (ts ! j)) [i + 1..<length ts] of
        [] \<Rightarrow> length ts | j # _ \<Rightarrow> j)"

definition no_wrap :: "u64 list \<Rightarrow> u64 \<Rightarrow> bool" where
  "no_wrap ts horizon_ms \<longleftrightarrow> list_all (\<lambda>t. uint t + uint horizon_ms < 2 ^ 64) ts"

lemma advance_first:
  "future \<le> length ts \<Longrightarrow>
     advance ts bound future = (case filter (\<lambda>j. bound \<le> ts ! j) [future..<length ts] of [] \<Rightarrow> length ts | j # _ \<Rightarrow> j)"
proof (induction ts bound future rule: advance.induct)
  case (1 ts bound future)
  show ?case
  proof (cases "future < length ts")
    case True
    then have "[future..<length ts] = future # [future + 1..<length ts]" by (simp add: upt_rec)
    with 1 True show ?thesis by (simp add: advance.simps [of ts bound future] not_less [symmetric])
  next
    case False
    with 1 show ?thesis by (subst advance.simps) simp
  qed
qed

text \<open>Indices below the pointer stay too early, since the bounds grow with the timestamps.\<close>

lemma filter_skip:
  assumes "a \<le> b" "\<And>j. a \<le> j \<Longrightarrow> j < b \<Longrightarrow> \<not> P j"
  shows "filter P [b..<n] = filter P [a..<n]"
proof (cases "b \<le> n")
  case True
  then have "[a..<n] = [a..<b] @ [b..<n]" using assms(1) by (metis le_iff_add upt_add_eq_append)
  moreover have "filter P [a..<b] = []" using assms(2) by (auto simp: filter_empty_conv)
  ultimately show ?thesis by simp
next
  case False
  then have "filter P [a..<n] = []" using assms(2) by (auto simp: filter_empty_conv)
  with False show ?thesis by simp
qed

lemma advance_bounds: "future \<le> length ts \<Longrightarrow> future \<le> advance ts bound future \<and> advance ts bound future \<le> length ts"
proof (induction ts bound future rule: advance.induct)
  case (1 ts bound future)
  then show ?case by (subst (1 2) advance.simps) auto
qed

lemma advance_below: "future \<le> j \<Longrightarrow> j < advance ts bound future \<Longrightarrow> ts ! j < bound"
proof (induction ts bound future rule: advance.induct)
  case (1 ts bound future)
  then show ?case
    by (cases "j = future") (auto simp: advance.simps [of ts bound future] split: if_splits)
qed

lemma uint_plus_u64: "uint (a :: u64) + uint b < 2 ^ 64 \<Longrightarrow> uint (a + b) = uint a + uint b"
  by (simp add: uint_plus_if_size word_size)

lemma first_future_step:
  assumes c: "c < length ts" and f: "f \<le> length ts" and wrap: "uint (ts ! c) + uint h < 2 ^ 64"
    and early: "\<And>j. c < j \<Longrightarrow> j < f \<Longrightarrow> uint (ts ! j) < uint (ts ! c) + uint h"
  shows "advance ts (ts ! c + h) (if f < c + 1 then c + 1 else f) = first_future ts h c"
proof -
  let ?f = "if f < c + 1 then c + 1 else f"
  have b: "ts ! c + h \<le> ts ! j \<longleftrightarrow> uint (ts ! c) + uint h \<le> uint (ts ! j)" for j
    using uint_plus_u64 [OF wrap] by (simp add: word_le_def)
  have "filter (\<lambda>j. uint (ts ! c) + uint h \<le> uint (ts ! j)) [?f..<length ts] =
    filter (\<lambda>j. uint (ts ! c) + uint h \<le> uint (ts ! j)) [c + 1..<length ts]"
    using early by (intro filter_skip) (auto simp: not_le split: if_splits)
  then show ?thesis using c f by (simp add: advance_first first_future_def b)
qed

lemma first_future_loop:
  assumes "no_wrap ts h" "sorted ts"
  shows "c \<le> length ts \<Longrightarrow> f \<le> length ts \<Longrightarrow>
    (\<And>j. c \<le> j \<Longrightarrow> j < f \<Longrightarrow> 0 < c \<and> uint (ts ! j) < uint (ts ! (c - 1)) + uint h) \<Longrightarrow>
    first_future_from ts h c f (map (first_future ts h) [0..<c] @ replicate (length ts - c) (length ts)) =
      Value (map (first_future ts h) [0..<length ts])"
proof (induction "length ts - c" arbitrary: c f)
  case 0
  then show ?case by (simp add: first_future_from.simps)
next
  case (Suc n)
  then have c: "c < length ts" by simp
  have wrap: "uint (ts ! c) + uint h < 2 ^ 64" using assms(1) c by (auto simp: no_wrap_def list_all_length)
  have mono: "\<not> (c \<noteq> 0 \<and> ts ! c < ts ! (c - 1))"
    using sorted_nth_mono [OF assms(2), of "c - 1" c] c by auto
  have early: "uint (ts ! j) < uint (ts ! c) + uint h" if "c < j" "j < f" for j
    using Suc.prems(3) [of j] that mono by (auto simp: word_less_def)
  let ?g = "if f < c + 1 then c + 1 else f"
  let ?f = "first_future ts h c"
  have step: "advance ts (ts ! c + h) ?g = ?f" by (rule first_future_step [OF c Suc.prems(2) wrap early])
  have g: "?g \<le> length ts" using c Suc.prems(2) by simp
  have bound: "uint (ts ! c + h) = uint (ts ! c) + uint h" by (rule uint_plus_u64 [OF wrap])
  have next_early: "uint (ts ! j) < uint (ts ! (c + 1 - 1)) + uint h" if "c + 1 \<le> j" "j < ?f" for j
  proof (cases "j < f")
    case True
    then show ?thesis using early [of j] that(1) by simp
  next
    case False
    then have "?g \<le> j" using that(1) by simp
    then show ?thesis using advance_below [of ?g j ts "ts ! c + h"] that(2) step by (simp add: word_less_def bound)
  qed
  have out: "(map (first_future ts h) [0..<c] @ replicate (length ts - c) (length ts))[c := ?f] =
    map (first_future ts h) [0..<c + 1] @ replicate (length ts - (c + 1)) (length ts)"
    using c by (cases "length ts - c") (auto simp: list_update_append)
  have "first_future_from ts h (c + 1) ?f (map (first_future ts h) [0..<c + 1] @ replicate (length ts - (c + 1)) (length ts)) =
    Value (map (first_future ts h) [0..<length ts])"
    using Suc.hyps(2) c next_early advance_bounds [OF g, of "ts ! c + h"] step by (intro Suc.hyps(1)) auto
  then show ?case
    using c mono step out by (simp add: first_future_from.simps [of ts h c] Let_def)
qed

lemma unsorted_step: "\<not> sorted ts \<Longrightarrow> \<exists>c. c + 1 < length ts \<and> ts ! (c + 1) < (ts ! c :: u64)"
  by (auto simp: sorted_iff_nth_Suc not_le)

lemma first_future_unsorted:
  "d < length ts \<Longrightarrow> d \<noteq> 0 \<Longrightarrow> ts ! d < ts ! (d - 1) \<Longrightarrow> c \<le> d \<Longrightarrow>
     first_future_from ts h c f out = Raise (Invalid_argument ''timestamps must be monotonic'')"
proof (induction "d - c" arbitrary: c f out)
  case 0
  then show ?case by (simp add: first_future_from.simps)
next
  case (Suc n)
  then have "c < length ts" "n = d - (c + 1)" "c + 1 \<le> d" by simp_all
  with Suc show ?case by (simp add: first_future_from.simps [of ts h c] Let_def)
qed

section \<open>Properties\<close>

text \<open>
  C34. The forward pointer computes for every observation the first later one that is at least the
  horizon away, or the number of observations where there is none, provided no timestamp plus horizon
  passes \<open>UINT64_MAX\<close>; timestamps that go back are refused.
\<close>

theorem first_future_indices_correct:
  assumes "no_wrap ts horizon_ms"
  shows "first_future_indices ts horizon_ms =
    (if sorted ts then Value (map (first_future ts horizon_ms) [0..<length ts])
     else Raise (Invalid_argument ''timestamps must be monotonic''))"
proof (cases "sorted ts")
  case True
  with first_future_loop [OF assms True, of 0 0] show ?thesis by (simp add: first_future_indices_def)
next
  case False
  from unsorted_step [OF this] obtain c where "c + 1 < length ts" "ts ! (c + 1) < ts ! c" by blast
  with False first_future_unsorted [of "c + 1" ts 0 horizon_ms 0] show ?thesis by (simp add: first_future_indices_def)
qed

theorem first_future_indices_correct_witness:
  "first_future_indices [10, 20, 20, 35] 10 = Value [1, 3, 3, 4]"
proof -
  have "map (first_future [10, 20, 20, 35] 10) [0..<length [10, 20, 20, 35 :: u64]] = [1, 3, 3, 4]" by code_simp
  moreover have "no_wrap [10, 20, 20, 35] 10" "sorted [10, 20, 20, 35 :: u64]" by (simp_all add: no_wrap_def)
  ultimately show ?thesis
    using first_future_indices_correct [of "[10, 20, 20, 35]" 10] by simp
qed

text \<open>
  Without that bound the sum wraps, and the code takes the very next observation for one that is
  a whole horizon away.
\<close>

lemma first_future_wraps:
  "first_future_indices [uint64_max - 5, uint64_max - 4] 100 = Value [1, 2] \<and>
   first_future [uint64_max - 5, uint64_max - 4] 100 0 = 2"
  by code_simp

text \<open>
  The label is the sign of the move where the move, as a difference of integers, reaches the
  threshold, and 0 otherwise; a zero threshold is refused.
\<close>

theorem direction_label_is_sign:
  "direction_label a b t =
     (if t = 0 then Raise (Invalid_argument ''threshold must be positive'')
      else Value (if \<bar>uint b - uint a\<bar> \<ge> uint t then sgn (uint b - uint a) else 0))"
proof -
  have "uint (b - a) = uint b - uint a" if "a \<le> b" using that by (simp add: uint_sub_if' word_le_def)
  moreover have "uint (a - b) = uint a - uint b" if "b \<le> a" using that by (simp add: uint_sub_if' word_le_def)
  moreover have "t \<noteq> 0 \<Longrightarrow> 0 < uint t" using uint_0_iff [of t] uint_nonnegative [of t] by linarith
  ultimately show ?thesis
    by (cases "t = 0"; cases "uint a \<le> uint b") (simp_all add: direction_label_def word_le_def sgn_if; arith)+
qed

end
