(* ===== verification/Index_Churn.thy ===== *)
theory Index_Churn
  imports Fixed_Order_Index
begin

text \<open>
  The index benchmark \<open>cpp/benchmarks/order_index_churn.cpp\<close>: its own tombstone index, and the sample that fills an
  index with live orders and then replaces one of them after the other. The sample is a template over the index; here the
  constructor, \<open>insert\<close> and \<open>erase\<close> are its arguments, and the two indexes of the benchmark are its instances. The default build is
  modelled, in which the hash is that of the fixed index; the clock is left out.
\<close>

section \<open>The tombstone index of the benchmark\<close>

text \<open>\<open>insert\<close> searches and writes in one loop, and is refused where it returns \<open>false\<close>.\<close>

function ti_insert_from :: "u32 slot list \<Rightarrow> order_id \<Rightarrow> u32 \<Rightarrow> nat \<Rightarrow> nat \<Rightarrow> nat \<Rightarrow> u32 slot list option" where
  "ti_insert_from slots oid v i probes first_tombstone =
     (if probes < length slots then
        let slot = slots ! i in
        if sl_state slot = Empty
        then Some (occupy slots (if first_tombstone = length slots then i else first_tombstone) oid v)
        else let first_tombstone = (if sl_state slot = Tombstone \<and> first_tombstone = length slots
                                    then i else first_tombstone)
          in if sl_state slot = Occupied \<and> sl_order_id slot = oid then None
             else ti_insert_from slots oid v (next_index (length slots) i) (probes + 1) first_tombstone
      else if first_tombstone \<noteq> length slots then Some (occupy slots first_tombstone oid v)
      else None)"
  by pat_completeness auto
termination
  by (relation "measure (\<lambda>(slots, oid, v, i, probes, ft). length slots - probes)") auto

definition ti_insert :: "u32 slot list \<Rightarrow> order_id \<Rightarrow> u32 \<Rightarrow> u32 slot list option" where
  "ti_insert slots oid v = ti_insert_from slots oid v (home (length slots) oid) 0 (length slots)"

function ti_erase_from :: "u32 slot list \<Rightarrow> order_id \<Rightarrow> nat \<Rightarrow> nat \<Rightarrow> bool \<times> u32 slot list" where
  "ti_erase_from slots oid i probes =
     (if probes < length slots then
        let slot = slots ! i in
        if sl_state slot = Empty then (False, slots)
        else if sl_state slot = Occupied \<and> sl_order_id slot = oid then (True, bury slots i)
        else ti_erase_from slots oid (next_index (length slots) i) (probes + 1)
      else (False, slots))"
  by pat_completeness auto
termination
  by (relation "measure (\<lambda>(slots, oid, i, probes). length slots - probes)") auto

definition ti_erase :: "u32 slot list \<Rightarrow> order_id \<Rightarrow> (bool \<times> u32 slot list) result" where
  "ti_erase slots oid = Value (ti_erase_from slots oid (home (length slots) oid) 0)"

definition ti_new :: "u64 \<Rightarrow> u32 slot list result" where
  "ti_new maximum_live = map_value (\<lambda>n. empty_slots n 0) (fixed_order_index_capacity maximum_live)"

declare ti_insert_from.simps [simp del] ti_erase_from.simps [simp del]

text \<open>The fixed index in the same role: the sample only tests whether \<open>erase\<close> returned a value.\<close>

definition fixed_erase_test :: "u32 fixed_index \<Rightarrow> order_id \<Rightarrow> (bool \<times> u32 fixed_index) result" where
  "fixed_erase_test x oid = map_value (\<lambda>(r, x'). (r \<noteq> None, x')) (fixed_erase x oid)"

section \<open>The sample\<close>

definition kLiveOrders :: nat where
  "kLiveOrders = 16384"

definition kChurnOperations :: nat where
  "kChurnOperations = 32768"

definition churn_victim :: "nat \<Rightarrow> nat" where
  "churn_victim operation = (operation * 40503) mod kLiveOrders"

definition churn_replacement :: "nat \<Rightarrow> order_id" where
  "churn_replacement operation = 1000000 + of_nat operation"

fun churn_fill :: "('x \<Rightarrow> order_id \<Rightarrow> u32 \<Rightarrow> 'x option) \<Rightarrow> 'x \<Rightarrow> nat list \<Rightarrow> 'x result" where
  "churn_fill ins x [] = Value x"
| "churn_fill ins x (i # is) =
     (case ins x (of_nat i + 1) (of_nat i) of
        None \<Rightarrow> Raise (Logic_error ''initial insert failed'')
      | Some x' \<Rightarrow> churn_fill ins x' is)"

fun churn_loop :: "('x \<Rightarrow> order_id \<Rightarrow> u32 \<Rightarrow> 'x option) \<Rightarrow> ('x \<Rightarrow> order_id \<Rightarrow> (bool \<times> 'x) result)
    \<Rightarrow> 'x \<Rightarrow> order_id list \<Rightarrow> u64 \<Rightarrow> nat list \<Rightarrow> (u64 \<times> order_id list \<times> 'x) result" where
  "churn_loop ins del x live dg [] = Value (dg, live, x)"
| "churn_loop ins del x live dg (operation # ops) =
     and_then (del x (live ! churn_victim operation)) (\<lambda>(erased, x1).
       if \<not> erased then Raise (Logic_error ''erase failed'')
       else case ins x1 (churn_replacement operation) (of_nat operation) of
              None \<Rightarrow> Raise (Logic_error ''replacement insert failed'')
            | Some x2 \<Rightarrow> churn_loop ins del x2 (live[churn_victim operation := churn_replacement operation])
                (dg XOR churn_replacement operation) ops)"

definition churn_sample :: "(u64 \<Rightarrow> 'x result) \<Rightarrow> ('x \<Rightarrow> order_id \<Rightarrow> u32 \<Rightarrow> 'x option)
    \<Rightarrow> ('x \<Rightarrow> order_id \<Rightarrow> (bool \<times> 'x) result) \<Rightarrow> (u64 \<times> order_id list \<times> 'x) result" where
  "churn_sample new ins del =
     and_then (new (of_nat kLiveOrders)) (\<lambda>x0.
       and_then (churn_fill ins x0 [0..<kLiveOrders]) (\<lambda>x.
         churn_loop ins del x (map (\<lambda>i. of_nat i + 1) [0..<kLiveOrders]) 0 [0..<kChurnOperations]))"

section \<open>The contract the sample relies on\<close>

locale churn_index =
  fixes ins :: "'x \<Rightarrow> order_id \<Rightarrow> u32 \<Rightarrow> 'x option"
    and del :: "'x \<Rightarrow> order_id \<Rightarrow> (bool \<times> 'x) result"
    and imap :: "'x \<Rightarrow> (order_id \<rightharpoonup> u32)"
    and iinv :: "'x \<Rightarrow> bool"
    and room :: "'x \<Rightarrow> nat"
  assumes ins_done: "iinv x \<Longrightarrow> i \<noteq> 0 \<Longrightarrow> imap x i = None \<Longrightarrow> card (dom (imap x)) < room x \<Longrightarrow>
      \<exists>x'. ins x i v = Some x' \<and> iinv x' \<and> imap x' = (imap x)(i \<mapsto> v) \<and> room x' = room x"
    and del_done: "iinv x \<Longrightarrow> imap x i \<noteq> None \<Longrightarrow>
      \<exists>x'. del x i = Value (True, x') \<and> iinv x' \<and> imap x' = (imap x)(i := None) \<and> room x' = room x"

text \<open>What the sample does to the map of live orders, whatever the index.\<close>

definition churn_filled :: "nat \<Rightarrow> (order_id \<rightharpoonup> u32)" where
  "churn_filled n = map_of (map (\<lambda>i. (of_nat i + 1, of_nat i)) [0..<n])"

definition churn_map_step :: "nat \<Rightarrow> (order_id \<rightharpoonup> u32) \<times> order_id list \<Rightarrow> (order_id \<rightharpoonup> u32) \<times> order_id list" where
  "churn_map_step operation = (\<lambda>(m, live).
     (m(live ! churn_victim operation := None, churn_replacement operation \<mapsto> of_nat operation),
      live[churn_victim operation := churn_replacement operation]))"

definition churn_map :: "nat \<Rightarrow> (order_id \<rightharpoonup> u32) \<times> order_id list" where
  "churn_map k = fold churn_map_step [0..<k] (churn_filled kLiveOrders, map (\<lambda>i. of_nat i + 1) [0..<kLiveOrders])"

definition churn_digest :: "nat \<Rightarrow> u64" where
  "churn_digest k = fold (\<lambda>operation d. d XOR churn_replacement operation) [0..<k] 0"


lemma unat_churn_replacement: "k \<le> kChurnOperations \<Longrightarrow> unat (churn_replacement k) = 1000000 + k"
  by (simp add: churn_replacement_def kChurnOperations_def unat_plus_u64 unat_of_nat_u64)

lemma unat_first_id: "i < kLiveOrders \<Longrightarrow> unat (of_nat i + 1 :: u64) = i + 1"
  using unat_plus_u64 [of "of_nat i" 1] by (simp add: kLiveOrders_def unat_of_nat_u64)

lemma churn_victim_less: "churn_victim k < kLiveOrders"
  by (simp add: churn_victim_def kLiveOrders_def)

lemma churn_filled_dom:
  assumes "n \<le> kLiveOrders"
  shows "dom (churn_filled n) = (\<lambda>i. of_nat i + 1) ` {..<n}" "card (dom (churn_filled n)) = n"
proof -
  show d: "dom (churn_filled n) = (\<lambda>i. of_nat i + 1) ` {..<n}"
    by (force simp: churn_filled_def dom_map_of_conv_image_fst image_iff)
  have "inj_on (\<lambda>i. of_nat i + 1 :: u64) {..<n}"
    using assms unat_first_id by (intro inj_onI) (metis add_right_cancel lessThan_iff less_le_trans)
  then show "card (dom (churn_filled n)) = n" unfolding d by (simp add: card_image)
qed

lemma churn_filled_Suc:
  assumes "n < kLiveOrders"
  shows "churn_filled n (of_nat n + 1) = None" "churn_filled (Suc n) = (churn_filled n)(of_nat n + 1 \<mapsto> of_nat n)"
proof -
  show none: "churn_filled n (of_nat n + 1) = None"
  proof (rule ccontr)
    assume "churn_filled n (of_nat n + 1) \<noteq> None"
    then have "of_nat n + 1 \<in> (\<lambda>i. of_nat i + 1 :: u64) ` {..<n}"
      unfolding churn_filled_dom(1) [OF less_imp_le [OF assms], symmetric] by blast
    then obtain i where i: "i < n" "(of_nat n + 1 :: u64) = of_nat i + 1" by blast
    then show False using unat_first_id [of n] unat_first_id [of i] assms by simp
  qed
  have "[of_nat n + 1 \<mapsto> of_nat n] ++ churn_filled n = churn_filled n ++ [of_nat n + 1 \<mapsto> of_nat n]"
    using none by (intro map_add_comm) auto
  then show "churn_filled (Suc n) = (churn_filled n)(of_nat n + 1 \<mapsto> of_nat n)"
    by (simp add: churn_filled_def)
qed

text \<open>
  The vector of live identifiers is the domain of the map, without repetition, and the identifiers are below the next
  replacement: the order to be erased is there, and the replacement is not.
\<close>

definition churn_inv :: "nat \<Rightarrow> (order_id \<rightharpoonup> u32) \<times> order_id list \<Rightarrow> bool" where
  "churn_inv k = (\<lambda>(m, live). length live = kLiveOrders \<and> distinct live \<and> set live = dom m \<and>
     (\<forall>i \<in> set live. i \<noteq> 0 \<and> unat i < 1000000 + k))"

lemma churn_inv_step:
  assumes inv: "churn_inv k (m, live)" and k: "k < kChurnOperations"
  shows "churn_inv (Suc k) (churn_map_step k (m, live))"
    and "m (live ! churn_victim k) \<noteq> None" "m (churn_replacement k) = None" "churn_replacement k \<noteq> 0"
    and "card (dom m) = kLiveOrders"
proof -
  let ?v = "churn_victim k" and ?r = "churn_replacement k"
  have len: "length live = kLiveOrders" and dist: "distinct live" and dom: "set live = dom m"
    and below: "\<And>i. i \<in> set live \<Longrightarrow> i \<noteq> 0 \<and> unat i < 1000000 + k"
    using inv by (auto simp: churn_inv_def)
  have v: "?v < length live" using churn_victim_less [of k] len by simp
  have r: "unat ?r = 1000000 + k" using unat_churn_replacement [of k] k by simp
  have fresh: "?r \<notin> set live" using below [of ?r] r by auto
  show "m (live ! ?v) \<noteq> None" using nth_mem [OF v] dom by auto
  show "m ?r = None" using fresh dom by auto
  show "?r \<noteq> 0" using r by auto
  show "card (dom m) = kLiveOrders" using distinct_card [OF dist] dom len by simp
  have "set (live[?v := ?r]) = insert ?r (set live - {live ! ?v})"
    using dist v by (rule set_update_distinct)
  moreover have "i \<noteq> 0 \<and> unat i < 1000000 + Suc k" if "i \<in> set live" for i using below [OF that] by simp
  ultimately show "churn_inv (Suc k) (churn_map_step k (m, live))"
    using len dist v fresh dom r \<open>?r \<noteq> 0\<close>
    by (auto simp: churn_inv_def churn_map_step_def intro!: distinct_list_update)
qed

lemma churn_inv_map: "k \<le> kChurnOperations \<Longrightarrow> churn_inv k (churn_map k)"
proof (induction k)
  case 0
  have "distinct (map (\<lambda>i. of_nat i + 1 :: u64) [0..<kLiveOrders])"
    using unat_first_id by (intro distinct_map [THEN iffD2] conjI inj_onI) (simp, metis add_right_cancel atLeastLessThan_iff set_upt)
  moreover have "i + 1 < 1000000" if "i < kLiveOrders" for i using that by (simp add: kLiveOrders_def)
  ultimately show ?case
    using unat_first_id churn_filled_dom(1) [of kLiveOrders]
    by (auto simp: churn_inv_def churn_map_def atLeast0LessThan dest: arg_cong [where f = unat])
next
  case (Suc k)
  obtain m live where ml: "churn_map k = (m, live)" by fastforce
  then have "churn_map (Suc k) = churn_map_step k (m, live)" by (simp add: churn_map_def)
  with Suc ml churn_inv_step(1) [of k m live] show ?case by simp
qed

context churn_index begin

lemma fill_done:
  assumes "iinv x" "imap x = churn_filled a" "kLiveOrders \<le> room x" "a + n \<le> kLiveOrders"
  shows "\<exists>x'. churn_fill ins x [a..<a + n] = Value x' \<and> iinv x' \<and> imap x' = churn_filled (a + n) \<and> room x' = room x"
  using assms
proof (induction n arbitrary: x a)
  case (Suc n)
  have a: "a < kLiveOrders" using Suc.prems(4) by simp
  note f = churn_filled_Suc [OF a]
  have "(of_nat a + 1 :: u64) \<noteq> 0" using unat_first_id [OF a] by auto
  then obtain x1 where x1: "ins x (of_nat a + 1) (of_nat a) = Some x1" "iinv x1" "imap x1 = churn_filled (Suc a)" "room x1 = room x"
    using ins_done [OF Suc.prems(1), of "of_nat a + 1" "of_nat a"] f Suc.prems(2,3) churn_filled_dom(2) [of a] a by auto
  have "[a..<a + Suc n] = a # [Suc a..<Suc a + n]" by (simp add: upt_conv_Cons del: upt_Suc)
  with Suc.IH [of x1 "Suc a"] x1 Suc.prems show ?case by (simp del: upt_Suc)
qed simp

lemma loop_done:
  assumes "iinv x" "imap x = fst (churn_map a)" "kLiveOrders \<le> room x" "a + n \<le> kChurnOperations"
  shows "\<exists>x'. churn_loop ins del x (snd (churn_map a)) (churn_digest a) [a..<a + n] =
       Value (churn_digest (a + n), snd (churn_map (a + n)), x') \<and> iinv x' \<and> imap x' = fst (churn_map (a + n))"
  using assms
proof (induction n arbitrary: x a)
  case (Suc n)
  have a: "a < kChurnOperations" using Suc.prems(4) by simp
  obtain m live where ml: "churn_map a = (m, live)" by fastforce
  note st = churn_inv_step [OF churn_inv_map [of a, unfolded ml] a]
  have next_map: "churn_map (Suc a) = churn_map_step a (m, live)" using ml by (simp add: churn_map_def)
  have next_digest: "churn_digest (Suc a) = churn_digest a XOR churn_replacement a" by (simp add: churn_digest_def)
  have fin: "finite (dom m)" using st(5) a card_ge_0_finite [of "dom m"] by (simp add: kLiveOrders_def)
  obtain x1 where x1: "del x (live ! churn_victim a) = Value (True, x1)" "iinv x1"
      "imap x1 = m(live ! churn_victim a := None)" "room x1 = room x"
    using del_done [OF Suc.prems(1), of "live ! churn_victim a"] st(2) a ml Suc.prems(2) by auto
  have "card (dom (imap x1)) < kLiveOrders"
    using card_Diff1_less [OF fin, of "live ! churn_victim a"] st(2,5) a by (simp add: x1(3) domIff)
  moreover have "imap x1 (churn_replacement a) = None" using st(3) a by (simp add: x1(3))
  ultimately obtain x2 where x2: "ins x1 (churn_replacement a) (of_nat a) = Some x2" "iinv x2"
      "imap x2 = (imap x1)(churn_replacement a \<mapsto> of_nat a)" "room x2 = room x"
    using ins_done [OF x1(2), of "churn_replacement a" "of_nat a"] st(4) a x1(4) Suc.prems(3) by auto
  have "imap x2 = fst (churn_map (Suc a))" "snd (churn_map (Suc a)) = live[churn_victim a := churn_replacement a]"
    by (simp_all add: next_map churn_map_step_def x2 x1)
  moreover have "[a..<a + Suc n] = a # [Suc a..<Suc a + n]" by (simp add: upt_conv_Cons del: upt_Suc)
  ultimately show ?case
    using Suc.IH [of x2 "Suc a"] x1 x2 Suc.prems ml by (simp add: next_digest del: upt_Suc)
qed simp

lemma sample_done:
  assumes "new (of_nat kLiveOrders) = Value x0" "iinv x0" "imap x0 = Map.empty" "kLiveOrders \<le> room x0"
  shows "\<exists>x. churn_sample new ins del =
       Value (churn_digest kChurnOperations, snd (churn_map kChurnOperations), x) \<and> imap x = fst (churn_map kChurnOperations)"
proof -
  have "churn_filled 0 = Map.empty" by (simp add: churn_filled_def)
  with fill_done [of x0 0 kLiveOrders] assms obtain x where
    x: "churn_fill ins x0 [0..<kLiveOrders] = Value x" "iinv x" "imap x = churn_filled kLiveOrders" "room x = room x0" by auto
  have "imap x = fst (churn_map 0)" "snd (churn_map 0) = map (\<lambda>i. of_nat i + 1) [0..<kLiveOrders]" "churn_digest 0 = 0"
    using x by (simp_all add: churn_map_def churn_digest_def)
  with loop_done [of x 0 kChurnOperations] x assms show ?thesis by (auto simp: churn_sample_def)
qed

end


section \<open>Both indexes keep the contract\<close>

text \<open>The one-pass operations of the benchmark are the two-pass ones of the books.\<close>

lemma ti_insert_from_eq:
  assumes "pow2_size (length slots)"
  shows "i < length slots \<Longrightarrow> ft \<le> length slots \<Longrightarrow>
     ti_insert_from slots oid v i probes ft =
       (let r = insertion_from slots oid i probes ft in if r = length slots then None else Some (occupy slots r oid v))"
proof (induction "length slots - probes" arbitrary: i probes ft)
  case 0
  then show ?case by (simp add: ti_insert_from.simps [of slots] insertion_from.simps [of slots])
next
  case (Suc d)
  have "next_index (length slots) i < length slots"
    using mask_index_less [OF assms] by (simp add: next_index_def)
  then have "ti_insert_from slots oid v (next_index (length slots) i) (probes + 1) ft' =
      (let r = insertion_from slots oid (next_index (length slots) i) (probes + 1) ft'
       in if r = length slots then None else Some (occupy slots r oid v))" if "ft' \<le> length slots" for ft'
    using Suc.hyps(1) [of "probes + 1"] Suc.hyps(2) that by simp
  then show ?case
    using Suc.prems by (simp add: ti_insert_from.simps [of slots oid v i] insertion_from.simps [of slots oid i] Let_def)
qed

lemma ti_erase_from_eq:
  assumes "pow2_size (length slots)"
  shows "i < length slots \<Longrightarrow> ti_erase_from slots oid i probes =
       (let r = find_from slots oid i probes in if r = length slots then (False, slots) else (True, bury slots r))"
proof (induction "length slots - probes" arbitrary: i probes)
  case 0
  then show ?case by (simp add: ti_erase_from.simps [of slots] find_from.simps [of slots])
next
  case (Suc d)
  have "next_index (length slots) i < length slots"
    using mask_index_less [OF assms] by (simp add: next_index_def)
  then have "ti_erase_from slots oid (next_index (length slots) i) (probes + 1) =
      (let r = find_from slots oid (next_index (length slots) i) (probes + 1)
       in if r = length slots then (False, slots) else (True, bury slots r))"
    using Suc.hyps(1) [of "probes + 1"] Suc.hyps(2) by simp
  then show ?case
    using Suc.prems by (simp add: ti_erase_from.simps [of slots oid i] find_from.simps [of slots oid i] Let_def)
qed

lemma ti_insert_slots: "slots_ok slots \<Longrightarrow> ti_insert slots oid v = slots_insert slots oid v"
  using slots_okD(1) [of slots] home_less [of "length slots" oid]
  by (simp add: ti_insert_def slots_insert_def insertion_slot_def ti_insert_from_eq)

lemma ti_erase_slots:
  "slots_ok slots \<Longrightarrow> ti_erase slots oid = map_value (\<lambda>(r, x). (r \<noteq> None, x)) (slots_erase slots oid)"
  using slots_okD(1) [of slots] home_less [of "length slots" oid]
  by (simp add: ti_erase_def slots_erase_def find_slot_def ti_erase_from_eq Let_def)

interpretation churn_tomb: churn_index ti_insert ti_erase slots_map slots_ok length
proof
  fix x :: "u32 slot list" and i v assume ok: "slots_ok x"
  show "\<exists>x'. ti_insert x i v = Some x' \<and> slots_ok x' \<and> slots_map x' = (slots_map x)(i \<mapsto> v) \<and> length x' = length x"
    if "i \<noteq> 0" "slots_map x i = None" "card (dom (slots_map x)) < length x"
    using tomb.insert_done [OF ok that] by (simp add: ti_insert_slots [OF ok])
  show "\<exists>x'. ti_erase x i = Value (True, x') \<and> slots_ok x' \<and> slots_map x' = (slots_map x)(i := None) \<and> length x' = length x"
    if "slots_map x i \<noteq> None"
    using tomb.erase_done [OF ok, of i] that by (auto simp: ti_erase_slots [OF ok])
qed

interpretation churn_fixed: churn_index fixed_insert fixed_erase_test fixed_map fixed_ok
  "\<lambda>x. unat (fx_maximum_live_entries x)"
proof
  fix x :: "u32 fixed_index" and i v assume ok: "fixed_ok x"
  show "\<exists>x'. fixed_insert x i v = Some x' \<and> fixed_ok x' \<and> fixed_map x' = (fixed_map x)(i \<mapsto> v) \<and>
      unat (fx_maximum_live_entries x') = unat (fx_maximum_live_entries x)"
    if "i \<noteq> 0" "fixed_map x i = None" "card (dom (fixed_map x)) < unat (fx_maximum_live_entries x)"
    using fixed.insert_done [OF ok that] .
  show "\<exists>x'. fixed_erase_test x i = Value (True, x') \<and> fixed_ok x' \<and> fixed_map x' = (fixed_map x)(i := None) \<and>
      unat (fx_maximum_live_entries x') = unat (fx_maximum_live_entries x)" if "fixed_map x i \<noteq> None"
    using fixed.erase_done [OF ok, of i] that by (auto simp: fixed_erase_test_def)
qed

lemma unat_kLiveOrders: "unat (of_nat kLiveOrders :: u64) = kLiveOrders"
  by (simp add: kLiveOrders_def)

lemma ti_new_done:
  "\<exists>x. ti_new (of_nat kLiveOrders) = Value x \<and> slots_ok x \<and> slots_map x = Map.empty \<and> kLiveOrders \<le> length x"
proof -
  obtain c where c: "fixed_order_index_capacity (of_nat kLiveOrders) = Value c" "pow2_size c" "2 * kLiveOrders \<le> c"
    using grown_returns [of "of_nat kLiveOrders"] unfolding unat_kLiveOrders
    by (auto simp: fixed_order_index_capacity_def word_less_nat_alt kLiveOrders_def)
  moreover have "length (empty_slots c (0 :: u32)) = c" by (simp add: empty_slots_def)
  ultimately show ?thesis using slots_ok_empty [OF c(2), of "0 :: u32"] by (auto simp: ti_new_def)
qed

text \<open>
  C19. One sample of the index benchmark ends without an exception on both indexes: every order to be erased is found and every
  replacement is inserted, however many tombstones have piled up. Both indexes end with the same digest, the same live
  identifiers and the same entries, those of a finite map under the same operations.
\<close>

theorem churn_samples_agree:
  "\<exists>x y. churn_sample ti_new ti_insert ti_erase = Value (churn_digest kChurnOperations, snd (churn_map kChurnOperations), x) \<and>
     churn_sample (\<lambda>n. fixed_new n 0) fixed_insert fixed_erase_test =
       Value (churn_digest kChurnOperations, snd (churn_map kChurnOperations), y) \<and>
     slots_map x = fst (churn_map kChurnOperations) \<and> fixed_map y = fst (churn_map kChurnOperations) \<and>
     set (snd (churn_map kChurnOperations)) = dom (slots_map x)"
proof -
  obtain x0 where x0: "ti_new (of_nat kLiveOrders) = Value x0" "slots_ok x0" "slots_map x0 = Map.empty" "kLiveOrders \<le> length x0"
    using ti_new_done by blast
  obtain y0 where y0: "fixed_new (of_nat kLiveOrders) (0 :: u32) = Value y0" "fixed_ok y0" "fixed_map y0 = Map.empty"
      "fx_maximum_live_entries y0 = of_nat kLiveOrders"
    using fixed_new_ok [of "of_nat kLiveOrders" "0 :: u32"] unfolding unat_kLiveOrders by (auto simp: kLiveOrders_def)
  have "kLiveOrders \<le> unat (fx_maximum_live_entries y0)" by (simp only: y0(4) unat_kLiveOrders)
  with churn_tomb.sample_done [of ti_new, OF x0] churn_fixed.sample_done [of "\<lambda>n. fixed_new n 0", OF y0(1-3)]
    churn_inv_map [of kChurnOperations] show ?thesis by (auto simp: churn_inv_def split_beta)
qed

end
