(* ===== verification/L2_Decoder.thy ===== *)
theory L2_Decoder
  imports L2_Order_Book
begin

text \<open>
  The decoder of the exchange's messages (\<open>cpp/include/llab/bybit_v5_l2_decoder.hpp\<close>): decimal texts to
  integers at a scale of \<open>10\<^sup>8\<close>, rows of prices and sizes to levels or changes, and a whole message to the call
  of the level-two book. The property tree and its JSON parser belong to Boost: they are an argument of
  the definitions that use them.
\<close>

section \<open>Texts\<close>

definition isdigit :: "char \<Rightarrow> bool" where
  "isdigit c \<longleftrightarrow> (of_char c :: nat) \<in> {48..57}"

definition digit :: "char \<Rightarrow> u64" where
  "digit c = of_char c - of_char (CHR ''0'')"

text \<open>
  The two loops of \<open>parse_fixed_1e8\<close> run over the rest of the text. The first one stops at the point or at the
  end and returns the whole part, the number of its digits and the rest.
\<close>

fun whole_part :: "string \<Rightarrow> u64 \<Rightarrow> nat \<Rightarrow> (u64 \<times> nat \<times> string) result" where
  "whole_part [] whole whole_digits = Value (whole, whole_digits, [])"
| "whole_part (c # text) whole whole_digits =
     (if c = CHR ''.'' then Value (whole, whole_digits, c # text)
      else if \<not> isdigit c \<or> whole > uint64_max div 10 then Raise (Invalid_argument ''invalid decimal whole part'')
      else whole_part text (whole * 10 + digit c) (whole_digits + 1))"

fun fractional_part :: "string \<Rightarrow> u64 \<Rightarrow> nat \<Rightarrow> (u64 \<times> nat) result" where
  "fractional_part [] fractional digits = Value (fractional, digits)"
| "fractional_part (c # text) fractional digits =
     (if \<not> isdigit c \<or> digits = 8 then Raise (Invalid_argument ''invalid decimal fractional part'')
      else fractional_part text (fractional * 10 + digit c) (digits + 1))"

definition parse_fixed_1e8 :: "string \<Rightarrow> u64 result" where
  "parse_fixed_1e8 text =
     (if text = [] \<or> hd text = CHR ''-'' then Raise (Invalid_argument ''expected unsigned decimal'')
      else and_then (whole_part text 0 0) (\<lambda>(whole, whole_digits, rest).
        if whole_digits = 0 then Raise (Invalid_argument ''missing decimal whole part'')
        else and_then (fractional_part (tl rest) 0 0) (\<lambda>(fractional, digits).
          let fractional = ((\<lambda>f. f * 10) ^^ (8 - digits)) fractional
          in if whole > (uint64_max - fractional) div 100000000
             then Raise (Invalid_argument ''decimal overflow'')
             else Value (whole * 100000000 + fractional))))"

text \<open>The number that a list of decimal digits denotes.\<close>

definition digit_value :: "char \<Rightarrow> nat" where
  "digit_value c = of_char c - 48"

definition decimal_from :: "nat \<Rightarrow> string \<Rightarrow> nat" where
  "decimal_from n text = foldl (\<lambda>n c. 10 * n + digit_value c) n text"

abbreviation decimal :: "string \<Rightarrow> nat" where
  "decimal \<equiv> decimal_from 0"

text \<open>
  \<open>std::from_chars\<close> for an unsigned 64-bit integer: the longest run of digits at the start, no sign and
  no space; nothing if there is none or if the number does not fit. It returns the rest of the text.
\<close>

definition from_chars :: "string \<Rightarrow> (u64 \<times> string) option" where
  "from_chars text =
     (let digits = takeWhile isdigit text
      in if digits = [] \<or> int (decimal digits) \<ge> 2 ^ 64 then None else Some (of_nat (decimal digits), dropWhile isdigit text))"

definition parse_u64 :: "string \<Rightarrow> u64 result" where
  "parse_u64 text =
     (if text = [] then Raise (Invalid_argument ''invalid unsigned integer'')
      else case from_chars text of
        None \<Rightarrow> Raise (Invalid_argument ''invalid unsigned integer'')
      | Some (result, rest) \<Rightarrow> if rest \<noteq> [] then Raise (Invalid_argument ''invalid unsigned integer'') else Value result)"

section \<open>Messages\<close>

text \<open>
  What the decoder uses of a property tree: the parser, the child of a key, the children in order, the text of
  a node, and the exception for a missing key.
\<close>

record 't ptree =
  read_json :: "string \<Rightarrow> 't result"
  pt_child :: "'t \<Rightarrow> string \<Rightarrow> 't option"
  pt_children :: "'t \<Rightarrow> 't list"
  pt_data :: "'t \<Rightarrow> string"
  pt_bad_path :: "string \<Rightarrow> exn"

definition get_child :: "'t ptree \<Rightarrow> 't \<Rightarrow> string \<Rightarrow> 't result" where
  "get_child pt t key = (case pt_child pt t key of None \<Rightarrow> Raise (pt_bad_path pt key) | Some c \<Rightarrow> Value c)"

definition get_string :: "'t ptree \<Rightarrow> 't \<Rightarrow> string \<Rightarrow> string result" where
  "get_string pt t key = map_value (pt_data pt) (get_child pt t key)"

definition get_string_or :: "'t ptree \<Rightarrow> 't \<Rightarrow> string \<Rightarrow> string \<Rightarrow> string" where
  "get_string_or pt t key fallback = (case pt_child pt t key of None \<Rightarrow> fallback | Some c \<Rightarrow> pt_data pt c)"

datatype message_kind = Control_message | Snapshot_message | Delta_message

record message =
  ms_kind :: message_kind
  ms_update_id :: u64
  ms_sequence :: u64
  ms_exchange_timestamp_ms :: u64
  ms_topic :: string
  ms_bids :: "l2_level list"
  ms_asks :: "l2_level list"
  ms_changes :: "l2_change list"

definition empty_message :: message where
  "empty_message = \<lparr>ms_kind = Control_message, ms_update_id = 0, ms_sequence = 0, ms_exchange_timestamp_ms = 0, ms_topic = [],
     ms_bids = [], ms_asks = [], ms_changes = []\<rparr>"

text \<open>One row: its price and its size.\<close>

definition decode_row :: "'t ptree \<Rightarrow> 't \<Rightarrow> (price \<times> quantity) result" where
  "decode_row pt row =
     (case pt_children pt row of
        [] \<Rightarrow> Raise (Invalid_argument ''level has no price'')
      | field # rest \<Rightarrow> and_then (parse_fixed_1e8 (pt_data pt field)) (\<lambda>price.
          case rest of
            [] \<Rightarrow> Raise (Invalid_argument ''level has no size'')
          | field # rest \<Rightarrow> and_then (parse_fixed_1e8 (pt_data pt field)) (\<lambda>quantity.
              if rest \<noteq> [] then Raise (Invalid_argument ''level has unexpected fields'')
              else if price = 0 then Raise (Invalid_argument ''level contains zero price'')
              else Value (price, quantity))))"

fun decode_levels :: "'t ptree \<Rightarrow> 't list \<Rightarrow> side \<Rightarrow> l2_level list \<Rightarrow> l2_change list \<Rightarrow> bool
    \<Rightarrow> (l2_level list \<times> l2_change list) result" where
  "decode_levels pt [] side levels changes snapshot = Value (levels, changes)"
| "decode_levels pt (row # rows) side levels changes snapshot =
     and_then (decode_row pt row) (\<lambda>(price, quantity).
       if snapshot
       then if quantity = 0 then Raise (Invalid_argument ''snapshot contains zero size'')
            else decode_levels pt rows side (levels @ [\<lparr>l2_price = price, l2_quantity = quantity\<rparr>]) changes snapshot
       else decode_levels pt rows side levels (changes @ [\<lparr>ch_side = side, ch_price = price, ch_quantity = quantity\<rparr>]) snapshot)"

text \<open>The rest of \<open>decode\<close>, from the update number on, once the kind is known.\<close>

definition decode_data :: "'t ptree \<Rightarrow> 't \<Rightarrow> 't \<Rightarrow> message_kind \<Rightarrow> message result" where
  "decode_data pt root data kind =
     and_then (and_then (get_string pt data ''u'') parse_u64) (\<lambda>update_id.
       if update_id = 0 then Raise (Invalid_argument ''zero update id'')
       else and_then (parse_u64 (get_string_or pt data ''seq'' ''0'')) (\<lambda>sequence.
         and_then (parse_u64 (get_string_or pt root ''cts'' ''0'')) (\<lambda>cts.
           and_then (get_string pt root ''topic'') (\<lambda>topic.
             let snapshot = (kind = Snapshot_message)
             in and_then (get_child pt data ''b'') (\<lambda>b.
               and_then (decode_levels pt (pt_children pt b) Bid [] [] snapshot) (\<lambda>(bids, changes).
                 and_then (get_child pt data ''a'') (\<lambda>a.
                   and_then (decode_levels pt (pt_children pt a) Ask [] changes snapshot) (\<lambda>(asks, changes).
                     Value \<lparr>ms_kind = kind, ms_update_id = update_id, ms_sequence = sequence, ms_exchange_timestamp_ms = cts,
                            ms_topic = topic, ms_bids = bids, ms_asks = asks, ms_changes = changes\<rparr>))))))))"

text \<open>The source returns \<open>std::optional\<close>, although never an empty one.\<close>

definition decode :: "'t ptree \<Rightarrow> string \<Rightarrow> message option result" where
  "decode pt payload =
     and_then (read_json pt payload) (\<lambda>root.
       case map_option (pt_data pt) (pt_child pt root ''type'') of
         None \<Rightarrow> Value (Some empty_message)
       | Some type \<Rightarrow>
           if type \<noteq> ''snapshot'' \<and> type \<noteq> ''delta'' then Raise (Invalid_argument ''unknown Bybit book message type'')
           else and_then (get_child pt root ''data'') (\<lambda>data.
             map_value Some (decode_data pt root data (if type = ''snapshot'' then Snapshot_message else Delta_message))))"

definition apply_message :: "message \<Rightarrow> vector_book \<Rightarrow> bool \<times> vector_book" where
  "apply_message m book =
     (if ms_kind m = Control_message then (True, book)
      else if ms_kind m = Snapshot_message then vb_apply_snapshot book (ms_update_id m) (ms_bids m) (ms_asks m)
      else vb_apply_delta book (ms_update_id m) (ms_changes m))"

section \<open>Decimal texts\<close>

lemma decimal_from_simps [simp]:
  "decimal_from n [] = n" "decimal_from n (c # xs) = decimal_from (10 * n + digit_value c) xs"
  by (simp_all add: decimal_from_def)

lemma decimal_from_mono: "n \<le> decimal_from n xs"
proof (induction xs arbitrary: n)
  case (Cons c xs)
  from Cons.IH [of "10 * n + digit_value c"] show ?case by simp
qed simp

lemma digit_value_le: "isdigit c \<Longrightarrow> digit_value c \<le> 9"
  by (auto simp: isdigit_def digit_value_def)

lemma decimal_from_bound: "list_all isdigit xs \<Longrightarrow> decimal_from n xs < (n + 1) * 10 ^ length xs"
proof (induction xs arbitrary: n)
  case (Cons c xs)
  let ?m = "10 * n + digit_value c"
  have "decimal_from n (c # xs) < (?m + 1) * 10 ^ length xs" using Cons.IH [of ?m] Cons.prems by simp
  also have "\<dots> \<le> ((n + 1) * 10) * 10 ^ length xs" using Cons.prems digit_value_le [of c] by (intro mult_le_mono1) simp
  finally show ?case by (simp only: mult.assoc power_Suc length_Cons)
qed simp

lemma digit_eq:
  assumes "isdigit c"
  shows "digit c = of_nat (digit_value c)"
proof -
  have "of_nat (of_char c - 48) = (of_nat (of_char c) - of_nat 48 :: u64)"
    using assms by (intro of_nat_diff) (simp add: isdigit_def)
  then show ?thesis by (simp add: digit_def digit_value_def of_nat_of_char)
qed

lemma push_digit: "isdigit c \<Longrightarrow> of_nat n * 10 + digit c = of_nat (10 * n + digit_value c)"
  by (simp add: digit_eq mult.commute)

lemma whole_guard:
  assumes "n * 10 < 2 ^ 64"
  shows "\<not> (of_nat n :: u64) > uint64_max div 10"
proof -
  have "unat (of_nat n :: u64) = n" using assms by (simp add: unat_of_nat)
  then show ?thesis using assms by (simp add: word_less_nat_alt unat_div)
qed

text \<open>As long as the number fits into a word, the loop of the whole part reads it exactly.\<close>

lemma whole_part_exact:
  assumes "decimal_from n (takeWhile (\<lambda>c. c \<noteq> CHR ''.'') xs) < 2 ^ 64" "list_all isdigit (takeWhile (\<lambda>c. c \<noteq> CHR ''.'') xs)"
  shows "whole_part xs (of_nat n) k =
    Value (of_nat (decimal_from n (takeWhile (\<lambda>c. c \<noteq> CHR ''.'') xs)), k + length (takeWhile (\<lambda>c. c \<noteq> CHR ''.'') xs),
      dropWhile (\<lambda>c. c \<noteq> CHR ''.'') xs)"
  using assms
proof (induction xs arbitrary: n k)
  case (Cons c xs)
  show ?case
  proof (cases "c = CHR ''.''")
    case False
    let ?m = "10 * n + digit_value c"
    have "?m < 2 ^ 64" using Cons.prems False decimal_from_mono [of ?m] by (auto intro: le_less_trans)
    then have "\<not> of_nat n > uint64_max div 10" by (intro whole_guard) simp
    with Cons False show ?thesis by (simp add: push_digit del: of_nat_add of_nat_mult)
  qed simp
qed simp

lemma whole_part_raises:
  assumes "\<not> list_all isdigit (takeWhile (\<lambda>c. c \<noteq> CHR ''.'') xs)"
  shows "whole_part xs whole k = Raise (Invalid_argument ''invalid decimal whole part'')"
  using assms by (induction xs arbitrary: whole k) (auto split: if_splits)

lemma fractional_part_exact:
  assumes "list_all isdigit xs" "k + length xs \<le> 8"
  shows "fractional_part xs (of_nat n) k = Value (of_nat (decimal_from n xs), k + length xs)"
  using assms by (induction xs arbitrary: n k) (simp_all add: push_digit del: of_nat_add of_nat_mult)

lemma fractional_part_raises:
  assumes "\<not> list_all isdigit xs \<or> k + length xs > 8" "k \<le> 8"
  shows "fractional_part xs f k = Raise (Invalid_argument ''invalid decimal fractional part'')"
  using assms by (induction xs arbitrary: f k) (auto simp: less_Suc_eq_le)

lemma pad_zeros: "((\<lambda>f. f * 10) ^^ k) (of_nat n :: u64) = of_nat (n * 10 ^ k)"
  by (induction k) (simp_all add: mult.commute)

text \<open>What a decimal text means at the scale of \<open>10\<^sup>8\<close>, with no bound on its size.\<close>

definition decimal_1e8 :: "string \<Rightarrow> nat option" where
  "decimal_1e8 xs =
     (let whole = takeWhile (\<lambda>c. c \<noteq> CHR ''.'') xs; fraction = tl (dropWhile (\<lambda>c. c \<noteq> CHR ''.'') xs)
      in if whole \<noteq> [] \<and> list_all isdigit (whole @ fraction) \<and> length fraction \<le> 8
         then Some (decimal whole * 10 ^ 8 + decimal fraction * 10 ^ (8 - length fraction)) else None)"

lemma padded_fraction:
  assumes "list_all isdigit xs" "length xs \<le> 8"
  shows "decimal xs * 10 ^ (8 - length xs) < 10 ^ 8"
proof -
  have "decimal xs * 10 ^ (8 - length xs) < 10 ^ length xs * 10 ^ (8 - length xs)"
    using decimal_from_bound [OF assms(1), of 0] by simp
  also have "\<dots> = 10 ^ 8" using assms(2) by (simp flip: power_add)
  finally show ?thesis .
qed

lemma scaled_overflow_guard:
  assumes "w < 2 ^ 64" "f < 10 ^ 8"
  shows "(of_nat w :: u64) > (uint64_max - of_nat f) div 100000000 \<longleftrightarrow> w * 10 ^ 8 + f \<ge> 2 ^ 64"
proof -
  have f: "unat (uint64_max - of_nat f :: u64) = 2 ^ 64 - 1 - f"
    using assms(2) by (subst unat_sub) (simp_all add: word_le_nat_alt unat_of_nat)
  have "(of_nat w :: u64) > (uint64_max - of_nat f) div 100000000 \<longleftrightarrow> (2 ^ 64 - 1 - f) div 10 ^ 8 < w"
    using assms(1) by (simp add: word_less_nat_alt unat_div f unat_of_nat)
  also have "\<dots> \<longleftrightarrow> w * 10 ^ 8 + f \<ge> 2 ^ 64"
    using assms(2) by (simp add: div_less_iff_less_mult) linarith
  finally show ?thesis .
qed

lemma parse_fixed_1e8_value:
  assumes fits: "decimal (takeWhile (\<lambda>c. c \<noteq> CHR ''.'') xs) < 2 ^ 64" and n: "decimal_1e8 xs = Some n"
  shows "parse_fixed_1e8 xs = (if n < 2 ^ 64 then Value (of_nat n) else Raise (Invalid_argument ''decimal overflow''))"
proof -
  define w f where "w = takeWhile (\<lambda>c. c \<noteq> CHR ''.'') xs" and "f = tl (dropWhile (\<lambda>c. c \<noteq> CHR ''.'') xs)"
  define p where "p = decimal f * 10 ^ (8 - length f)"
  have d: "w \<noteq> []" "list_all isdigit w" "list_all isdigit f" "length f \<le> 8" "n = decimal w * 10 ^ 8 + p"
    using n by (auto simp: decimal_1e8_def Let_def w_def f_def p_def split: if_splits)
  have "xs \<noteq> [] \<and> hd xs \<noteq> CHR ''-''"
    using d(1,2) by (cases xs) (auto simp: w_def isdigit_def split: if_splits)
  moreover have "whole_part xs 0 0 = Value (of_nat (decimal w), length w, dropWhile (\<lambda>c. c \<noteq> CHR ''.'') xs)"
    using whole_part_exact [of 0 xs 0] fits d(2) by (simp add: w_def)
  moreover have "fractional_part f 0 0 = Value (of_nat (decimal f), length f)"
    using fractional_part_exact [of f 0 0] d(3,4) by simp
  moreover have "((\<lambda>f. f * 10) ^^ (8 - length f)) (of_nat (decimal f) :: u64) = of_nat p"
    unfolding p_def by (rule pad_zeros)
  moreover have "of_nat n = (of_nat (decimal w) * 100000000 + of_nat p :: u64)" unfolding d(5) by simp
  moreover have "(of_nat (decimal w) :: u64) > (uint64_max - of_nat p) div 100000000 \<longleftrightarrow> n \<ge> 2 ^ 64"
    unfolding d(5) using fits padded_fraction [OF d(3,4)] by (intro scaled_overflow_guard) (simp_all add: w_def p_def)
  ultimately show ?thesis using d(1) by (simp add: parse_fixed_1e8_def flip: f_def)
qed

lemma parse_fixed_1e8_malformed:
  assumes fits: "decimal (takeWhile (\<lambda>c. c \<noteq> CHR ''.'') xs) < 2 ^ 64" and "decimal_1e8 xs = None"
  shows "\<exists>m. parse_fixed_1e8 xs = Raise (Invalid_argument m)"
proof -
  define w f where "w = takeWhile (\<lambda>c. c \<noteq> CHR ''.'') xs" and "f = tl (dropWhile (\<lambda>c. c \<noteq> CHR ''.'') xs)"
  have d: "w = [] \<or> \<not> list_all isdigit w \<or> \<not> list_all isdigit f \<or> length f > 8"
    using assms(2) by (auto simp: decimal_1e8_def Let_def w_def f_def split: if_splits)
  show ?thesis
  proof (cases "list_all isdigit w")
    case False
    then show ?thesis using whole_part_raises [of xs 0 0] by (simp add: parse_fixed_1e8_def w_def)
  next
    case True
    then have "whole_part xs 0 0 = Value (of_nat (decimal w), length w, dropWhile (\<lambda>c. c \<noteq> CHR ''.'') xs)"
      using whole_part_exact [of 0 xs 0] fits by (simp add: w_def)
    moreover have "w \<noteq> [] \<Longrightarrow> fractional_part f 0 0 = Raise (Invalid_argument ''invalid decimal fractional part'')"
      using fractional_part_raises [of f 0 0] d True by auto
    ultimately show ?thesis by (simp add: parse_fixed_1e8_def flip: f_def)
  qed
qed

text \<open>
  The test of the whole part lets the last digit wrap: a price beyond the 64-bit range, whose whole part is
  \<open>2\<^sup>6\<^sup>4 + 1\<close>, is read as 1.
\<close>

lemma parse_fixed_1e8_wraps: "parse_fixed_1e8 ''18446744073709551617'' = Value 100000000"
  by code_simp

lemma parse_u64_iff: "parse_u64 xs = Value v \<longleftrightarrow> xs \<noteq> [] \<and> list_all isdigit xs \<and> decimal xs = unat v"
proof (cases "xs \<noteq> [] \<and> list_all isdigit xs")
  case True
  then have digits: "takeWhile isdigit xs = xs" "dropWhile isdigit xs = []" by (simp_all add: list_all_iff)
  have "from_chars xs = (if decimal xs \<ge> 2 ^ 64 then None else Some (of_nat (decimal xs), []))"
    unfolding from_chars_def Let_def digits using True by simp
  with True unsigned_less [of v, where 'a = nat] show ?thesis by (auto simp: parse_u64_def unat_of_nat)
next
  case False
  then show ?thesis by (auto simp: parse_u64_def from_chars_def Let_def list_all_iff split: if_splits)
qed

section \<open>Messages that decode\<close>

lemma decode_row_iff:
  "decode_row pt row = Value (p, q) \<longleftrightarrow>
     (\<exists>a b. pt_children pt row = [a, b] \<and> parse_fixed_1e8 (pt_data pt a) = Value p \<and> parse_fixed_1e8 (pt_data pt b) = Value q \<and> p \<noteq> 0)"
  by (cases "pt_children pt row"; cases "tl (pt_children pt row)") (auto simp: decode_row_def and_then_Value_iff split: if_splits)

text \<open>Each row of a snapshot becomes one level, each row of a delta one change, in order.\<close>

definition row_level :: "'t ptree \<Rightarrow> 't \<Rightarrow> l2_level \<Rightarrow> bool" where
  "row_level pt row l \<longleftrightarrow> decode_row pt row = Value (l2_price l, l2_quantity l) \<and> l2_quantity l \<noteq> 0"

definition row_change :: "'t ptree \<Rightarrow> side \<Rightarrow> 't \<Rightarrow> l2_change \<Rightarrow> bool" where
  "row_change pt s row c \<longleftrightarrow> decode_row pt row = Value (ch_price c, ch_quantity c) \<and> ch_side c = s"

lemma decode_levels_snapshot:
  "decode_levels pt rows s ls cs True = Value (ls', cs') \<Longrightarrow> cs' = cs \<and> (\<exists>new. ls' = ls @ new \<and> list_all2 (row_level pt) rows new)"
proof (induction rows arbitrary: ls)
  case (Cons row rows)
  then obtain p q where row: "decode_row pt row = Value (p, q)" "q \<noteq> 0"
      "decode_levels pt rows s (ls @ [\<lparr>l2_price = p, l2_quantity = q\<rparr>]) cs True = Value (ls', cs')"
    by (auto simp: and_then_Value_iff split: if_splits)
  from Cons.IH [OF row(3)] obtain new where "cs' = cs" "ls' = ls @ \<lparr>l2_price = p, l2_quantity = q\<rparr> # new"
      "list_all2 (row_level pt) rows new" by auto
  moreover have "row_level pt row \<lparr>l2_price = p, l2_quantity = q\<rparr>" using row(1,2) by (simp add: row_level_def)
  ultimately show ?case by (auto intro!: exI [of _ "\<lparr>l2_price = p, l2_quantity = q\<rparr> # new"])
qed simp

lemma decode_levels_delta:
  "decode_levels pt rows s ls cs False = Value (ls', cs') \<Longrightarrow> ls' = ls \<and> (\<exists>new. cs' = cs @ new \<and> list_all2 (row_change pt s) rows new)"
proof (induction rows arbitrary: cs)
  case (Cons row rows)
  then obtain p q where row: "decode_row pt row = Value (p, q)"
      "decode_levels pt rows s ls (cs @ [\<lparr>ch_side = s, ch_price = p, ch_quantity = q\<rparr>]) False = Value (ls', cs')"
    by (auto simp: and_then_Value_iff)
  from Cons.IH [OF row(2)] obtain new where "ls' = ls" "cs' = cs @ \<lparr>ch_side = s, ch_price = p, ch_quantity = q\<rparr> # new"
      "list_all2 (row_change pt s) rows new" by auto
  moreover have "row_change pt s row \<lparr>ch_side = s, ch_price = p, ch_quantity = q\<rparr>" using row(1) by (simp add: row_change_def)
  ultimately show ?case by (auto intro!: exI [of _ "\<lparr>ch_side = s, ch_price = p, ch_quantity = q\<rparr> # new"])
qed simp

lemma rows_positive:
  "list_all2 (row_level pt) rows ls \<Longrightarrow> list_all (\<lambda>l. l2_price l \<noteq> 0 \<and> l2_quantity l \<noteq> 0) ls"
  "list_all2 (row_change pt s) rows cs \<Longrightarrow> list_all (\<lambda>c. ch_price c \<noteq> 0 \<and> ch_side c = s) cs"
  by (auto simp: list_all2_conv_all_nth list_all_length row_level_def row_change_def decode_row_iff)

text \<open>What a message may carry, by its kind.\<close>

definition message_ok :: "message \<Rightarrow> bool" where
  "message_ok m =
     (case ms_kind m of
        Control_message \<Rightarrow> m = empty_message
      | Snapshot_message \<Rightarrow> ms_update_id m \<noteq> 0 \<and> ms_changes m = [] \<and>
          list_all (\<lambda>l. l2_price l \<noteq> 0 \<and> l2_quantity l \<noteq> 0) (ms_bids m @ ms_asks m)
      | Delta_message \<Rightarrow> ms_update_id m \<noteq> 0 \<and> ms_bids m = [] \<and> ms_asks m = [] \<and>
          (\<exists>bids asks. ms_changes m = bids @ asks \<and> list_all (\<lambda>c. ch_price c \<noteq> 0 \<and> ch_side c = Bid) bids \<and>
             list_all (\<lambda>c. ch_price c \<noteq> 0 \<and> ch_side c = Ask) asks))"

lemma decode_data_Value:
  assumes "decode_data pt root d k = Value m"
  obtains b a cs where "ms_kind m = k" "ms_update_id m \<noteq> 0"
    "decode_levels pt b Bid [] [] (k = Snapshot_message) = Value (ms_bids m, cs)"
    "decode_levels pt a Ask [] cs (k = Snapshot_message) = Value (ms_asks m, ms_changes m)"
  using assms unfolding decode_data_def Let_def
  by (elim and_then_ValueE) (auto elim!: and_then_ValueE intro: that split: if_splits)

lemma map_value_Value_iff: "map_value f r = Value b \<longleftrightarrow> (\<exists>a. r = Value a \<and> b = f a)"
  by (cases r) auto

lemma message_ok_empty: "message_ok empty_message"
  by (simp add: message_ok_def empty_message_def)

lemma decode_data_ok:
  assumes "decode_data pt root d k = Value m" "k \<noteq> Control_message"
  shows "message_ok m"
  using assms(1)
proof (cases rule: decode_data_Value)
  case (1 b a cs)
  show ?thesis
  proof (cases k)
    case Snapshot_message
    with 1(3,4) decode_levels_snapshot [of pt b Bid "[]" "[]"] decode_levels_snapshot [of pt a Ask "[]" cs]
    have "list_all2 (row_level pt) b (ms_bids m)" "list_all2 (row_level pt) a (ms_asks m)" "ms_changes m = []" by fastforce+
    with rows_positive(1) Snapshot_message 1 show ?thesis by (auto simp: message_ok_def)
  next
    case Delta_message
    with 1(3,4) decode_levels_delta [of pt b Bid "[]" "[]"] decode_levels_delta [of pt a Ask "[]" cs]
    obtain new where "list_all2 (row_change pt Bid) b cs" "ms_changes m = cs @ new" "list_all2 (row_change pt Ask) a new"
      "ms_bids m = []" "ms_asks m = []" by fastforce
    with rows_positive(2) [of pt Bid b cs] rows_positive(2) [of pt Ask a new] Delta_message 1 show ?thesis
      by (auto simp: message_ok_def)
  qed (use assms(2) in simp)
qed

text \<open>
  C30. Every payload that decodes yields a message, and one that is well typed: a control message is
  empty; a snapshot has an update number, only levels, and none of price or size zero; a delta has an
  update number and only changes, those of the bids before those of the asks, none at price zero.
\<close>

theorem decoded_message_typed:
  assumes "decode pt payload = Value r"
  shows "\<exists>m. r = Some m \<and> message_ok m"
  using assms unfolding decode_def
  by (auto elim!: and_then_ValueE simp: decode_data_ok message_ok_empty map_value_Value_iff split: option.splits if_splits)

text \<open>
  C29. The decimal parser reads exactly the numbers: for a text whose whole part fits into 64 bits it
  returns the value at the scale of \<open>10\<^sup>8\<close> if the text is a decimal with one to any number of whole and at most eight
  fractional digits and the value fits, and raises an exception otherwise.
\<close>

theorem parse_fixed_1e8_exact:
  assumes "decimal (takeWhile (\<lambda>c. c \<noteq> CHR ''.'') xs) < 2 ^ 64"
  shows "case decimal_1e8 xs of
      None \<Rightarrow> \<exists>m. parse_fixed_1e8 xs = Raise (Invalid_argument m)
    | Some n \<Rightarrow> parse_fixed_1e8 xs = (if n < 2 ^ 64 then Value (of_nat n) else Raise (Invalid_argument ''decimal overflow''))"
  using parse_fixed_1e8_value [OF assms] parse_fixed_1e8_malformed [OF assms] by (simp split: option.splits)

theorem parse_fixed_1e8_exact_witness:
  "decimal_1e8 ''42.05'' = Some 4205000000 \<and> parse_fixed_1e8 ''42.05'' = Value 4205000000"
proof -
  have d: "decimal_1e8 ''42.05'' = Some 4205000000"
    by (simp add: decimal_1e8_def isdigit_def digit_value_def)
  have "decimal (takeWhile (\<lambda>c. c \<noteq> CHR ''.'') ''42.05'') < 2 ^ 64" by (simp add: digit_value_def)
  from parse_fixed_1e8_exact [OF this] d show ?thesis by simp
qed

section \<open>A tree and a message\<close>

text \<open>Trees of labelled children, as Boost keeps them, and the tree of one snapshot.\<close>

datatype tree = Tree (tree_data: string) (tree_children: "(string \<times> tree) list")

definition sample_ptree :: "(string \<Rightarrow> tree result) \<Rightarrow> tree ptree" where
  "sample_ptree read = \<lparr>read_json = read, pt_child = (\<lambda>t key. map_of (tree_children t) key),
     pt_children = (\<lambda>t. map snd (tree_children t)), pt_data = tree_data,
     pt_bad_path = (\<lambda>key. Runtime_error (''No such node: '' @ key))\<rparr>"

definition leaf :: "string \<Rightarrow> tree" where
  "leaf s = Tree s []"

definition row :: "string \<Rightarrow> string \<Rightarrow> string \<times> tree" where
  "row p q = ([], Tree [] [([], leaf p), ([], leaf q)])"

definition sample_snapshot_tree :: tree where
  "sample_snapshot_tree = Tree [] [(''topic'', leaf ''orderbook.50.BTCUSDT''), (''type'', leaf ''snapshot''), (''cts'', leaf ''5''),
     (''data'', Tree [] [(''u'', leaf ''7''), (''b'', Tree [] [row ''100.5'' ''2'']), (''a'', Tree [] [row ''101'' ''0.25''])])]"

definition sample_message :: message where
  "sample_message = \<lparr>ms_kind = Snapshot_message, ms_update_id = 7, ms_sequence = 0, ms_exchange_timestamp_ms = 5,
     ms_topic = ''orderbook.50.BTCUSDT'', ms_bids = [\<lparr>l2_price = 10050000000, l2_quantity = 200000000\<rparr>],
     ms_asks = [\<lparr>l2_price = 10100000000, l2_quantity = 25000000\<rparr>], ms_changes = []\<rparr>"

lemma sample_decode: "decode (sample_ptree (\<lambda>_. Value sample_snapshot_tree)) xs = Value (Some sample_message)"
proof -
  have "decode (sample_ptree (\<lambda>_. Value sample_snapshot_tree)) [] = Value (Some sample_message)" by code_simp
  then show ?thesis by (simp add: decode_def sample_ptree_def)
qed

theorem decoded_message_typed_witness:
  "decode (sample_ptree (\<lambda>_. Value sample_snapshot_tree)) ''{}'' = Value (Some sample_message) \<and> message_ok sample_message"
  using decoded_message_typed [OF sample_decode] sample_decode by simp

end
