(* ===== verification/Raw_Frame_Record.thy ===== *)
theory Raw_Frame_Record
  imports Prelude
begin

text \<open>
  The binary record of one captured frame (\<open>cpp/include/llab/raw_frame_record.hpp\<close>): little-endian
  fields, the payload and a CRC-32C of everything before it.
\<close>

section \<open>Data\<close>

text \<open>
  \<open>FrameDirection\<close> and \<open>FrameKind\<close> are enumerations with the underlying type \<open>std::uint8_t\<close>: any byte is a
  value of them, and \<open>decode_raw_frame\<close> casts any byte.
\<close>

type_synonym frame_direction = u8
type_synonym frame_kind = u8

definition Inbound :: frame_direction where "Inbound = 0"
definition Outbound :: frame_direction where "Outbound = 1"

definition Text :: frame_kind where "Text = 0"
definition Binary :: frame_kind where "Binary = 1"
definition Control :: frame_kind where "Control = 2"
definition Lifecycle :: frame_kind where "Lifecycle = 3"

text \<open>The signed \<open>utc_ns\<close> is kept as its 64 bits, which is all the codec uses of it.\<close>

record raw_frame_record =
  rf_capture_index :: u64
  rf_monotonic_ns :: u64
  rf_connection_id :: u64
  rf_utc_ns :: u64
  rf_direction :: frame_direction
  rf_kind :: frame_kind
  rf_payload :: "u8 list"

definition raw_frame_header_size :: nat where
  "raw_frame_header_size = 38"

definition raw_frame_max_payload :: nat where
  "raw_frame_max_payload = 1048576"

section \<open>Checksum, integers, records\<close>

definition crc_bit :: "u32 \<Rightarrow> u32" where
  "crc_bit v = drop_bit 1 v XOR (0x82F63B78 AND (- (v AND 1)))"

definition crc_byte :: "u32 \<Rightarrow> u8 \<Rightarrow> u32" where
  "crc_byte v b = (crc_bit ^^ 8) (v XOR ucast b)"

definition crc32c :: "u8 list \<Rightarrow> u32" where
  "crc32c bytes = NOT (foldl crc_byte (NOT 0) bytes)"

text \<open>\<open>append_le<T>\<close> and \<open>read_le<T>\<close>; the first argument is \<open>sizeof(T)\<close>.\<close>

definition append_le :: "nat \<Rightarrow> u8 list \<Rightarrow> u64 \<Rightarrow> u8 list" where
  "append_le n out v = foldl (\<lambda>out i. out @ [ucast (drop_bit (i * 8) v)]) out [0..<n]"

definition read_le :: "nat \<Rightarrow> u8 list \<Rightarrow> nat \<Rightarrow> u64" where
  "read_le n bytes offset = foldl (\<lambda>v i. v OR push_bit (i * 8) (ucast (bytes ! (offset + i)))) 0 [0..<n]"

definition encode_raw_frame_into :: "raw_frame_record \<Rightarrow> u8 list" where
  "encode_raw_frame_into r =
     (let out = [];
          out = append_le 8 out (rf_capture_index r);
          out = append_le 8 out (rf_monotonic_ns r);
          out = append_le 8 out (rf_utc_ns r);
          out = append_le 8 out (rf_connection_id r);
          out = out @ [rf_direction r];
          out = out @ [rf_kind r];
          out = append_le 4 out (ucast (of_nat (length (rf_payload r)) :: u32));
          out = out @ rf_payload r
      in append_le 4 out (ucast (crc32c out)))"

definition encode_raw_frame :: "raw_frame_record \<Rightarrow> u8 list" where
  "encode_raw_frame r = encode_raw_frame_into r"

definition decode_raw_frame :: "u8 list \<Rightarrow> raw_frame_record option" where
  "decode_raw_frame bytes =
     (if length bytes < raw_frame_header_size + 4 then None
      else let len = unat (read_le 4 bytes 34)
           in if len > raw_frame_max_payload \<or> length bytes \<noteq> raw_frame_header_size + len + 4 \<or>
                 crc32c (take (length bytes - 4) bytes) \<noteq> ucast (read_le 4 bytes (length bytes - 4))
              then None
              else Some \<lparr>rf_capture_index = read_le 8 bytes 0, rf_monotonic_ns = read_le 8 bytes 8,
                         rf_connection_id = read_le 8 bytes 24, rf_utc_ns = read_le 8 bytes 16,
                         rf_direction = bytes ! 32, rf_kind = bytes ! 33,
                         rf_payload = take len (drop raw_frame_header_size bytes)\<rparr>)"

section \<open>Little-endian integers\<close>

definition le_bytes :: "nat \<Rightarrow> u64 \<Rightarrow> u8 list" where
  "le_bytes n v = map (\<lambda>i. ucast (drop_bit (i * 8) v)) [0..<n]"

lemma append_le_eq: "append_le n out v = out @ le_bytes n v"
  unfolding append_le_def le_bytes_def by (induction n) simp_all

lemma length_le_bytes [simp]: "length (le_bytes n v) = n"
  by (simp add: le_bytes_def)

lemma bit_read_le:
  "n \<le> 8 \<Longrightarrow> bit (read_le n bytes offset) k \<longleftrightarrow> k < n * 8 \<and> bit (bytes ! (offset + k div 8)) (k mod 8)"
proof (induction n)
  case 0
  then show ?case by (simp add: read_le_def)
next
  case (Suc n)
  have step: "read_le (Suc n) bytes offset = read_le n bytes offset OR push_bit (n * 8) (ucast (bytes ! (offset + n)))"
    by (simp add: read_le_def)
  show ?case
  proof (cases "k < n * 8")
    case True
    with Suc show ?thesis by (simp add: step bit_simps)
  next
    case False
    show ?thesis
    proof (cases "k < Suc n * 8")
      case True
      then have "k div 8 = n" using False by (simp add: div_nat_eqI mult.commute)
      then have "k - n * 8 = k mod 8" by (metis minus_div_mult_eq_mod)
      moreover have "k mod 8 < 64" using mod_less_divisor [of 8 k] by linarith
      ultimately show ?thesis using True False Suc \<open>k div 8 = n\<close> by (simp add: step bit_simps)
    next
      case beyond: False
      then have "\<not> bit (bytes ! (offset + n)) (k - n * 8)" by (auto dest: bit_imp_le_length)
      with beyond False Suc show ?thesis by (simp add: step bit_simps)
    qed
  qed
qed

lemma nth_le_bytes: "i < n \<Longrightarrow> le_bytes n v ! i = ucast (drop_bit (i * 8) v)"
  by (simp add: le_bytes_def)

text \<open>Reading what was written, and writing what was read.\<close>

lemma read_le_bytes:
  assumes "n \<le> 8" "\<And>i. i < n \<Longrightarrow> bytes ! (offset + i) = le_bytes n v ! i"
  shows "read_le n bytes offset = take_bit (n * 8) v"
proof (rule bit_eqI)
  fix k
  show "bit (read_le n bytes offset) k \<longleftrightarrow> bit (take_bit (n * 8) v) k"
  proof (cases "k < n * 8")
    case True
    then have "k div 8 < n" by (simp add: less_mult_imp_div_less)
    then have "bytes ! (offset + k div 8) = ucast (drop_bit (k div 8 * 8) v)" using assms(2) nth_le_bytes by simp
    then show ?thesis using True assms(1) by (simp add: bit_read_le bit_simps)
  next
    case False
    then show ?thesis using assms(1) by (simp add: bit_read_le bit_simps)
  qed
qed

lemma le_bytes_read:
  assumes "n \<le> 8" "offset + n \<le> length bytes"
  shows "le_bytes n (read_le n bytes offset) = take n (drop offset bytes)"
proof (rule nth_equalityI)
  show "length (le_bytes n (read_le n bytes offset)) = length (take n (drop offset bytes))" using assms(2) by simp
  fix i assume "i < length (le_bytes n (read_le n bytes offset))"
  then have i: "i < n" by simp
  have "bit (ucast (drop_bit (i * 8) (read_le n bytes offset)) :: u8) k \<longleftrightarrow> bit (bytes ! (offset + i)) k" for k
  proof (cases "k < 8")
    case True
    then have "(i * 8 + k) div 8 = i" "(i * 8 + k) mod 8 = k" "i * 8 + k < n * 8" using i by simp_all
    then show ?thesis using True assms(1) by (simp add: bit_read_le bit_simps add.commute)
  next
    case False
    then show ?thesis by (auto dest: bit_imp_le_length)
  qed
  then show "le_bytes n (read_le n bytes offset) ! i = take n (drop offset bytes) ! i"
    using i assms(2) by (simp add: nth_le_bytes bit_eq_iff)
qed

lemma read_le_less: "n \<le> 8 \<Longrightarrow> take_bit (n * 8) (read_le n bytes offset) = read_le n bytes offset"
  by (auto simp: bit_eq_iff bit_read_le bit_simps)

lemma read_le_eq:
  assumes "n \<le> 8" "offset + n \<le> length bytes" "take n (drop offset bytes) = le_bytes n v"
  shows "read_le n bytes offset = take_bit (n * 8) v"
proof (rule read_le_bytes [OF assms(1)])
  fix i assume "i < n"
  then have "bytes ! (offset + i) = take n (drop offset bytes) ! i" using assms(2) by simp
  then show "bytes ! (offset + i) = le_bytes n v ! i" by (simp only: assms(3))
qed

section \<open>The layout of a record\<close>

text \<open>Everything before the checksum.\<close>

definition frame_body :: "raw_frame_record \<Rightarrow> u8 list" where
  "frame_body r = le_bytes 8 (rf_capture_index r) @ le_bytes 8 (rf_monotonic_ns r) @ le_bytes 8 (rf_utc_ns r) @
     le_bytes 8 (rf_connection_id r) @ [rf_direction r, rf_kind r] @
     le_bytes 4 (ucast (of_nat (length (rf_payload r)) :: u32)) @ rf_payload r"

lemma encode_eq: "encode_raw_frame r = frame_body r @ le_bytes 4 (ucast (crc32c (frame_body r)))"
  by (simp add: encode_raw_frame_def encode_raw_frame_into_def append_le_eq frame_body_def Let_def)

lemma length_frame_body [simp]: "length (frame_body r) = 38 + length (rf_payload r)"
  by (simp add: frame_body_def)

lemma length_encode: "length (encode_raw_frame r) = 42 + length (rf_payload r)"
  by (simp add: encode_eq)

lemma ucast_u32_u64 [simp]: "(ucast (ucast (w :: u32) :: u64) :: u32) = w"
  by (simp add: bit_eq_iff bit_simps)

lemma take_bit_u64 [simp]: "take_bit 64 (w :: u64) = w"
  by (auto simp: bit_eq_iff bit_simps dest: bit_imp_le_length)

lemma take_bit_ucast_u32 [simp]: "take_bit 32 (ucast (w :: u32) :: u64) = ucast w"
  by (auto simp: bit_eq_iff bit_simps dest: bit_imp_le_length)

lemma length_field: "n \<le> raw_frame_max_payload \<Longrightarrow> unat (ucast (of_nat n :: u32) :: u64) = n"
  by (simp add: raw_frame_max_payload_def unsigned_ucast_eq unsigned_of_nat take_bit_nat_eq_self)

lemma decode_encode:
  assumes "length (rf_payload r) \<le> raw_frame_max_payload"
  shows "decode_raw_frame (encode_raw_frame r) = Some r"
proof -
  let ?b = "encode_raw_frame r"
  have len: "length ?b = 42 + length (rf_payload r)" by (rule length_encode)
  have crc: "take (length ?b - 4) ?b = frame_body r" "drop (length ?b - 4) ?b = le_bytes 4 (ucast (crc32c (frame_body r)))"
    unfolding len by (simp_all add: encode_eq)
  have f: "read_le 8 ?b 0 = rf_capture_index r" "read_le 8 ?b 8 = rf_monotonic_ns r" "read_le 8 ?b 16 = rf_utc_ns r"
    "read_le 8 ?b 24 = rf_connection_id r" "read_le 4 ?b 34 = ucast (of_nat (length (rf_payload r)) :: u32)"
    using read_le_eq [of 8 0 ?b "rf_capture_index r"] read_le_eq [of 8 8 ?b "rf_monotonic_ns r"]
      read_le_eq [of 8 16 ?b "rf_utc_ns r"] read_le_eq [of 8 24 ?b "rf_connection_id r"]
      read_le_eq [of 4 34 ?b "ucast (of_nat (length (rf_payload r)) :: u32)"]
    by (simp_all add: len encode_eq frame_body_def)
  have sum: "ucast (read_le 4 ?b (length ?b - 4)) = crc32c (frame_body r)"
    using read_le_eq [of 4 "length ?b - 4" ?b "ucast (crc32c (frame_body r))"] crc(2) len by simp
  have "?b ! 32 = rf_direction r" "?b ! 33 = rf_kind r" "take (length (rf_payload r)) (drop 38 ?b) = rf_payload r"
    by (simp_all add: encode_eq frame_body_def nth_append)
  then show ?thesis
    using assms length_field [OF assms] crc(1) f sum len by (simp add: decode_raw_frame_def raw_frame_header_size_def Let_def)
qed

lemma le_bytes_crc: "le_bytes 4 (read_le 4 bytes offset) = le_bytes 4 (ucast (ucast (read_le 4 bytes offset) :: u32))"
proof -
  have "(ucast (ucast (read_le 4 bytes offset) :: u32) :: u64) = take_bit (4 * 8) (read_le 4 bytes offset)"
    by (auto simp: bit_eq_iff bit_simps bit_read_le)
  then show ?thesis by (simp only: read_le_less [of 4])
qed

lemma encode_decode:
  assumes dec: "decode_raw_frame bytes = Some r"
  shows "length (rf_payload r) \<le> raw_frame_max_payload \<and> bytes = encode_raw_frame r"
proof -
  let ?len = "unat (read_le 4 bytes 34)"
  have len: "?len \<le> raw_frame_max_payload" "length bytes = 38 + ?len + 4"
    and crc: "crc32c (take (38 + ?len) bytes) = ucast (read_le 4 bytes (38 + ?len))"
    using dec by (auto simp: decode_raw_frame_def raw_frame_header_size_def Let_def split: if_splits)
  have r: "rf_capture_index r = read_le 8 bytes 0" "rf_monotonic_ns r = read_le 8 bytes 8" "rf_utc_ns r = read_le 8 bytes 16"
    "rf_connection_id r = read_le 8 bytes 24" "rf_direction r = bytes ! 32" "rf_kind r = bytes ! 33"
    "rf_payload r = take ?len (drop 38 bytes)"
    using dec by (auto simp: decode_raw_frame_def raw_frame_header_size_def Let_def split: if_splits)
  have field: "(ucast (of_nat (length (rf_payload r)) :: u32) :: u64) = read_le 4 bytes 34"
  proof -
    have "length (rf_payload r) = ?len" using len(2) by (simp add: r(7))
    then show ?thesis unfolding word_unat_eq_iff using length_field [OF len(1)] by (simp only:)
  qed
  have "[bytes ! 32, bytes ! 33] = take 2 (drop 32 bytes)"
    using len(2) by (simp add: numeral_2_eq_2 take_Suc_conv_app_nth)
  then have "frame_body r = take 8 (drop 0 bytes) @ take 8 (drop 8 bytes) @ take 8 (drop 16 bytes) @ take 8 (drop 24 bytes) @
      take 2 (drop 32 bytes) @ take 4 (drop 34 bytes) @ take ?len (drop 38 bytes)"
    using len(2) unfolding frame_body_def field by (simp add: r le_bytes_read)
  also have "\<dots> = take (8 + (8 + (8 + (8 + (2 + (4 + ?len)))))) bytes"
    unfolding take_add drop_drop by simp
  finally have body: "frame_body r = take (38 + ?len) bytes" by (simp add: add.assoc)
  have "le_bytes 4 (ucast (crc32c (frame_body r))) = drop (38 + ?len) bytes"
    unfolding body crc le_bytes_crc [symmetric] using len(2) by (simp add: le_bytes_read)
  then show ?thesis using len body by (simp add: encode_eq r(7))
qed

section \<open>The checksum detects a damaged byte\<close>

text \<open>The step is injective: its highest bit is the lowest bit of its argument.\<close>

lemma crc_bit_bits:
  "bit (crc_bit v) k \<longleftrightarrow> (bit v (k + 1) \<noteq> (bit v 0 \<and> k < 32 \<and> bit (0x82F63B78 :: u32) k))"
proof -
  have "- (v AND 1) = (if bit v 0 then (- 1 :: u32) else 0)"
    by (simp add: and_one_eq mod2_eq_if bit_0)
  then show ?thesis by (auto simp: crc_bit_def bit_simps add.commute)
qed

lemma crc_bit_inj:
  assumes "crc_bit a = crc_bit b"
  shows "a = b"
proof -
  have b0: "bit a 0 = bit b 0"
    using arg_cong [OF assms, of "\<lambda>w. bit w 31"] bit_imp_le_length [of a 32] bit_imp_le_length [of b 32]
    by (auto simp: crc_bit_bits)
  have "bit a k = bit b k" for k
  proof (cases k)
    case 0
    with b0 show ?thesis by simp
  next
    case (Suc n)
    with arg_cong [OF assms, of "\<lambda>w. bit w n"] b0 show ?thesis by (auto simp: crc_bit_bits)
  qed
  then show ?thesis by (simp add: bit_eq_iff)
qed

lemma crc_bits_inj: "(crc_bit ^^ n) a = (crc_bit ^^ n) b \<Longrightarrow> a = b"
  by (induction n) (auto dest: crc_bit_inj)

lemma xor_cancel: "(a :: u32) XOR c = b XOR c \<longleftrightarrow> a = b"
  by (auto simp: bit_eq_iff bit_simps)

lemma crc_byte_inj: "crc_byte a x = crc_byte b x \<Longrightarrow> a = b"
  unfolding crc_byte_def by (drule crc_bits_inj) (simp only: xor_cancel)

lemma crc_byte_inj_byte: "crc_byte a x = crc_byte a y \<Longrightarrow> x = y"
proof -
  assume "crc_byte a x = crc_byte a y"
  then have "a XOR ucast x = a XOR ucast y" unfolding crc_byte_def by (rule crc_bits_inj)
  then have "(ucast x :: u32) = ucast y" by (simp only: xor.commute [of a] xor_cancel)
  then show ?thesis by (auto simp: bit_eq_iff bit_simps) 
qed

lemma crc_fold_inj: "foldl crc_byte a bs = foldl crc_byte b bs \<Longrightarrow> a = b"
  by (induction bs arbitrary: a b) (auto dest: crc_byte_inj)

lemma crc32c_detects:
  assumes "i < length bs" "x \<noteq> bs ! i"
  shows "crc32c (bs[i := x]) \<noteq> crc32c bs"
proof
  let ?pre = "take i bs" and ?post = "drop (Suc i) bs"
  have eq: "bs = ?pre @ bs ! i # ?post" "bs[i := x] = ?pre @ x # ?post"
    using assms(1) by (simp_all add: id_take_nth_drop upd_conv_take_nth_drop)
  assume "crc32c (bs[i := x]) = crc32c bs"
  then have "foldl crc_byte (NOT 0) (?pre @ x # ?post) = foldl crc_byte (NOT 0) (?pre @ bs ! i # ?post)"
    unfolding crc32c_def eq(2) eq(1) [symmetric] by simp
  then have "crc_byte (foldl crc_byte (NOT 0) ?pre) x = crc_byte (foldl crc_byte (NOT 0) ?pre) (bs ! i)"
    by (auto dest: crc_fold_inj)
  then show False using assms(2) by (auto dest: crc_byte_inj_byte)
qed

section \<open>Properties\<close>

text \<open>
  C27. Decoding is exactly the inverse of encoding: a byte string decodes to a record if and only if it
  is the encoding of that record and the payload is within the limit. So every record within the
  limit is read back as it was written, no two byte strings decode to the same record, and nothing else is
  accepted.
\<close>

theorem raw_frame_codec_exact:
  "decode_raw_frame bytes = Some r \<longleftrightarrow>
     length (rf_payload r) \<le> raw_frame_max_payload \<and> bytes = encode_raw_frame r"
  using decode_encode encode_decode by blast

text \<open>
  C28. A record in which one byte has been changed, wherever it is and whatever its new value, is not
  accepted.
\<close>

theorem raw_frame_damage_detected:
  assumes "i < length (encode_raw_frame r)" "x \<noteq> encode_raw_frame r ! i"
  shows "decode_raw_frame ((encode_raw_frame r)[i := x]) = None"
proof (rule ccontr)
  assume "decode_raw_frame ((encode_raw_frame r)[i := x]) \<noteq> None"
  then obtain r' where "decode_raw_frame ((encode_raw_frame r)[i := x]) = Some r'" by blast
  then have enc: "(encode_raw_frame r)[i := x] = encode_raw_frame r'" using encode_decode by blast
  have len: "length (frame_body r') = length (frame_body r)" using arg_cong [OF enc, of length] by (simp add: length_encode)
  show False
  proof (cases "i < length (frame_body r)")
    case True
    then have b: "(frame_body r)[i := x] = frame_body r'"
      and c: "le_bytes 4 (ucast (crc32c (frame_body r))) = le_bytes 4 (ucast (crc32c (frame_body r')))"
      using enc len by (simp_all add: encode_eq list_update_append1)
    have "crc32c (frame_body r') = crc32c (frame_body r)"
      using arg_cong [OF c, of "\<lambda>xs. ucast (read_le 4 xs 0) :: u32"]
      by (simp add: read_le_eq [of 4 0 "le_bytes 4 v" v for v])
    with crc32c_detects [OF True, of x] assms(2) True b show False by (simp add: encode_eq nth_append)
  next
    case False
    then have "frame_body r' = frame_body r" using enc len by (simp add: encode_eq list_update_append)
    with enc have "(encode_raw_frame r)[i := x] = encode_raw_frame r" by (simp add: encode_eq)
    then show False using assms by (metis nth_list_update_eq)
  qed
qed

definition sample_frame :: raw_frame_record where
  "sample_frame = \<lparr>rf_capture_index = 3, rf_monotonic_ns = 1000, rf_connection_id = 1, rf_utc_ns = 5,
     rf_direction = Inbound, rf_kind = Text, rf_payload = [123, 125]\<rparr>"

theorem raw_frame_damage_detected_witness:
  "encode_raw_frame sample_frame ! 38 = 123 \<and> decode_raw_frame ((encode_raw_frame sample_frame)[38 := 124]) = None"
proof -
  have "encode_raw_frame sample_frame ! 38 = 123" by (simp add: encode_eq frame_body_def sample_frame_def nth_append)
  moreover have "38 < length (encode_raw_frame sample_frame)" by (simp add: length_encode sample_frame_def)
  ultimately show ?thesis using raw_frame_damage_detected [of 38 sample_frame 124] by simp
qed

end
