(* ===== verification/Raw_Frame_Capture.thy ===== *)
theory Raw_Frame_Capture
  imports Raw_Frame_Record
begin

text \<open>
  The capture file (\<open>cpp/include/llab/raw_frame_capture.hpp\<close>): a magic number, the topic, the records and a
  trailer. The writer fills a \<open>.partial\<close> file and renames it when it is complete; the reader accepts only
  complete files. Files are byte lists by path; directories are left out. A write to a stream may
  fail and leave any bytes behind; what the stream buffers counts as written, since it is flushed
  before the file gets its final name. The rename is taken to succeed: the partial file is the writer's own, in the directory of
  the final path.
\<close>

section \<open>Data\<close>

type_synonym path = string
type_synonym files = "path \<rightharpoonup> u8 list"

definition raw_capture_magic :: "u8 list" where
  "raw_capture_magic = [76, 76, 70, 82, 0, 0, 0, 2]"

definition raw_capture_complete_magic :: "u8 list" where
  "raw_capture_complete_magic = [76, 76, 70, 82, 69, 78, 68, 2]"

definition raw_capture_max_metadata :: nat where
  "raw_capture_max_metadata = 4096"

record capture_writer =
  cw_files :: files
  cw_final_path :: path
  cw_partial_path :: path
  cw_good :: bool
  cw_closed :: bool

text \<open>What a write does to its stream: store all bytes, or fail and leave these bytes in the file.\<close>

datatype io = Stored | Failed "u8 list"

definition write_file :: "capture_writer \<Rightarrow> u8 list \<Rightarrow> io \<Rightarrow> capture_writer" where
  "write_file w bytes io =
     (if \<not> cw_good w then w
      else case io of
        Stored \<Rightarrow> w\<lparr>cw_files := (cw_files w)(cw_partial_path w \<mapsto>
                    (case cw_files w (cw_partial_path w) of None \<Rightarrow> [] | Some old \<Rightarrow> old) @ bytes)\<rparr>
      | Failed left \<Rightarrow> w\<lparr>cw_files := (cw_files w)(cw_partial_path w \<mapsto> left), cw_good := False\<rparr>)"

section \<open>The writer\<close>

text \<open>
  The constructor. \<open>stamp\<close> is the clock value in the name of the partial file, \<open>opened\<close> tells whether the file
  could be opened, \<open>io\<close> how the header was written.
\<close>

definition cw_open :: "files \<Rightarrow> path \<Rightarrow> string \<Rightarrow> u8 list \<Rightarrow> bool \<Rightarrow> io \<Rightarrow> capture_writer outcome" where
  "cw_open fs path stamp topic opened io =
     (let w = \<lparr>cw_files = fs, cw_final_path = path, cw_partial_path = path @ ''.partial.'' @ stamp,
               cw_good = False, cw_closed = False\<rparr>
      in if topic = [] \<or> length topic > raw_capture_max_metadata
         then Threw (Invalid_argument ''invalid raw-capture topic metadata'') w
         else if fs path \<noteq> None then Threw (Runtime_error (''refusing to overwrite completed raw-frame capture: '' @ cw_final_path w)) w
         else if \<not> opened then Threw (Runtime_error (''cannot open raw-frame capture for writing: '' @ cw_partial_path w)) w
         else let w = w\<lparr>cw_files := fs(cw_partial_path w \<mapsto> []), cw_good := True\<rparr>;
                  w = write_file w (raw_capture_magic @ append_le 4 [] (ucast (of_nat (length topic) :: u32)) @ topic) io
              in if \<not> cw_good w then Threw (Runtime_error ''cannot write raw-frame capture header'') w else Done w)"

definition cw_append :: "capture_writer \<Rightarrow> raw_frame_record \<Rightarrow> io \<Rightarrow> capture_writer outcome" where
  "cw_append w r io =
     (if cw_closed w then Threw (Logic_error ''cannot append a closed raw-frame capture'') w
      else let w = write_file w (encode_raw_frame_into r) io
           in if \<not> cw_good w then Threw (Runtime_error ''cannot append raw-frame capture'') w else Done w)"

text \<open>After \<open>file_.close()\<close> the stream takes no more writes, whether or not the rename follows.\<close>

definition cw_close :: "capture_writer \<Rightarrow> io \<Rightarrow> capture_writer outcome" where
  "cw_close w io =
     (if cw_closed w then Done w
      else let w = write_file w raw_capture_complete_magic io
           in if \<not> cw_good w then Threw (Runtime_error ''cannot finalize raw-frame capture'') w
              else let w = w\<lparr>cw_good := False\<rparr>
                   in if cw_files w (cw_final_path w) \<noteq> None
                      then Threw (Runtime_error (''raw-frame capture appeared while recording: '' @ cw_final_path w)) w
                      else Done (w\<lparr>cw_files := (cw_files w)(cw_final_path w := cw_files w (cw_partial_path w),
                                                            cw_partial_path w := None),
                                   cw_closed := True\<rparr>))"

section \<open>The reader\<close>

record capture_reader =
  cr_file :: "u8 list"
  cr_pos :: nat
  cr_good :: bool
  cr_topic :: "u8 list"
  cr_data_end :: nat
  cr_next_capture_index :: u64

definition cr_open :: "files \<Rightarrow> path \<Rightarrow> capture_reader result" where
  "cr_open fs path =
     (case fs path of
        None \<Rightarrow> Raise (Runtime_error (''cannot open raw-frame capture: '' @ path))
      | Some file \<Rightarrow>
          if length file < 8 \<or> take 8 file \<noteq> raw_capture_magic
          then Raise (Runtime_error (''not an LLFR v2 completed raw-frame capture: '' @ path))
          else if length file < 12 then Raise (Runtime_error ''truncated capture metadata'')
          else let metadata_size = unat (read_le 4 (take 4 (drop 8 file)) 0)
               in if metadata_size = 0 \<or> metadata_size > raw_capture_max_metadata
                  then Raise (Runtime_error ''invalid capture metadata length'')
                  else if length file < 12 + metadata_size then Raise (Runtime_error ''truncated capture metadata'')
                  else if length file < 8 then Raise (Runtime_error ''incomplete raw-frame capture'')
                  else let data_end = length file - 8
                       in if drop data_end file \<noteq> raw_capture_complete_magic
                          then Raise (Runtime_error ''incomplete raw-frame capture'')
                          else Value \<lparr>cr_file = file, cr_pos = 12 + metadata_size, cr_good = True,
                                      cr_topic = take metadata_size (drop 12 file), cr_data_end = data_end,
                                      cr_next_capture_index = 0\<rparr>)"

text \<open>
  \<open>tellg()\<close> is -1 on a stream that has failed: it is neither the end of the data nor beyond it. A read
  that is cut short by the end of the file fails the stream.
\<close>

definition cr_next :: "capture_reader \<Rightarrow> capture_reader \<times> raw_frame_record option result" where
  "cr_next r =
     (if cr_good r \<and> cr_pos r = cr_data_end r then (r, Value None)
      else if cr_good r \<and> cr_pos r > cr_data_end r
      then (r, Raise (Runtime_error ''capture record overruns completion marker''))
      else if \<not> cr_good r \<or> length (cr_file r) - cr_pos r < raw_frame_header_size
      then (r\<lparr>cr_good := False\<rparr>, Raise (Runtime_error ''truncated raw-frame capture header''))
      else let header = take raw_frame_header_size (drop (cr_pos r) (cr_file r));
               payload_size = unat (read_le 4 header 34);
               pos = cr_pos r + raw_frame_header_size
           in if payload_size > raw_frame_max_payload
              then (r\<lparr>cr_pos := pos\<rparr>, Raise (Runtime_error ''raw-frame payload exceeds limit''))
              else if length (cr_file r) - pos < payload_size + 4
              then (r\<lparr>cr_pos := pos, cr_good := False\<rparr>, Raise (Runtime_error ''truncated raw-frame capture payload''))
              else let encoded = header @ take (payload_size + 4) (drop pos (cr_file r));
                       r = r\<lparr>cr_pos := pos + payload_size + 4\<rparr>
                   in if cr_pos r > cr_data_end r
                      then (r, Raise (Runtime_error ''capture record overruns completion marker''))
                      else case decode_raw_frame encoded of
                        None \<Rightarrow> (r, Raise (Runtime_error ''corrupt raw-frame capture record''))
                      | Some decoded \<Rightarrow>
                          let expected = cr_next_capture_index r;
                              r = r\<lparr>cr_next_capture_index := expected + 1\<rparr>
                          in if rf_capture_index decoded \<noteq> expected
                             then (r, Raise (Runtime_error ''non-contiguous raw-frame capture index''))
                             else (r, Value (Some decoded)))"

text \<open>The loop of the readers, \<open>while (const auto record = reader.next())\<close>, with a bound on its rounds.\<close>

fun drain :: "nat \<Rightarrow> capture_reader \<Rightarrow> raw_frame_record list result" where
  "drain 0 r = Loops"
| "drain (Suc n) r =
     (case cr_next r of
        (r', Value None) \<Rightarrow> Value []
      | (r', Value (Some x)) \<Rightarrow> map_value (\<lambda>xs. x # xs) (drain n r')
      | (r', Raise e) \<Rightarrow> Raise e
      | (r', Loops) \<Rightarrow> Loops)"

section \<open>The bytes of a complete capture\<close>

definition capture_header :: "u8 list \<Rightarrow> u8 list" where
  "capture_header topic = raw_capture_magic @ le_bytes 4 (ucast (of_nat (length topic) :: u32)) @ topic"

definition capture_records :: "raw_frame_record list \<Rightarrow> u8 list" where
  "capture_records rs = concat (map encode_raw_frame rs)"

definition capture_bytes :: "u8 list \<Rightarrow> raw_frame_record list \<Rightarrow> u8 list" where
  "capture_bytes topic rs = capture_header topic @ capture_records rs @ raw_capture_complete_magic"

definition numbered_from :: "u64 \<Rightarrow> raw_frame_record list \<Rightarrow> bool" where
  "numbered_from k rs \<longleftrightarrow> (\<forall>i < length rs. rf_capture_index (rs ! i) = k + of_nat i)"

definition recordable :: "raw_frame_record list \<Rightarrow> bool" where
  "recordable rs \<longleftrightarrow> numbered_from 0 rs \<and> list_all (\<lambda>r. length (rf_payload r) \<le> raw_frame_max_payload) rs"

definition valid_topic :: "u8 list \<Rightarrow> bool" where
  "valid_topic topic \<longleftrightarrow> topic \<noteq> [] \<and> length topic \<le> raw_capture_max_metadata"

lemma numbered_from_Cons: "numbered_from k (r # rs) \<longleftrightarrow> rf_capture_index r = k \<and> numbered_from (k + 1) rs"
  unfolding numbered_from_def by (auto simp: nth_Cons less_Suc_eq_0_disj add.assoc split: nat.splits)

lemma capture_records_simps [simp]:
  "capture_records [] = []" "capture_records (r # rs) = encode_raw_frame r @ capture_records rs"
  by (simp_all add: capture_records_def)

lemma read_le_take: "n \<le> 8 \<Longrightarrow> offset + n \<le> k \<Longrightarrow> read_le n (take k bytes) offset = read_le n bytes offset"
  using less_mult_imp_div_less [of _ n 8] by (auto simp: bit_eq_iff bit_read_le)

lemma read_le_append: "n \<le> 8 \<Longrightarrow> offset + n \<le> length a \<Longrightarrow> read_le n (a @ b) offset = read_le n a offset"
  using read_le_take [of n offset "length a" "a @ b"] by simp

lemma encode_length_field:
  "length (rf_payload r) \<le> raw_frame_max_payload \<Longrightarrow> unat (read_le 4 (encode_raw_frame r) 34) = length (rf_payload r)"
  using read_le_eq [of 4 34 "encode_raw_frame r" "ucast (of_nat (length (rf_payload r)) :: u32)"] length_field
  by (simp add: length_encode) (simp add: encode_eq frame_body_def)

section \<open>Reading one record\<close>

text \<open>What is left to read, and when a reader is positioned in its data.\<close>

definition cr_data :: "capture_reader \<Rightarrow> u8 list" where
  "cr_data r = drop (cr_pos r) (take (cr_data_end r) (cr_file r))"

definition cr_ok :: "capture_reader \<Rightarrow> bool" where
  "cr_ok r \<longleftrightarrow> cr_good r \<and> cr_pos r \<le> cr_data_end r \<and> cr_data_end r + 8 = length (cr_file r)"

lemma cr_next_None: "cr_next r = (r', Value None) \<Longrightarrow> cr_good r \<and> cr_pos r = cr_data_end r"
  by (auto simp: cr_next_def Let_def split: if_splits option.splits)

lemma drop_take_split: "a + k \<le> e \<Longrightarrow> drop a (take e xs) = take k (drop a xs) @ drop (a + k) (take e xs)"
proof -
  assume "a + k \<le> e"
  then have "take k (drop a (take e xs)) = take k (drop a xs)" by (simp add: drop_take min_def)
  then show ?thesis using append_take_drop_id [of k "drop a (take e xs)"] by (simp add: add.commute)
qed

lemma cr_next_Some:
  assumes ok: "cr_ok r" and nxt: "cr_next r = (r', Value (Some x))"
  shows "cr_ok r' \<and> cr_data r = encode_raw_frame x @ cr_data r' \<and> length (rf_payload x) \<le> raw_frame_max_payload \<and>
    rf_capture_index x = cr_next_capture_index r \<and> cr_next_capture_index r' = cr_next_capture_index r + 1 \<and> cr_file r' = cr_file r \<and>
    cr_data_end r' = cr_data_end r"
proof -
  let ?bs = "drop (cr_pos r) (cr_file r)"
  let ?n = "unat (read_le 4 (take 38 ?bs) 34)"
  have h: "38 + (?n + 4) \<le> length ?bs" "cr_pos r + 38 + ?n + 4 \<le> cr_data_end r"
    "decode_raw_frame (take 38 ?bs @ take (?n + 4) (drop (cr_pos r + 38) (cr_file r))) = Some x"
    "rf_capture_index x = cr_next_capture_index r"
    "r' = r\<lparr>cr_pos := cr_pos r + 38 + ?n + 4, cr_next_capture_index := cr_next_capture_index r + 1\<rparr>"
    using nxt by (auto simp: cr_next_def raw_frame_header_size_def Let_def split: if_splits option.splits)
  have "take 38 ?bs @ take (?n + 4) (drop (cr_pos r + 38) (cr_file r)) = take (38 + (?n + 4)) ?bs"
    unfolding take_add drop_drop by (simp add: add.commute)
  with h(3) encode_decode have x: "length (rf_payload x) \<le> raw_frame_max_payload" "take (38 + (?n + 4)) ?bs = encode_raw_frame x"
    by metis+
  have "cr_data r = take (38 + (?n + 4)) ?bs @ drop (cr_pos r + 38 + ?n + 4) (take (cr_data_end r) (cr_file r))"
    unfolding cr_data_def using drop_take_split [of "cr_pos r" "38 + (?n + 4)" "cr_data_end r" "cr_file r"] h(2)
    by (simp add: add.assoc)
  with x h ok show ?thesis by (simp add: cr_data_def cr_ok_def)
qed

lemma cr_next_encoded:
  assumes ok: "cr_ok r" and data: "cr_data r = encode_raw_frame x @ rest"
    and x: "length (rf_payload x) \<le> raw_frame_max_payload" "rf_capture_index x = cr_next_capture_index r"
  shows "\<exists>r'. cr_next r = (r', Value (Some x)) \<and> cr_ok r' \<and> cr_data r' = rest \<and>
    cr_next_capture_index r' = cr_next_capture_index r + 1"
proof -
  let ?bs = "drop (cr_pos r) (cr_file r)" and ?n = "length (rf_payload x)"
  have len: "cr_data_end r = cr_pos r + 42 + ?n + length rest" "cr_data_end r + 8 = length (cr_file r)"
    using arg_cong [OF data, of length] ok by (auto simp: cr_data_def cr_ok_def length_encode)
  have bs: "?bs = encode_raw_frame x @ rest @ drop (cr_data_end r) (cr_file r)"
    using data len unfolding cr_data_def
    by (metis append.assoc append_take_drop_id drop_append length_take min.absorb2 le_add1 diff_is_0_eq drop_0 le_add2 add.assoc trans_le_add1)
  have size: "unat (read_le 4 (take 38 ?bs) 34) = ?n"
    using encode_length_field [OF x(1)] by (simp add: read_le_take bs read_le_append length_encode)
  have enc: "take 38 ?bs @ take (?n + 4) (drop (cr_pos r + 38) (cr_file r)) = encode_raw_frame x"
  proof -
    have "take 38 ?bs @ take (?n + 4) (drop (cr_pos r + 38) (cr_file r)) = take (38 + (?n + 4)) ?bs"
      unfolding take_add drop_drop by (simp add: add.commute)
    also have "\<dots> = encode_raw_frame x" by (simp add: bs length_encode)
    finally show ?thesis .
  qed
  let ?r = "r\<lparr>cr_pos := cr_pos r + 38 + ?n + 4, cr_next_capture_index := cr_next_capture_index r + 1\<rparr>"
  have "\<not> length (cr_file r) - (cr_pos r + 38) < ?n + 4" "\<not> length (cr_file r) - cr_pos r < 38"
    using len by arith+
  then have "cr_next r = (?r, Value (Some x))"
    using ok len size enc x decode_encode [OF x(1)]
    by (simp add: cr_next_def raw_frame_header_size_def Let_def cr_ok_def)
  moreover have "cr_data ?r = rest"
  proof -
    have "cr_data r = take (42 + ?n) ?bs @ drop (cr_pos r + (42 + ?n)) (take (cr_data_end r) (cr_file r))"
      unfolding cr_data_def using len(1) by (intro drop_take_split) simp
    moreover have "take (42 + ?n) ?bs = encode_raw_frame x" by (simp add: bs length_encode)
    ultimately have "encode_raw_frame x @ rest = encode_raw_frame x @ drop (cr_pos r + (42 + ?n)) (take (cr_data_end r) (cr_file r))"
      using data by (simp only:)
    then show ?thesis by (simp add: cr_data_def add.assoc)
  qed
  ultimately show ?thesis using ok len by (simp add: cr_ok_def)
qed

section \<open>Reading a file\<close>

lemma drain_encoded:
  "cr_ok r \<Longrightarrow> cr_data r = capture_records rs \<Longrightarrow> numbered_from (cr_next_capture_index r) rs \<Longrightarrow>
     list_all (\<lambda>x. length (rf_payload x) \<le> raw_frame_max_payload) rs \<Longrightarrow> drain (Suc (length rs)) r = Value rs"
proof (induction rs arbitrary: r)
  case Nil
  then have "cr_pos r = cr_data_end r" by (auto simp: cr_ok_def cr_data_def)
  then show ?case using Nil.prems(1) by (simp add: cr_next_def cr_ok_def)
next
  case (Cons x rs)
  obtain r' where "cr_next r = (r', Value (Some x))" "cr_ok r'" "cr_data r' = capture_records rs"
    "cr_next_capture_index r' = cr_next_capture_index r + 1"
    using cr_next_encoded [OF Cons.prems(1), of x "capture_records rs"] Cons.prems(2-4) by (auto simp: numbered_from_Cons)
  with Cons show ?case by (simp add: numbered_from_Cons)
qed

lemma drain_Value:
  "drain n r = Value rs \<Longrightarrow> cr_ok r \<Longrightarrow> cr_data r = capture_records rs \<and> numbered_from (cr_next_capture_index r) rs \<and>
     list_all (\<lambda>x. length (rf_payload x) \<le> raw_frame_max_payload) rs"
proof (induction n arbitrary: r rs)
  case (Suc n)
  obtain r' v where nxt: "cr_next r = (r', v)" by fastforce
  show ?case
  proof (cases v)
    case (Value o')
    show ?thesis
    proof (cases o')
      case None
      with Suc.prems nxt Value have "rs = []" "cr_pos r = cr_data_end r" using cr_next_None by auto
      then show ?thesis by (simp add: cr_data_def numbered_from_def)
    next
      case (Some x)
      with Suc.prems(1) nxt Value obtain xs where xs: "drain n r' = Value xs" "rs = x # xs"
        by (cases "drain n r'") auto
      note s = cr_next_Some [OF Suc.prems(2) nxt [unfolded Value Some]]
      from Suc.IH [OF xs(1)] s xs(2) show ?thesis by (simp add: numbered_from_Cons)
    qed
  qed (use Suc.prems nxt in auto)
qed simp

lemma le_bytes_field: "valid_topic topic \<Longrightarrow>
    unat (read_le 4 (take 4 (drop 8 (capture_header topic @ rest))) 0) = length topic"
proof -
  assume "valid_topic topic"
  then have "length topic \<le> raw_frame_max_payload"
    by (simp add: valid_topic_def raw_capture_max_metadata_def raw_frame_max_payload_def)
  moreover have "take 4 (drop 8 (capture_header topic @ rest)) = le_bytes 4 (ucast (of_nat (length topic) :: u32))"
    by (simp add: capture_header_def raw_capture_magic_def)
  ultimately show ?thesis using length_field [of "length topic"] read_le_eq [of 4 0 "le_bytes 4 v" v for v] by simp
qed

lemma length_capture_header [simp]: "length (capture_header topic) = 12 + length topic"
  by (simp add: capture_header_def raw_capture_magic_def)

lemma cr_open_complete:
  assumes "valid_topic topic" "fs path = Some (capture_header topic @ body @ raw_capture_complete_magic)"
  shows "\<exists>r. cr_open fs path = Value r \<and> cr_ok r \<and> cr_data r = body \<and> cr_topic r = topic \<and> cr_next_capture_index r = 0"
proof -
  let ?file = "capture_header topic @ body @ raw_capture_complete_magic"
  have "take 8 ?file = raw_capture_magic" "take (length topic) (drop 12 ?file) = topic"
    by (simp_all add: capture_header_def raw_capture_magic_def)
  moreover have "length ?file = 12 + length topic + length body + 8" by (simp add: raw_capture_complete_magic_def)
  moreover have "drop (12 + length topic + length body) ?file = raw_capture_complete_magic" by simp
  ultimately show ?thesis
    using assms le_bytes_field [OF assms(1), of "body @ raw_capture_complete_magic"]
    by (simp add: cr_open_def Let_def valid_topic_def cr_ok_def cr_data_def)
qed

lemma cr_open_Value:
  assumes "cr_open fs path = Value r"
  shows "fs path = Some (cr_file r) \<and> valid_topic (cr_topic r) \<and> cr_good r \<and> cr_next_capture_index r = 0 \<and>
    cr_data_end r + 8 = length (cr_file r) \<and> drop (cr_data_end r) (cr_file r) = raw_capture_complete_magic \<and>
    take (cr_pos r) (cr_file r) = capture_header (cr_topic r)"
proof -
  obtain bs where bs: "fs path = Some bs" using assms by (auto simp: cr_open_def split: option.splits)
  let ?m = "unat (read_le 4 (take 4 (drop 8 bs)) 0)"
  have c: "take 8 bs = raw_capture_magic" "?m \<noteq> 0" "?m \<le> raw_capture_max_metadata" "12 + ?m \<le> length bs"
    "drop (length bs - 8) bs = raw_capture_complete_magic"
    and r: "r = \<lparr>cr_file = bs, cr_pos = 12 + ?m, cr_good = True, cr_topic = take ?m (drop 12 bs),
      cr_data_end = length bs - 8, cr_next_capture_index = 0\<rparr>"
    using assms by (auto simp: cr_open_def bs Let_def split: if_splits)
  have topic: "length (cr_topic r) = ?m" using c(4) by (simp add: r)
  have "?m \<le> raw_frame_max_payload" using c(3) by (simp add: raw_capture_max_metadata_def raw_frame_max_payload_def)
  from length_field [OF this] have "(ucast (of_nat ?m :: u32) :: u64) = read_le 4 (take 4 (drop 8 bs)) 0"
    unfolding word_unat_eq_iff .
  then have "le_bytes 4 (ucast (of_nat ?m :: u32)) = take 4 (drop 8 bs)"
    using le_bytes_read [of 4 0 "take 4 (drop 8 bs)"] c(4) by simp
  then have "capture_header (cr_topic r) = take 8 bs @ take 4 (drop 8 bs) @ take ?m (drop 12 bs)"
    by (simp only: capture_header_def topic c(1)) (simp add: r)
  also have "\<dots> = take (8 + (4 + ?m)) bs" unfolding take_add drop_drop by simp
  finally have "take (cr_pos r) (cr_file r) = capture_header (cr_topic r)" by (simp add: r)
  then show ?thesis using c topic bs by (auto simp: r valid_topic_def)
qed

lemma cr_ok_file:
  assumes "cr_open fs path = Value r" "cr_pos r \<le> cr_data_end r"
  shows "cr_ok r \<and> cr_file r = capture_header (cr_topic r) @ cr_data r @ raw_capture_complete_magic"
proof -
  note o = cr_open_Value [OF assms(1)]
  have "cr_file r = take (cr_data_end r) (cr_file r) @ drop (cr_data_end r) (cr_file r)" by simp
  also have "take (cr_data_end r) (cr_file r) = take (cr_pos r) (cr_file r) @ cr_data r"
    unfolding cr_data_def using drop_take_split [of 0 "cr_pos r" "cr_data_end r" "cr_file r"] assms(2) by simp
  finally show ?thesis using o assms(2) by (simp add: cr_ok_def)
qed

section \<open>Writing a file\<close>

text \<open>
  The writers that an open writer on \<open>path\<close> can become, with the records it has appended: any
  calls in any order, each write stored or failed.
\<close>

inductive cw_reachable :: "files \<Rightarrow> path \<Rightarrow> u8 list \<Rightarrow> capture_writer \<Rightarrow> raw_frame_record list \<Rightarrow> bool" for fs path topic where
  opened: "cw_open fs path stamp topic opened io = Done w \<Longrightarrow> cw_reachable fs path topic w []"
| append_done: "cw_reachable fs path topic w rs \<Longrightarrow> cw_append w r io = Done w' \<Longrightarrow> cw_reachable fs path topic w' (rs @ [r])"
| append_threw: "cw_reachable fs path topic w rs \<Longrightarrow> cw_append w r io = Threw x w' \<Longrightarrow> cw_reachable fs path topic w' rs"
| close_done: "cw_reachable fs path topic w rs \<Longrightarrow> cw_close w io = Done w' \<Longrightarrow> cw_reachable fs path topic w' rs"
| close_threw: "cw_reachable fs path topic w rs \<Longrightarrow> cw_close w io = Threw x w' \<Longrightarrow> cw_reachable fs path topic w' rs"

definition cw_inv :: "files \<Rightarrow> path \<Rightarrow> u8 list \<Rightarrow> capture_writer \<Rightarrow> raw_frame_record list \<Rightarrow> bool" where
  "cw_inv fs path topic w rs \<longleftrightarrow>
     fs path = None \<and> valid_topic topic \<and> cw_final_path w = path \<and> cw_partial_path w \<noteq> path \<and>
     (\<forall>p. p \<noteq> path \<and> p \<noteq> cw_partial_path w \<longrightarrow> cw_files w p = fs p) \<and>
     (if cw_closed w then cw_files w path = Some (capture_bytes topic rs) \<and> cw_files w (cw_partial_path w) = None
      else cw_files w path = None \<and>
        (cw_good w \<longrightarrow> cw_files w (cw_partial_path w) = Some (capture_header topic @ capture_records rs)))"

lemma cw_inv_opened: "cw_open fs path stamp topic opened io = Done w \<Longrightarrow> cw_inv fs path topic w []"
  by (auto simp: cw_open_def cw_inv_def write_file_def valid_topic_def capture_header_def append_le_eq Let_def
      split: if_splits io.splits)

lemma cw_inv_write:
  assumes "cw_inv fs path topic w rs" "\<not> cw_closed w"
  shows "cw_files (write_file w bytes io) path = None"
    "p \<noteq> path \<Longrightarrow> p \<noteq> cw_partial_path w \<Longrightarrow> cw_files (write_file w bytes io) p = fs p"
    "cw_good (write_file w bytes io) \<Longrightarrow>
       cw_files (write_file w bytes io) (cw_partial_path w) = Some (capture_header topic @ capture_records rs @ bytes)"
  using assms by (auto simp: cw_inv_def write_file_def split: io.splits if_splits)

lemma write_file_simps [simp]:
  "cw_closed (write_file w bytes io) = cw_closed w" "cw_final_path (write_file w bytes io) = cw_final_path w"
  "cw_partial_path (write_file w bytes io) = cw_partial_path w"
  by (auto simp: write_file_def split: io.splits)

lemma capture_records_snoc: "capture_records (rs @ [r]) = capture_records rs @ encode_raw_frame r"
  by (simp add: capture_records_def)

lemma cw_inv_append:
  assumes inv: "cw_inv fs path topic w rs"
  shows "cw_append w r io = Done w' \<Longrightarrow> cw_inv fs path topic w' (rs @ [r])"
    "cw_append w r io = Threw x w' \<Longrightarrow> cw_inv fs path topic w' rs"
  using inv cw_inv_write [OF inv]
  by (auto simp: cw_append_def cw_inv_def Let_def capture_records_snoc encode_raw_frame_def split: if_splits)

lemma cw_inv_close:
  assumes inv: "cw_inv fs path topic w rs"
  shows "cw_close w io = Done w' \<Longrightarrow> cw_inv fs path topic w' rs"
    "cw_close w io = Threw x w' \<Longrightarrow> cw_inv fs path topic w' rs"
  using inv cw_inv_write [OF inv]
  by (auto simp: cw_close_def cw_inv_def Let_def capture_bytes_def split: if_splits)

lemma cw_inv_reachable: "cw_reachable fs path topic w rs \<Longrightarrow> cw_inv fs path topic w rs"
  by (induction rule: cw_reachable.induct) (auto intro: cw_inv_opened cw_inv_append cw_inv_close)

section \<open>Properties\<close>

text \<open>
  C25. The reader accepts exactly the complete captures: opening a file and reading it to its end
  yields a topic and a list of records if and only if the topic is valid, the records are numbered from 0 on with
  payloads within the limit, and the file is the byte string of that capture. Truncated, damaged,
  unfinished and misnumbered files all raise an exception.
\<close>

theorem capture_reader_exact:
  "(\<exists>r n. cr_open fs path = Value r \<and> cr_topic r = topic \<and> drain n r = Value rs) \<longleftrightarrow>
     valid_topic topic \<and> recordable rs \<and> fs path = Some (capture_bytes topic rs)"
proof
  assume "\<exists>r n. cr_open fs path = Value r \<and> cr_topic r = topic \<and> drain n r = Value rs"
  then obtain r n where r: "cr_open fs path = Value r" "cr_topic r = topic" "drain n r = Value rs" by blast
  note o = cr_open_Value [OF r(1)]
  have "cr_pos r \<le> cr_data_end r"
    using r(3) o by (cases n) (auto simp: cr_next_def not_less [symmetric])
  note f = cr_ok_file [OF r(1) this]
  with drain_Value [OF r(3)] o r(2) show "valid_topic topic \<and> recordable rs \<and> fs path = Some (capture_bytes topic rs)"
    by (simp add: recordable_def capture_bytes_def)
next
  assume c: "valid_topic topic \<and> recordable rs \<and> fs path = Some (capture_bytes topic rs)"
  then obtain r where "cr_open fs path = Value r" "cr_ok r" "cr_data r = capture_records rs" "cr_topic r = topic"
    "cr_next_capture_index r = 0"
    using cr_open_complete [of topic fs path "capture_records rs"] by (auto simp: capture_bytes_def)
  moreover from this have "drain (Suc (length rs)) r = Value rs" using c by (intro drain_encoded) (auto simp: recordable_def)
  ultimately show "\<exists>r n. cr_open fs path = Value r \<and> cr_topic r = topic \<and> drain n r = Value rs" by blast
qed

text \<open>
  C26. A capture is published atomically: whatever calls are made on a writer and whichever of its
  writes fail, the final path has no file until \<open>close\<close> succeeds, and from then on it has the complete
  capture of exactly the records appended, with the partial file gone; no other file changes.
\<close>

theorem capture_published_complete:
  assumes "cw_reachable fs path topic w rs"
  shows "(if cw_closed w
      then cw_files w path = Some (capture_bytes topic rs) \<and> cw_files w (cw_partial_path w) = None
      else cw_files w path = None) \<and>
    (\<forall>p. p \<noteq> path \<and> p \<noteq> cw_partial_path w \<longrightarrow> cw_files w p = fs p)"
  using cw_inv_reachable [OF assms] by (auto simp: cw_inv_def)

theorem capture_published_complete_witness:
  "\<exists>w. cw_reachable (\<lambda>_. None) ''a'' [116] w [sample_frame\<lparr>rf_capture_index := 0\<rparr>] \<and> cw_closed w \<and> cw_files w ''a'' = Some (capture_bytes [116] [sample_frame\<lparr>rf_capture_index := 0\<rparr>])"
proof -
  define w0 where "w0 = \<lparr>cw_files = [''a.partial.1'' \<mapsto> capture_header [116]], cw_final_path = ''a'',
    cw_partial_path = ''a.partial.1'', cw_good = True, cw_closed = False\<rparr>"
  have "cw_open (\<lambda>_. None) ''a'' ''1'' [116] True Stored = Done w0"
    by (simp add: cw_open_def w0_def write_file_def raw_capture_max_metadata_def append_le_eq capture_header_def Let_def)
  note opened = cw_reachable.opened [OF this]
  obtain w1 where w1: "cw_append w0 (sample_frame\<lparr>rf_capture_index := 0\<rparr>) Stored = Done w1" "\<not> cw_closed w1" "cw_good w1"
      "cw_files w1 (cw_final_path w1) = None"
    by (simp add: cw_append_def w0_def write_file_def Let_def)
  note appended = cw_reachable.append_done [OF opened w1(1)]
  have "\<exists>w2. cw_close w1 Stored = Done w2 \<and> cw_closed w2"
    using w1(2-4) cw_inv_reachable [OF appended] by (auto simp: cw_close_def write_file_def Let_def cw_inv_def)
  then obtain w2 where w2: "cw_close w1 Stored = Done w2" "cw_closed w2" by blast
  note closed = cw_reachable.close_done [OF appended w2(1)]
  from capture_published_complete [OF closed] closed w2(2) show ?thesis by auto
qed

end
