(* ===== verification/Feed_Receive_Metrics.thy ===== *)
theory Feed_Receive_Metrics
  imports Bitmap_Levels
begin

text \<open>
  Counters of the feed receiver (\<open>cpp/include/llab/feed_receive_metrics.hpp\<close>): frames by class, and two
  histograms with one bucket per power of two.
\<close>

section \<open>State and operations\<close>

datatype frame_class = Control_frame | Snapshot_frame | MarketUpdate_frame

definition feed_metric_buckets :: nat where
  "feed_metric_buckets = 64"

record receive_metrics =
  rm_control_frames :: u64
  rm_snapshots :: u64
  rm_market_updates :: u64
  rm_queue_overflows :: u64
  rm_oversized_frames :: u64
  rm_previous_market_update_ns :: "u64 option"
  rm_interarrival :: "u64 list"
  rm_callback_to_handoff :: "u64 list"

definition rm_new :: receive_metrics where
  "rm_new = \<lparr>rm_control_frames = 0, rm_snapshots = 0, rm_market_updates = 0, rm_queue_overflows = 0, rm_oversized_frames = 0,
     rm_previous_market_update_ns = None, rm_interarrival = replicate feed_metric_buckets 0,
     rm_callback_to_handoff = replicate feed_metric_buckets 0\<rparr>"

definition bucket :: "u64 \<Rightarrow> nat" where
  "bucket ns = (if ns = 0 then 0 else min 63 (63 - countl_zero ns))"

definition bump :: "u64 list \<Rightarrow> nat \<Rightarrow> u64 list" where
  "bump xs i = xs[i := xs ! i + 1]"

definition record_frame :: "receive_metrics \<Rightarrow> frame_class \<Rightarrow> u64 \<Rightarrow> u64 \<Rightarrow> receive_metrics" where
  "record_frame m frame received_ns handoff_ns =
     (let m = m\<lparr>rm_callback_to_handoff := bump (rm_callback_to_handoff m) (bucket handoff_ns)\<rparr>
      in case frame of
           Control_frame \<Rightarrow> m\<lparr>rm_control_frames := rm_control_frames m + 1\<rparr>
         | Snapshot_frame \<Rightarrow> m\<lparr>rm_snapshots := rm_snapshots m + 1\<rparr>
         | MarketUpdate_frame \<Rightarrow>
             let m = (case rm_previous_market_update_ns m of
                        None \<Rightarrow> m
                      | Some previous \<Rightarrow> m\<lparr>rm_interarrival := bump (rm_interarrival m) (bucket (received_ns - previous))\<rparr>)
             in m\<lparr>rm_previous_market_update_ns := Some received_ns, rm_market_updates := rm_market_updates m + 1\<rparr>)"

definition record_queue_overflow :: "receive_metrics \<Rightarrow> receive_metrics" where
  "record_queue_overflow m = m\<lparr>rm_queue_overflows := rm_queue_overflows m + 1\<rparr>"

definition record_oversized_frame :: "receive_metrics \<Rightarrow> receive_metrics" where
  "record_oversized_frame m = m\<lparr>rm_oversized_frames := rm_oversized_frames m + 1\<rparr>"

record receive_snapshot =
  rs_control_frames :: u64
  rs_snapshots :: u64
  rs_market_updates :: u64
  rs_queue_overflows :: u64
  rs_oversized_frames :: u64
  rs_interarrival :: "u64 list"
  rs_callback_to_handoff :: "u64 list"

definition rm_snapshot :: "receive_metrics \<Rightarrow> receive_snapshot" where
  "rm_snapshot m = \<lparr>rs_control_frames = rm_control_frames m, rs_snapshots = rm_snapshots m, rs_market_updates = rm_market_updates m,
     rs_queue_overflows = rm_queue_overflows m, rs_oversized_frames = rm_oversized_frames m,
     rs_interarrival = rm_interarrival m, rs_callback_to_handoff = rm_callback_to_handoff m\<rparr>"

section \<open>Buckets\<close>

lemma bit_unat_bounds:
  assumes "bit (n :: nat) b" "\<And>j. b < j \<Longrightarrow> \<not> bit n j"
  shows "2 ^ b \<le> n" "n < 2 ^ (b + 1)"
proof -
  have "n div 2 ^ b \<noteq> 0" using assms(1) unfolding bit_iff_odd by (metis even_zero)
  then show "2 ^ b \<le> n" by (metis div_less not_less)
  have "take_bit (b + 1) n = n" using assms(2) by (auto simp: bit_eq_iff bit_take_bit_iff) (meson less_Suc_eq_le not_less)
  then show "n < 2 ^ (b + 1)" by (metis take_bit_nat_less_exp)
qed

lemma bucket_range:
  assumes "ns \<noteq> 0"
  shows "bucket ns < 64 \<and> 2 ^ bucket ns \<le> unat ns \<and> unat ns < 2 ^ (bucket ns + 1)"
proof -
  have b: "bucket ns = 63 - countl_zero ns" using assms by (simp add: bucket_def)
  have bits: "bit (unat ns) j \<longleftrightarrow> bit ns j" for j by (auto simp: bit_unsigned_iff dest: bit_imp_le_length)
  show ?thesis
    using bit_unat_bounds [of "unat ns" "bucket ns"] countl_zero_highest [OF assms] unfolding bits b by auto
qed

lemma bucket_less: "bucket ns < 64"
  by (auto simp: bucket_def intro: le_less_trans [of _ 63])

lemma bump_sum: "i < length xs \<Longrightarrow> sum_list (bump xs i) = sum_list xs + 1"
  unfolding bump_def
proof (induction xs arbitrary: i)
  case (Cons x xs)
  then show ?case by (cases i) (simp_all add: algebra_simps)
qed simp

lemma bump_length [simp]: "length (bump xs i) = length xs"
  by (simp add: bump_def)

text \<open>What a bucket stands for, without reference to the code: bucket \<open>k\<close> holds \<open>2\<^sup>k\<close> to \<open>2\<^sup>k\<^sup>+\<^sup>1 - 1\<close> nanoseconds, bucket 0 also 0.\<close>

definition in_bucket :: "nat \<Rightarrow> u64 \<Rightarrow> bool" where
  "in_bucket k ns \<longleftrightarrow> (if ns = 0 then k = 0 else 2 ^ k \<le> unat ns \<and> unat ns < 2 ^ (k + 1))"

lemma power_interval_unique:
  assumes "2 ^ j \<le> n" "n < 2 ^ (j + 1)" "2 ^ k \<le> n" "n < (2 :: nat) ^ (k + 1)"
  shows "j = k"
proof -
  have "(2 :: nat) ^ j < 2 ^ (k + 1)" "(2 :: nat) ^ k < 2 ^ (j + 1)" using assms by linarith+
  then have "j < k + 1" "k < j + 1" by (simp_all only: power_strict_increasing_iff one_less_numeral_iff semiring_norm)
  then show ?thesis by linarith
qed

lemma in_bucket_iff: "in_bucket k ns \<longleftrightarrow> bucket ns = k"
proof (cases "ns = 0")
  case True
  then show ?thesis by (auto simp: in_bucket_def bucket_def)
next
  case False
  then show ?thesis using bucket_range [OF False] power_interval_unique [of "bucket ns" "unat ns" k] by (auto simp: in_bucket_def)
qed

definition histogram :: "u64 list \<Rightarrow> u64 list" where
  "histogram xs = map (\<lambda>k. of_nat (length (filter (in_bucket k) xs))) [0..<feed_metric_buckets]"

lemma histogram_Nil [simp]: "histogram [] = replicate feed_metric_buckets 0"
  by (simp add: histogram_def map_replicate_const)

lemma histogram_snoc [simp]: "histogram (xs @ [x]) = bump (histogram xs) (bucket x)"
proof (rule nth_equalityI)
  fix k assume "k < length (histogram (xs @ [x]))"
  then have "k < 64" by (simp add: histogram_def feed_metric_buckets_def)
  then show "histogram (xs @ [x]) ! k = bump (histogram xs) (bucket x) ! k"
    using bucket_less [of x] by (auto simp: histogram_def feed_metric_buckets_def bump_def in_bucket_iff nth_list_update)
qed (simp add: histogram_def)

lemma histogram_sum: "sum_list (histogram xs) = of_nat (length xs)"
proof (induction xs rule: rev_induct)
  case (snoc x xs)
  have "bucket x < length (histogram xs)" using bucket_less by (simp add: histogram_def feed_metric_buckets_def)
  with snoc show ?case by (simp add: bump_sum)
qed (simp add: sum_list_replicate)

section \<open>Nothing is lost\<close>

datatype receive_event = Frame frame_class u64 u64 | Overflow | Oversized

fun receive :: "receive_metrics \<Rightarrow> receive_event \<Rightarrow> receive_metrics" where
  "receive m (Frame frame received_ns handoff_ns) = record_frame m frame received_ns handoff_ns"
| "receive m Overflow = record_queue_overflow m"
| "receive m Oversized = record_oversized_frame m"

text \<open>
  The events seen from outside: frames of a class, handoff times of all frames, receive times of the
  market updates and the intervals between consecutive ones (as unsigned 64-bit differences).
\<close>

fun frames_of :: "frame_class \<Rightarrow> receive_event list \<Rightarrow> nat" where
  "frames_of f [] = 0"
| "frames_of f (Frame g r h # es) = (if f = g then 1 else 0) + frames_of f es"
| "frames_of f (_ # es) = frames_of f es"

fun handoffs :: "receive_event list \<Rightarrow> u64 list" where
  "handoffs [] = []"
| "handoffs (Frame f r h # es) = h # handoffs es"
| "handoffs (_ # es) = handoffs es"

fun arrivals :: "receive_event list \<Rightarrow> u64 list" where
  "arrivals [] = []"
| "arrivals (Frame MarketUpdate_frame r h # es) = r # arrivals es"
| "arrivals (_ # es) = arrivals es"

fun intervals :: "u64 list \<Rightarrow> u64 list" where
  "intervals (a # b # rs) = (b - a) # intervals (b # rs)"
| "intervals _ = []"

lemma events_append [simp]:
  "frames_of f (xs @ ys) = frames_of f xs + frames_of f ys"
  "handoffs (xs @ ys) = handoffs xs @ handoffs ys" "arrivals (xs @ ys) = arrivals xs @ arrivals ys"
proof -
  show "frames_of f (xs @ ys) = frames_of f xs + frames_of f ys" by (induction f xs rule: frames_of.induct) auto
  show "handoffs (xs @ ys) = handoffs xs @ handoffs ys" by (induction xs rule: handoffs.induct) auto
  show "arrivals (xs @ ys) = arrivals xs @ arrivals ys" by (induction xs rule: arrivals.induct) auto
qed

lemma intervals_snoc: "intervals (rs @ [r]) = (if rs = [] then [] else intervals rs @ [r - last rs])"
  by (induction rs rule: intervals.induct) auto

lemma events_length:
  "length (handoffs es) = frames_of Control_frame es + frames_of Snapshot_frame es + frames_of MarketUpdate_frame es"
  "length (arrivals es) = frames_of MarketUpdate_frame es" "length (intervals rs) = length rs - 1"
proof -
  show "length (handoffs es) = frames_of Control_frame es + frames_of Snapshot_frame es + frames_of MarketUpdate_frame es"
  proof (induction es rule: handoffs.induct)
    case (2 f r h es)
    then show ?case by (cases f) auto
  qed auto
  show "length (arrivals es) = frames_of MarketUpdate_frame es" by (induction es rule: arrivals.induct) auto
  show "length (intervals rs) = length rs - 1" by (induction rs rule: intervals.induct) auto
qed

definition rm_counts :: "receive_metrics \<Rightarrow> receive_event list \<Rightarrow> bool" where
  "rm_counts m es \<longleftrightarrow>
     rm_control_frames m = of_nat (frames_of Control_frame es) \<and> rm_snapshots m = of_nat (frames_of Snapshot_frame es) \<and>
     rm_market_updates m = of_nat (frames_of MarketUpdate_frame es) \<and>
     rm_previous_market_update_ns m = (if arrivals es = [] then None else Some (last (arrivals es))) \<and>
     rm_callback_to_handoff m = histogram (handoffs es) \<and> rm_interarrival m = histogram (intervals (arrivals es)) \<and>
     rm_queue_overflows m = of_nat (length (filter ((=) Overflow) es)) \<and>
     rm_oversized_frames m = of_nat (length (filter ((=) Oversized) es))"

lemma rm_counts_receive: "rm_counts m es \<Longrightarrow> rm_counts (receive m e) (es @ [e])"
proof (cases e)
  case (Frame f r h)
  assume "rm_counts m es"
  with Frame show ?thesis
    by (cases f) (auto simp: rm_counts_def record_frame_def Let_def intervals_snoc algebra_simps)
next
  case Overflow
  assume "rm_counts m es"
  with Overflow show ?thesis by (simp add: rm_counts_def record_queue_overflow_def)
next
  case Oversized
  assume "rm_counts m es"
  with Oversized show ?thesis by (simp add: rm_counts_def record_oversized_frame_def)
qed

lemma rm_counts_run: "rm_counts (foldl receive rm_new es) es"
proof (induction es rule: rev_induct)
  case Nil
  then show ?case by (simp add: rm_counts_def rm_new_def)
next
  case (snoc e es)
  then show ?case using rm_counts_receive by simp
qed

section \<open>Properties\<close>

text \<open>
  C36. After any sequence of events, in the arithmetic of the 64-bit counters: bucket \<open>k\<close> of the handoff
  histogram is the number of frames whose handoff time lies between \<open>2\<^sup>k\<close> and \<open>2\<^sup>k\<^sup>+\<^sup>1 - 1\<close> nanoseconds (0 falls in
  bucket 0), and bucket \<open>k\<close> of the interarrival histogram the number of intervals between consecutive
  market updates that do. So the first histogram has one entry per frame of any class and the second one per
  market update but the first. Frames of each class, overflows and oversized frames are counted one by one.
\<close>

theorem receive_metrics_conserve:
  "let s = rm_snapshot (foldl receive rm_new es)
   in rs_control_frames s = of_nat (frames_of Control_frame es) \<and> rs_snapshots s = of_nat (frames_of Snapshot_frame es) \<and>
      rs_market_updates s = of_nat (frames_of MarketUpdate_frame es) \<and>
      rs_callback_to_handoff s = map (\<lambda>k. of_nat (length (filter (in_bucket k) (handoffs es)))) [0..<64] \<and>
      rs_interarrival s = map (\<lambda>k. of_nat (length (filter (in_bucket k) (intervals (arrivals es))))) [0..<64] \<and>
      sum_list (rs_callback_to_handoff s) = rs_control_frames s + rs_snapshots s + rs_market_updates s \<and>
      sum_list (rs_interarrival s) = of_nat (frames_of MarketUpdate_frame es - 1) \<and>
      rs_queue_overflows s = of_nat (length (filter ((=) Overflow) es)) \<and>
      rs_oversized_frames s = of_nat (length (filter ((=) Oversized) es))"
proof -
  have h: "map (\<lambda>k. of_nat (length (filter (in_bucket k) xs))) [0..<64] = histogram xs" for xs
    by (simp add: histogram_def feed_metric_buckets_def)
  show ?thesis
    using rm_counts_run [of es] by (simp add: rm_counts_def rm_snapshot_def h histogram_sum events_length)
qed

end
