(* ===== verification/Capture_Processor.thy ===== *)
theory Capture_Processor
  imports L2_Decoder Raw_Frame_Capture Feed_Receive_Metrics
begin

text \<open>
  The processor of the capture program (\<open>cpp/benchmarks/bybit_l2_capture.cpp\<close>): it decodes the text frames that come
  in, applies them to the level-two book and counts them; and the replay of a capture file through
  it. The exchange's topic names the depth of the book.
\<close>

section \<open>Topics\<close>

text \<open>\<open>std::to_string\<close> of an unsigned number.\<close>

fun to_string :: "nat \<Rightarrow> string" where
  "to_string n = (if n < 10 then [char_of (48 + n)] else to_string (n div 10) @ [char_of (48 + n mod 10)])"

declare to_string.simps [simp del]

definition live_topic :: "nat \<Rightarrow> string \<Rightarrow> string" where
  "live_topic depth symbol = ''orderbook.'' @ to_string depth @ ''.'' @ symbol"

text \<open>The position of the first point of a text, \<open>std::string::find\<close>.\<close>

definition find_point :: "string \<Rightarrow> nat option" where
  "find_point xs = (if CHR ''.'' \<in> set xs then Some (length (takeWhile (\<lambda>c. c \<noteq> CHR ''.'') xs)) else None)"

definition depth_from_topic :: "string \<Rightarrow> u64 result" where
  "depth_from_topic topic =
     (let prefix = ''orderbook.''; rest = drop (length prefix) topic
      in if take (length prefix) topic \<noteq> prefix then Raise (Invalid_argument ''capture metadata is not an orderbook topic'')
         else case find_point rest of
           None \<Rightarrow> Raise (Invalid_argument ''malformed orderbook capture topic'')
         | Some separator \<Rightarrow>
             if separator = 0 \<or> separator + 1 = length rest then Raise (Invalid_argument ''malformed orderbook capture topic'')
             else case from_chars (take separator rest) of
               None \<Rightarrow> Raise (Invalid_argument ''invalid capture orderbook depth'')
             | Some (depth, left) \<Rightarrow>
                 if left \<noteq> [] \<or> depth = 0 then Raise (Invalid_argument ''invalid capture orderbook depth'') else Value depth)"

section \<open>The processor\<close>

record processor =
  pr_book :: vector_book
  pr_metrics :: receive_metrics
  pr_expected_topic :: string
  pr_live_metrics :: bool

definition pr_new :: "nat \<Rightarrow> string \<Rightarrow> bool \<Rightarrow> processor" where
  "pr_new depth expected_topic live_metrics =
     \<lparr>pr_book = vb_new depth, pr_metrics = rm_new, pr_expected_topic = expected_topic, pr_live_metrics = live_metrics\<rparr>"

definition to_chars :: "u8 list \<Rightarrow> string" where
  "to_chars bytes = map (\<lambda>b. char_of (unat b)) bytes"

definition to_bytes :: "string \<Rightarrow> u8 list" where
  "to_bytes xs = map of_char xs"

definition count_frame :: "processor \<Rightarrow> frame_class \<Rightarrow> raw_frame_record \<Rightarrow> u64 \<Rightarrow> processor" where
  "count_frame p cl r handoff_ns = p\<lparr>pr_metrics := record_frame (pr_metrics p) cl (rf_monotonic_ns r) handoff_ns\<rparr>"

text \<open>\<open>now\<close> is what the monotonic clock returns.\<close>

definition consume :: "'t ptree \<Rightarrow> processor \<Rightarrow> u64 \<Rightarrow> raw_frame_record \<Rightarrow> processor outcome" where
  "consume pt p now r =
     (if rf_direction r \<noteq> Inbound \<or> rf_kind r \<noteq> Text then Done p
      else let handoff_ns = (if pr_live_metrics p then now - rf_monotonic_ns r else 0)
           in case decode pt (to_chars (rf_payload r)) of
             Raise x \<Rightarrow> Threw x p
           | Loops \<Rightarrow> Diverges
           | Value None \<Rightarrow> Done (count_frame p Control_frame r handoff_ns)
           | Value (Some m) \<Rightarrow>
               if ms_kind m = Control_message then Done (count_frame p Control_frame r handoff_ns)
               else if ms_topic m \<noteq> pr_expected_topic p
               then Threw (Runtime_error ''market message topic does not match subscribed topic'') p
               else case apply_message m (pr_book p) of (accepted, book) \<Rightarrow>
                 let p = p\<lparr>pr_book := book\<rparr>
                 in if \<not> accepted
                    then Threw (Runtime_error ''Bybit update-id/capacity gate rejected message; resnapshot required'') p
                    else Done (count_frame p (if ms_kind m = Snapshot_message then Snapshot_frame else MarketUpdate_frame) r handoff_ns))"

text \<open>
  The loop of the live program: each frame is consumed at some time of the clock. The subscription
  that the program sends is recorded but not consumed; here it is consumed like the others, which skips it.
\<close>

fun consume_all :: "'t ptree \<Rightarrow> processor \<Rightarrow> (u64 \<times> raw_frame_record) list \<Rightarrow> processor outcome" where
  "consume_all pt p [] = Done p"
| "consume_all pt p ((now, r) # rs) = seq (consume pt p now r) (\<lambda>p. consume_all pt p rs)"

text \<open>The loop of \<open>replay\<close>, with a bound on its rounds.\<close>

fun replay_loop :: "nat \<Rightarrow> 't ptree \<Rightarrow> capture_reader \<Rightarrow> processor \<Rightarrow> processor outcome" where
  "replay_loop 0 pt r p = Diverges"
| "replay_loop (Suc n) pt r p =
     (case cr_next r of
        (r', Value None) \<Rightarrow> Done p
      | (r', Value (Some x)) \<Rightarrow> seq (consume pt p 0 x) (replay_loop n pt r')
      | (r', Raise e) \<Rightarrow> Threw e p
      | (r', Loops) \<Rightarrow> Diverges)"

text \<open>The exit code and the processor whose status is printed.\<close>

datatype program_end = Exits nat processor | Fails exn | Runs_on

definition exit_code :: "processor \<Rightarrow> nat" where
  "exit_code p = (if vb_valid (pr_book p) then 0 else 2)"

definition replay :: "nat \<Rightarrow> 't ptree \<Rightarrow> files \<Rightarrow> path \<Rightarrow> program_end" where
  "replay n pt fs path =
     (case cr_open fs path of
        Raise x \<Rightarrow> Fails x
      | Loops \<Rightarrow> Runs_on
      | Value reader \<Rightarrow>
          let topic = to_chars (cr_topic reader)
          in case depth_from_topic topic of
            Raise x \<Rightarrow> Fails x
          | Loops \<Rightarrow> Runs_on
          | Value depth \<Rightarrow>
              (case replay_loop n pt reader (pr_new (unat depth) topic False) of
                 Done p \<Rightarrow> Exits (exit_code p) p
               | Threw x p \<Rightarrow> Fails x
               | Diverges \<Rightarrow> Runs_on))"

section \<open>A topic gives back its depth\<close>

lemma isdigit_char_of: "(n :: nat) < 10 \<Longrightarrow> isdigit (char_of (48 + n))"
  by (simp add: isdigit_def)

lemma digit_value_char_of: "(n :: nat) < 10 \<Longrightarrow> digit_value (char_of (48 + n)) = n"
  by (simp add: digit_value_def)

lemma to_string_digits: "to_string n \<noteq> [] \<and> list_all isdigit (to_string n)"
proof (induction n rule: to_string.induct)
  case (1 n)
  then show ?case by (subst (1 2) to_string.simps) (simp add: isdigit_char_of)
qed

lemma decimal_from_append: "decimal_from n (xs @ ys) = decimal_from (decimal_from n xs) ys"
  by (simp add: decimal_from_def)

lemma decimal_to_string: "decimal (to_string n) = n"
proof (induction n rule: to_string.induct)
  case (1 n)
  then show ?case by (subst to_string.simps) (simp add: decimal_from_append digit_value_char_of)
qed

lemma from_chars_to_string:
  assumes "n < 2 ^ 64"
  shows "from_chars (to_string n) = Some (of_nat n, [])"
proof -
  have "takeWhile isdigit (to_string n) = to_string n" "dropWhile isdigit (to_string n) = []"
    using to_string_digits [of n] by (simp_all add: list_all_iff)
  with assms to_string_digits [of n] show ?thesis by (simp add: from_chars_def decimal_to_string del: takeWhile_eq_all_conv)
qed

lemma depth_of_live_topic:
  assumes "0 < depth" "depth < 2 ^ 64" "symbol \<noteq> []"
  shows "depth_from_topic (live_topic depth symbol) = Value (of_nat depth)"
proof -
  have "takeWhile (\<lambda>c. c \<noteq> CHR ''.'') (to_string depth @ CHR ''.'' # symbol) = to_string depth"
    using to_string_digits [of depth] by (subst takeWhile_append2) (auto simp: list_all_iff isdigit_def)
  then have "find_point (to_string depth @ CHR ''.'' # symbol) = Some (length (to_string depth))" by (simp add: find_point_def)
  moreover have "(of_nat depth :: u64) \<noteq> 0" using assms(1,2) by (simp add: word_of_nat_eq_0_iff) (auto dest: dvd_imp_le)
  ultimately show ?thesis
    using assms(3) to_string_digits [of depth] from_chars_to_string [OF assms(2)]
    by (simp add: depth_from_topic_def live_topic_def Let_def)
qed

section \<open>A replay does what the live program did\<close>

text \<open>Two processors that differ only in what depends on the clock: the handoff times.\<close>

definition same_run :: "processor \<Rightarrow> processor \<Rightarrow> bool" where
  "same_run p q \<longleftrightarrow> pr_book p = pr_book q \<and> pr_expected_topic p = pr_expected_topic q \<and>
     rm_control_frames (pr_metrics p) = rm_control_frames (pr_metrics q) \<and> rm_snapshots (pr_metrics p) = rm_snapshots (pr_metrics q) \<and>
     rm_market_updates (pr_metrics p) = rm_market_updates (pr_metrics q) \<and>
     rm_previous_market_update_ns (pr_metrics p) = rm_previous_market_update_ns (pr_metrics q) \<and>
     rm_interarrival (pr_metrics p) = rm_interarrival (pr_metrics q)"

lemma same_run_count:
  "same_run p q \<Longrightarrow> same_run (count_frame p cl r h) (count_frame q cl r h')"
  by (cases cl) (auto simp: same_run_def count_frame_def record_frame_def Let_def split: option.splits)

lemma same_run_book: "same_run p q \<Longrightarrow> same_run (p\<lparr>pr_book := b\<rparr>) (q\<lparr>pr_book := b\<rparr>)"
  by (simp add: same_run_def)

lemma consume_same:
  assumes "same_run p q" "consume pt p now r = Done p'"
  shows "\<exists>q'. consume pt q now' r = Done q' \<and> same_run p' q'"
proof -
  have "pr_book q = pr_book p" "pr_expected_topic q = pr_expected_topic p" using assms(1) by (simp_all add: same_run_def)
  with assms show ?thesis
    by (auto simp: consume_def Let_def intro!: same_run_count same_run_book
        split: if_splits result.splits option.splits prod.splits)
qed

lemma consume_all_Cons:
  "consume_all pt p ((now, r) # rs) = Done p' \<longleftrightarrow> (\<exists>q. consume pt p now r = Done q \<and> consume_all pt q rs = Done p')"
  by (simp add: seq_Done_iff)

lemma replay_loop_same:
  assumes "consume_all pt p xs = Done p'" "same_run p q" "cr_ok r" "cr_data r = capture_records (map snd xs)"
    "numbered_from (cr_next_capture_index r) (map snd xs)" "list_all (\<lambda>x. length (rf_payload x) \<le> raw_frame_max_payload) (map snd xs)"
    "length xs < n"
  shows "\<exists>q'. replay_loop n pt r q = Done q' \<and> same_run p' q'"
  using assms
proof (induction xs arbitrary: p q r n)
  case Nil
  then have "cr_next r = (r, Value None)" by (auto simp: cr_next_def cr_data_def cr_ok_def)
  with Nil show ?case by (cases n) auto
next
  case (Cons x xs)
  obtain now y where x: "x = (now, y)" by force
  obtain m where n: "n = Suc m" "length xs < m" using Cons.prems(7) by (cases n) auto
  obtain p1 where p1: "consume pt p now y = Done p1" "consume_all pt p1 xs = Done p'"
    using Cons.prems(1) unfolding x consume_all_Cons by blast
  obtain q1 where q1: "consume pt q 0 y = Done q1" "same_run p1 q1" using consume_same [OF Cons.prems(2) p1(1)] by blast
  have num: "rf_capture_index y = cr_next_capture_index r" "numbered_from (cr_next_capture_index r + 1) (map snd xs)"
    using Cons.prems(5) by (simp_all add: x numbered_from_Cons)
  obtain r' where r': "cr_next r = (r', Value (Some y))" "cr_ok r'" "cr_data r' = capture_records (map snd xs)"
      "cr_next_capture_index r' = cr_next_capture_index r + 1"
    using cr_next_encoded [OF Cons.prems(3), of y "capture_records (map snd xs)"] Cons.prems(4,6) num(1) by (auto simp: x)
  from Cons.IH [OF p1(2) q1(2) r'(2,3)] num(2) Cons.prems(6) n(2) r'(4)
  obtain q' where "replay_loop m pt r' q1 = Done q'" "same_run p' q'" by auto
  with n(1) r'(1) q1(1) show ?case by simp
qed

lemma to_chars_to_bytes: "to_chars (to_bytes xs) = xs"
proof -
  have "unat (of_char c :: u8) = of_char c" for c
  proof -
    have "unat (of_nat (of_char c) :: u8) = of_char c" using nat_of_char_less_256 [of c] by (simp add: unat_of_nat)
    then show ?thesis by (simp only: of_nat_of_char)
  qed
  then show ?thesis by (simp add: to_chars_def to_bytes_def o_def)
qed

lemma replay_of_capture:
  assumes depth: "0 < depth" "depth < 2 ^ 64" "symbol \<noteq> []" "length (live_topic depth symbol) \<le> raw_capture_max_metadata"
    and run: "consume_all pt (pr_new depth (live_topic depth symbol) True) xs = Done p"
    and captured: "recordable (map snd xs)" "fs path = Some (capture_bytes (to_bytes (live_topic depth symbol)) (map snd xs))"
    and n: "length xs < n"
  shows "\<exists>p'. replay n pt fs path = Exits (exit_code p) p' \<and> same_run p p'"
proof -
  let ?topic = "live_topic depth symbol"
  have "valid_topic (to_bytes ?topic)" using depth(4) by (simp add: valid_topic_def to_bytes_def live_topic_def)
  then obtain r where r: "cr_open fs path = Value r" "cr_ok r" "cr_data r = capture_records (map snd xs)" "cr_topic r = to_bytes ?topic"
      "cr_next_capture_index r = 0"
    using cr_open_complete [of "to_bytes ?topic" fs path "capture_records (map snd xs)"] captured(2)
    by (auto simp: capture_bytes_def)
  have "same_run (pr_new depth ?topic True) (pr_new depth ?topic False)" by (simp add: same_run_def pr_new_def)
  then obtain p' where p': "replay_loop n pt r (pr_new depth ?topic False) = Done p'" "same_run p p'"
    using replay_loop_same [OF run _ r(2,3) _ _ n] captured(1) r(5) by (auto simp: recordable_def)
  have "unat (of_nat depth :: u64) = depth" using depth(2) by (simp add: unat_of_nat)
  moreover have "exit_code p' = exit_code p" using p'(2) by (simp add: same_run_def exit_code_def)
  ultimately have "replay n pt fs path = Exits (exit_code p) p'"
    using r(1,4) p'(1) depth_of_live_topic [OF depth(1-3)] by (simp add: replay_def to_chars_to_bytes Let_def)
  with p'(2) show ?thesis by blast
qed

text \<open>
  A replay reproduces the live run: if the program consumed frames without an exception and
  recorded them all into a completed capture, then replaying the file ends with the same exit code, the same book,
  so the same digest and best levels, and the same counters, whatever the clock showed.
\<close>

theorem replay_matches_live:
  assumes "0 < depth" "depth < 2 ^ 64" "symbol \<noteq> []" "length (live_topic depth symbol) \<le> raw_capture_max_metadata"
    and "consume_all pt (pr_new depth (live_topic depth symbol) True) xs = Done p"
    and "recordable (map snd xs)" "fs path = Some (capture_bytes (to_bytes (live_topic depth symbol)) (map snd xs))"
    and "length xs < n"
  shows "\<exists>p'. replay n pt fs path = Exits (exit_code p) p' \<and> pr_book p' = pr_book p \<and>
    vb_state_digest (pr_book p') = vb_state_digest (pr_book p) \<and>
    rm_snapshots (pr_metrics p') = rm_snapshots (pr_metrics p) \<and> rm_market_updates (pr_metrics p') = rm_market_updates (pr_metrics p) \<and>
    rm_control_frames (pr_metrics p') = rm_control_frames (pr_metrics p) \<and> rm_interarrival (pr_metrics p') = rm_interarrival (pr_metrics p)"
  using replay_of_capture [OF assms(1-6), of fs path n] assms(7,8) by (auto simp: same_run_def)

text \<open>One snapshot is captured and replayed.\<close>

definition sample_text_frame :: raw_frame_record where
  "sample_text_frame = sample_frame\<lparr>rf_capture_index := 0, rf_direction := Inbound, rf_kind := Text\<rparr>"

definition sample_processor :: processor where
  "sample_processor =
     (case consume (sample_ptree (\<lambda>_. Value sample_snapshot_tree)) (pr_new 50 (live_topic 50 ''BTCUSDT'') True) 9 sample_text_frame of
        Done p \<Rightarrow> p)"

lemma sample_live_topic: "live_topic 50 ''BTCUSDT'' = ''orderbook.50.BTCUSDT''"
  by code_simp

lemma sample_message_fields: "ms_kind sample_message = Snapshot_message" "ms_topic sample_message = ''orderbook.50.BTCUSDT''"
  by (simp_all add: sample_message_def)

lemma sample_apply: "apply_message sample_message (vb_new 50) =
  (True, \<lparr>vb_bids = ms_bids sample_message, vb_asks = ms_asks sample_message, vb_maximum_levels = 50, vb_update_id = 7, vb_valid = True\<rparr>)"
  by code_simp

lemma sample_consume:
  "consume (sample_ptree (\<lambda>_. Value sample_snapshot_tree)) (pr_new 50 (live_topic 50 ''BTCUSDT'') True) 9 sample_text_frame =
     Done sample_processor \<and> vb_bids (pr_book sample_processor) = ms_bids sample_message \<and> exit_code sample_processor = 0"
  by (simp add: sample_processor_def consume_def sample_text_frame_def sample_decode pr_new_def sample_live_topic sample_apply
      sample_message_fields Let_def count_frame_def exit_code_def)

theorem replay_matches_live_witness:
  "\<exists>p'. replay 2 (sample_ptree (\<lambda>_. Value sample_snapshot_tree))
      [''a'' \<mapsto> capture_bytes (to_bytes (live_topic 50 ''BTCUSDT'')) [sample_text_frame]] ''a'' = Exits 0 p' \<and>
    vb_bids (pr_book p') = [\<lparr>l2_price = 10050000000, l2_quantity = 200000000\<rparr>]"
proof -
  let ?pt = "sample_ptree (\<lambda>_. Value sample_snapshot_tree)"
  have run: "consume_all ?pt (pr_new 50 (live_topic 50 ''BTCUSDT'') True) [(9, sample_text_frame)] = Done sample_processor"
    using sample_consume by simp
  have "recordable (map snd [(9, sample_text_frame)])"
    by (simp add: recordable_def numbered_from_def sample_text_frame_def sample_frame_def raw_frame_max_payload_def)
  from replay_matches_live [OF _ _ _ _ run this, of "[''a'' \<mapsto> capture_bytes (to_bytes (live_topic 50 ''BTCUSDT'')) [sample_text_frame]]" "''a''" 2]
    sample_consume
  show ?thesis by (auto simp: sample_live_topic raw_capture_max_metadata_def sample_message_def)
qed

end
