(* ===== verification/Raw_Frame_Queue.thy ===== *)
theory Raw_Frame_Queue
  imports Raw_Frame_Record
begin

text \<open>
  The single-producer single-consumer ring of captured frames, \<open>llab::RawFrameSpscQueue\<close>
  (\<open>cpp/include/llab/raw_frame_queue.hpp\<close>): first its operations on a queue nobody else touches, refined to a
  bounded list; then the producer and the consumer as two threads that interleave.
\<close>

section \<open>Data\<close>

datatype push_result = Queued | Full | PayloadTooLarge

record raw_frame_header =
  hd_capture_index :: u64
  hd_monotonic_ns :: u64
  hd_utc_ns :: u64
  hd_connection_id :: u64
  hd_direction :: frame_direction
  hd_kind :: frame_kind

record frame_slot =
  sl_header :: raw_frame_header
  sl_payload_size :: nat
  sl_payload :: "u8 list"

record frame_queue =
  fq_slots :: "frame_slot list"
  fq_payload_capacity :: nat
  fq_write_index :: nat
  fq_read_index :: nat

definition zero_header :: raw_frame_header where
  "zero_header = \<lparr>hd_capture_index = 0, hd_monotonic_ns = 0, hd_utc_ns = 0, hd_connection_id = 0, hd_direction = 0, hd_kind = 0\<rparr>"

definition fq_new :: "nat \<Rightarrow> nat \<Rightarrow> frame_queue result" where
  "fq_new slot_count payload_capacity =
     (if slot_count < 2 \<or> payload_capacity = 0
      then Raise (Invalid_argument ''raw frame queue requires at least two non-empty slots'')
      else Value \<lparr>fq_slots = replicate slot_count \<lparr>sl_header = zero_header, sl_payload_size = 0,
                                                 sl_payload = replicate payload_capacity 0\<rparr>,
                  fq_payload_capacity = payload_capacity, fq_write_index = 0, fq_read_index = 0\<rparr>)"

definition increment :: "frame_queue \<Rightarrow> nat \<Rightarrow> nat" where
  "increment q index = (if index + 1 = length (fq_slots q) then 0 else index + 1)"

section \<open>Operations\<close>

text \<open>The slot that the producer fills: \<open>std::copy\<close> overwrites the first bytes of its buffer.\<close>

definition fill_slot :: "frame_queue \<Rightarrow> nat \<Rightarrow> raw_frame_header \<Rightarrow> u8 list \<Rightarrow> frame_queue" where
  "fill_slot q i header payload =
     (let s = fq_slots q ! i
      in q\<lparr>fq_slots := (fq_slots q)[i := s\<lparr>sl_header := header, sl_payload_size := length payload,
            sl_payload := payload @ drop (length payload) (sl_payload s)\<rparr>]\<rparr>)"

definition try_push :: "frame_queue \<Rightarrow> raw_frame_header \<Rightarrow> u8 list \<Rightarrow> push_result \<times> frame_queue" where
  "try_push q header payload =
     (if length payload > fq_payload_capacity q then (PayloadTooLarge, q)
      else let write = fq_write_index q; nxt = increment q write
           in if nxt = fq_read_index q then (Full, q)
              else (Queued, (fill_slot q write header payload)\<lparr>fq_write_index := nxt\<rparr>))"

text \<open>What the consumer copies out of a slot.\<close>

definition slot_record :: "frame_slot \<Rightarrow> raw_frame_record" where
  "slot_record s =
     \<lparr>rf_capture_index = hd_capture_index (sl_header s), rf_monotonic_ns = hd_monotonic_ns (sl_header s),
      rf_connection_id = hd_connection_id (sl_header s), rf_utc_ns = hd_utc_ns (sl_header s),
      rf_direction = hd_direction (sl_header s), rf_kind = hd_kind (sl_header s),
      rf_payload = take (sl_payload_size s) (sl_payload s)\<rparr>"

text \<open>\<open>capacity\<close> is that of the caller's payload vector; nothing is returned where the source returns false.\<close>

definition try_pop_into :: "frame_queue \<Rightarrow> nat \<Rightarrow> raw_frame_record option \<times> frame_queue" where
  "try_pop_into q capacity =
     (let read = fq_read_index q
      in if read = fq_write_index q then (None, q)
         else let s = fq_slots q ! read
              in if capacity < sl_payload_size s then (None, q)
                 else (Some (slot_record s), q\<lparr>fq_read_index := increment q read\<rparr>))"

section \<open>The queue is a bounded list\<close>

definition frame_of :: "raw_frame_header \<Rightarrow> u8 list \<Rightarrow> raw_frame_record" where
  "frame_of h payload =
     \<lparr>rf_capture_index = hd_capture_index h, rf_monotonic_ns = hd_monotonic_ns h, rf_connection_id = hd_connection_id h,
      rf_utc_ns = hd_utc_ns h, rf_direction = hd_direction h, rf_kind = hd_kind h, rf_payload = payload\<rparr>"

text \<open>The slots from the read to the write index, around the ring.\<close>

definition in_flight :: "frame_queue \<Rightarrow> nat" where
  "in_flight q = (fq_write_index q + length (fq_slots q) - fq_read_index q) mod length (fq_slots q)"

definition fq_contents :: "frame_queue \<Rightarrow> raw_frame_record list" where
  "fq_contents q = map (\<lambda>k. slot_record (fq_slots q ! ((fq_read_index q + k) mod length (fq_slots q)))) [0..<in_flight q]"

definition fq_ok :: "frame_queue \<Rightarrow> bool" where
  "fq_ok q \<longleftrightarrow> 2 \<le> length (fq_slots q) \<and> fq_write_index q < length (fq_slots q) \<and> fq_read_index q < length (fq_slots q) \<and>
     list_all (\<lambda>s. length (sl_payload s) = fq_payload_capacity q \<and> sl_payload_size s \<le> fq_payload_capacity q) (fq_slots q)"

text \<open>Pushes and pops in any order: what was accepted, what came out, and the queue at the end.\<close>

fun fifo_run :: "('q \<Rightarrow> 'a \<Rightarrow> bool \<times> 'q) \<Rightarrow> ('q \<Rightarrow> 'a option \<times> 'q) \<Rightarrow> 'q \<Rightarrow> 'a option list \<Rightarrow> 'a list \<times> 'a list \<times> 'q" where
  "fifo_run push pop q [] = ([], [], q)"
| "fifo_run push pop q (Some x # ops) =
     (case push q x of (accepted, q') \<Rightarrow> case fifo_run push pop q' ops of (ins, outs, q2) \<Rightarrow>
        (if accepted then x # ins else ins, outs, q2))"
| "fifo_run push pop q (None # ops) =
     (case pop q of (y, q') \<Rightarrow> case fifo_run push pop q' ops of (ins, outs, q2) \<Rightarrow>
        (ins, (case y of None \<Rightarrow> outs | Some x \<Rightarrow> x # outs), q2))"

text \<open>The contract of a bounded first-in first-out queue.\<close>

locale bounded_fifo =
  fixes ok :: "'q \<Rightarrow> bool"
    and contents :: "'q \<Rightarrow> 'a list"
    and limit :: "'q \<Rightarrow> nat"
    and admits :: "'q \<Rightarrow> 'a \<Rightarrow> bool"
    and push :: "'q \<Rightarrow> 'a \<Rightarrow> bool \<times> 'q"
    and pop :: "'q \<Rightarrow> 'a option \<times> 'q"
  assumes push_ok: "ok q \<Longrightarrow> ok (snd (push q x)) \<and> limit (snd (push q x)) = limit q"
    and push_accepts: "ok q \<Longrightarrow> fst (push q x) \<longleftrightarrow> admits q x \<and> length (contents q) < limit q"
    and push_contents: "ok q \<Longrightarrow> contents (snd (push q x)) = (if fst (push q x) then contents q @ [x] else contents q)"
    and pop_ok: "ok q \<Longrightarrow> ok (snd (pop q)) \<and> limit (snd (pop q)) = limit q"
    and pop_contents: "ok q \<Longrightarrow> fst (pop q) = (case contents q of [] \<Rightarrow> None | x # _ \<Rightarrow> Some x) \<and>
      contents (snd (pop q)) = tl (contents q)"
begin

lemma run_fifo:
  "ok q \<Longrightarrow> fifo_run push pop q ops = (ins, outs, q') \<Longrightarrow> ok q' \<and> contents q @ ins = outs @ contents q'"
proof (induction ops arbitrary: q ins outs)
  case (Cons op ops)
  show ?case
  proof (cases op)
    case (Some x)
    obtain a q1 where p: "push q x = (a, q1)" by fastforce
    obtain i o' q2 where r: "fifo_run push pop q1 ops = (i, o', q2)" by (metis prod_cases3)
    show ?thesis using Cons.IH [of q1 i o'] Cons.prems p r Some push_ok [of q x] push_contents [of q x]
      by (auto split: if_splits)
  next
    case None
    obtain y q1 where p: "pop q = (y, q1)" by fastforce
    obtain i o' q2 where r: "fifo_run push pop q1 ops = (i, o', q2)" by (metis prod_cases3)
    show ?thesis using Cons.IH [of q1 i o'] Cons.prems p r None pop_ok [of q] pop_contents [of q]
      by (cases "contents q") auto
  qed
qed simp

end

section \<open>The ring keeps the contract\<close>

lemma ring_mod: "r < n \<Longrightarrow> k < n \<Longrightarrow> (r + k) mod n = (if r + k < n then r + k else r + k - (n :: nat))"
  by (simp add: mod_if le_mod_geq)

lemma in_flight_eq:
  "fq_ok q \<Longrightarrow> in_flight q = (if fq_read_index q \<le> fq_write_index q then fq_write_index q - fq_read_index q
     else fq_write_index q + length (fq_slots q) - fq_read_index q)"
  using ring_mod [of "fq_write_index q" "length (fq_slots q)" "length (fq_slots q) - fq_read_index q"]
  by (cases "fq_read_index q = 0") (auto simp: in_flight_def fq_ok_def)

lemma increment_eq: "fq_ok q \<Longrightarrow> i < length (fq_slots q) \<Longrightarrow> increment q i = (i + 1) mod length (fq_slots q)"
  by (auto simp: increment_def fq_ok_def)

lemma in_flight_less: "fq_ok q \<Longrightarrow> in_flight q < length (fq_slots q)"
  unfolding in_flight_def fq_ok_def by (intro mod_less_divisor) linarith

lemma write_slot: "fq_ok q \<Longrightarrow> (fq_read_index q + in_flight q) mod length (fq_slots q) = fq_write_index q"
  using ring_mod [of "fq_read_index q" "length (fq_slots q)" "in_flight q"] in_flight_less [of q]
  by (auto simp: in_flight_eq fq_ok_def)

lemma other_slots:
  assumes "fq_ok q" "k < in_flight q"
  shows "(fq_read_index q + k) mod length (fq_slots q) \<noteq> fq_write_index q"
  using assms ring_mod [of "fq_read_index q" "length (fq_slots q)" k] in_flight_less [of q]
  by (auto simp: in_flight_eq fq_ok_def split: if_splits)

lemma full_iff: "fq_ok q \<Longrightarrow> increment q (fq_write_index q) = fq_read_index q \<longleftrightarrow> in_flight q = length (fq_slots q) - 1"
  by (auto simp: increment_def in_flight_eq fq_ok_def)

lemma empty_iff: "fq_ok q \<Longrightarrow> fq_read_index q = fq_write_index q \<longleftrightarrow> in_flight q = 0"
  by (auto simp: in_flight_eq fq_ok_def)

lemma length_contents [simp]: "length (fq_contents q) = in_flight q"
  by (simp add: fq_contents_def)

lemma fill_slot_simps [simp]:
  "length (fq_slots (fill_slot q i h p)) = length (fq_slots q)" "fq_payload_capacity (fill_slot q i h p) = fq_payload_capacity q"
  "fq_write_index (fill_slot q i h p) = fq_write_index q" "fq_read_index (fill_slot q i h p) = fq_read_index q"
  by (simp_all add: fill_slot_def Let_def)

lemma fill_slot_nth:
  "i < length (fq_slots q) \<Longrightarrow> slot_record (fq_slots (fill_slot q i h p) ! j) =
     (if j = i then frame_of h p else slot_record (fq_slots q ! j))"
  by (simp add: fill_slot_def Let_def slot_record_def frame_of_def)

lemma fq_ok_fill: "fq_ok q \<Longrightarrow> length p \<le> fq_payload_capacity q \<Longrightarrow> fq_ok (fill_slot q i h p)"
  by (cases "i < length (fq_slots q)")
    (auto simp: fq_ok_def fill_slot_def Let_def list_all_length nth_list_update)

lemma try_push_Queued:
  assumes ok: "fq_ok q" and p: "length p \<le> fq_payload_capacity q" and room: "in_flight q < length (fq_slots q) - 1"
  shows "\<exists>q'. try_push q h p = (Queued, q') \<and> fq_ok q' \<and> fq_contents q' = fq_contents q @ [frame_of h p] \<and>
    length (fq_slots q') = length (fq_slots q) \<and> fq_payload_capacity q' = fq_payload_capacity q"
proof -
  let ?w = "fq_write_index q" and ?n = "length (fq_slots q)"
  let ?q = "(fill_slot q ?w h p)\<lparr>fq_write_index := increment q ?w\<rparr>"
  have w: "?w < ?n" using ok by (simp add: fq_ok_def)
  have "increment q ?w < ?n" using ok w by (auto simp: increment_def fq_ok_def)
  then have ok': "fq_ok ?q" using fq_ok_fill [OF ok p, of ?w h] by (simp add: fq_ok_def)
  have fl: "in_flight ?q = in_flight q + 1"
    using room in_flight_eq [OF ok'] in_flight_eq [OF ok] w ok by (auto simp: increment_def fq_ok_def split: if_splits)
  have "fq_contents ?q = fq_contents q @ [frame_of h p]"
    unfolding fq_contents_def fl
    using w write_slot [OF ok] other_slots [OF ok] by (auto simp: fill_slot_nth)
  then show ?thesis using ok' room full_iff [OF ok] p by (simp add: try_push_def Let_def)
qed

lemma try_push_refused:
  assumes "fq_ok q"
  shows "length p > fq_payload_capacity q \<Longrightarrow> try_push q h p = (PayloadTooLarge, q)"
    "length p \<le> fq_payload_capacity q \<Longrightarrow> in_flight q = length (fq_slots q) - 1 \<Longrightarrow> try_push q h p = (Full, q)"
  using full_iff [OF assms] by (simp_all add: try_push_def Let_def)

lemma try_pop_Some:
  assumes ok: "fq_ok q" and some: "in_flight q \<noteq> 0" and cap: "length (rf_payload (hd (fq_contents q))) \<le> capacity"
  shows "\<exists>q'. try_pop_into q capacity = (Some (hd (fq_contents q)), q') \<and> fq_ok q' \<and> fq_contents q' = tl (fq_contents q) \<and>
    length (fq_slots q') = length (fq_slots q) \<and> fq_payload_capacity q' = fq_payload_capacity q"
proof -
  let ?r = "fq_read_index q" and ?n = "length (fq_slots q)"
  let ?q = "q\<lparr>fq_read_index := increment q ?r\<rparr>"
  have r: "?r < ?n" using ok by (simp add: fq_ok_def)
  have ok': "fq_ok ?q" using ok r by (auto simp: increment_def fq_ok_def)
  have fl: "in_flight q = Suc (in_flight ?q)"
    using some in_flight_eq [OF ok'] in_flight_eq [OF ok] r ok by (auto simp: increment_def fq_ok_def split: if_splits)
  have shift: "(increment q ?r + k) mod ?n = (?r + Suc k) mod ?n" for k
    using increment_eq [OF ok r] by (simp add: mod_add_left_eq)
  have "[0..<in_flight q] = 0 # map Suc [0..<in_flight ?q]" unfolding fl by (simp add: upt_conv_Cons map_Suc_upt del: upt_Suc)
  then have c: "fq_contents q = slot_record (fq_slots q ! ?r) # fq_contents ?q"
    using r shift by (simp add: fq_contents_def)
  have "sl_payload_size (fq_slots q ! ?r) = length (rf_payload (slot_record (fq_slots q ! ?r)))"
    using ok r by (simp add: fq_ok_def list_all_length slot_record_def)
  then show ?thesis using ok' c cap some empty_iff [OF ok] by (simp add: try_pop_into_def Let_def)
qed

lemma try_pop_None:
  "fq_ok q \<Longrightarrow> in_flight q = 0 \<Longrightarrow> try_pop_into q capacity = (None, q)"
  using empty_iff [of q] by (simp add: try_pop_into_def Let_def)

text \<open>Whole records: the producer passes a record's header and payload, the consumer's vector has room for any payload.\<close>

definition header_of :: "raw_frame_record \<Rightarrow> raw_frame_header" where
  "header_of r = \<lparr>hd_capture_index = rf_capture_index r, hd_monotonic_ns = rf_monotonic_ns r, hd_utc_ns = rf_utc_ns r,
     hd_connection_id = rf_connection_id r, hd_direction = rf_direction r, hd_kind = rf_kind r\<rparr>"

definition push_record :: "frame_queue \<Rightarrow> raw_frame_record \<Rightarrow> bool \<times> frame_queue" where
  "push_record q r = (case try_push q (header_of r) (rf_payload r) of (res, q') \<Rightarrow> (res = Queued, q'))"

definition pop_record :: "frame_queue \<Rightarrow> raw_frame_record option \<times> frame_queue" where
  "pop_record q = try_pop_into q (fq_payload_capacity q)"

lemma frame_of_header [simp]: "frame_of (header_of r) (rf_payload r) = r"
  by (simp add: frame_of_def header_of_def)

lemma push_record_cases:
  assumes "fq_ok q"
  shows "if length (rf_payload r) \<le> fq_payload_capacity q \<and> in_flight q < length (fq_slots q) - 1
    then \<exists>q'. push_record q r = (True, q') \<and> fq_ok q' \<and> fq_contents q' = fq_contents q @ [r] \<and>
      length (fq_slots q') = length (fq_slots q)
    else push_record q r = (False, q)"
  using try_push_Queued [OF assms, of "rf_payload r" "header_of r"] try_push_refused [OF assms, where p = "rf_payload r" and h = "header_of r"]
    in_flight_less [OF assms]
  by (cases "length (rf_payload r) \<le> fq_payload_capacity q"; cases "in_flight q < length (fq_slots q) - 1")
    (auto simp: push_record_def)

lemma head_fits:
  assumes "fq_ok q" "in_flight q \<noteq> 0"
  shows "length (rf_payload (hd (fq_contents q))) \<le> fq_payload_capacity q"
proof -
  have "hd (fq_contents q) = slot_record (fq_slots q ! ((fq_read_index q) mod length (fq_slots q)))"
    using assms(2) by (simp add: fq_contents_def hd_map)
  then show ?thesis using assms(1) by (simp add: slot_record_def fq_ok_def list_all_length)
qed

lemma pop_record_cases:
  assumes "fq_ok q"
  shows "if fq_contents q = [] then pop_record q = (None, q)
    else \<exists>q'. pop_record q = (Some (hd (fq_contents q)), q') \<and> fq_ok q' \<and> fq_contents q' = tl (fq_contents q) \<and>
      length (fq_slots q') = length (fq_slots q)"
proof (cases "in_flight q = 0")
  case True
  then have "fq_contents q = []" by (simp add: fq_contents_def)
  with try_pop_None [OF assms True] show ?thesis by (simp add: pop_record_def)
next
  case False
  then have "fq_contents q \<noteq> []" using length_contents [of q] by force
  with try_pop_Some [OF assms False head_fits [OF assms False]] show ?thesis by (auto simp: pop_record_def)
qed

interpretation frame_ring: bounded_fifo fq_ok fq_contents "\<lambda>q. length (fq_slots q) - 1"
  "\<lambda>q r. length (rf_payload r) \<le> fq_payload_capacity q" push_record pop_record
proof
  fix q x assume ok: "fq_ok q"
  show "fq_ok (snd (push_record q x)) \<and> length (fq_slots (snd (push_record q x))) - 1 = length (fq_slots q) - 1"
    "fst (push_record q x) \<longleftrightarrow> length (rf_payload x) \<le> fq_payload_capacity q \<and> length (fq_contents q) < length (fq_slots q) - 1"
    "fq_contents (snd (push_record q x)) = (if fst (push_record q x) then fq_contents q @ [x] else fq_contents q)"
    using push_record_cases [OF ok, of x] ok by (auto split: if_splits)
  show "fq_ok (snd (pop_record q)) \<and> length (fq_slots (snd (pop_record q))) - 1 = length (fq_slots q) - 1"
    "fst (pop_record q) = (case fq_contents q of [] \<Rightarrow> None | x # _ \<Rightarrow> Some x) \<and> fq_contents (snd (pop_record q)) = tl (fq_contents q)"
    using pop_record_cases [OF ok] ok by (cases "fq_contents q"; auto)+
qed

lemma fq_new_ok: "fq_new n capacity = Value q \<Longrightarrow> fq_ok q \<and> fq_contents q = []"
  by (auto simp: fq_new_def fq_ok_def fq_contents_def in_flight_def list_all_iff split: if_splits)

section \<open>Two threads\<close>

text \<open>
  The producer and the consumer interleave at their accesses to the shared indices and slots. An
  acquire load of the other thread's index may return any value of that index from the one this
  thread saw last on, not only the newest: the values an index has had are kept in order, and each
  thread remembers how far it has seen. The slots are plain memory; that both threads never use the same slot at
  the same time is part of what is proved, so that a slot has one value at each time.
\<close>

datatype producer =
    P_idle
  | P_fill nat nat raw_frame_header "u8 list"  \<comment> \<open>the write index and its successor are known, there is room\<close>
  | P_publish nat raw_frame_record  \<comment> \<open>the slot is filled, the successor is to be stored\<close>

datatype consumer =
    C_idle
  | C_copy nat  \<comment> \<open>the read index is known, the queue is not empty\<close>
  | C_release nat raw_frame_record  \<comment> \<open>the record is copied, the index is to be advanced\<close>

record spsc =
  sp_queue :: frame_queue
  sp_producer :: producer
  sp_consumer :: consumer
  sp_writes :: "nat list"
  sp_reads :: "nat list"
  sp_seen_writes :: nat
  sp_seen_reads :: nat
  sp_pushed :: "raw_frame_record list"
  sp_popped :: "raw_frame_record list"

definition spsc_new :: "frame_queue \<Rightarrow> spsc" where
  "spsc_new q = \<lparr>sp_queue = q, sp_producer = P_idle, sp_consumer = C_idle, sp_writes = [fq_write_index q],
     sp_reads = [fq_read_index q], sp_seen_writes = 0, sp_seen_reads = 0, sp_pushed = [], sp_popped = []\<rparr>"

inductive spsc_step :: "spsc \<Rightarrow> spsc \<Rightarrow> bool" where
  push_too_large: "sp_producer s = P_idle \<Longrightarrow> length (payload :: u8 list) > fq_payload_capacity (sp_queue s) \<Longrightarrow> spsc_step s s"
| push_full: "sp_producer s = P_idle \<Longrightarrow> length (payload :: u8 list) \<le> fq_payload_capacity (sp_queue s) \<Longrightarrow>
    sp_seen_reads s \<le> k \<Longrightarrow> k < length (sp_reads s) \<Longrightarrow>
    increment (sp_queue s) (fq_write_index (sp_queue s)) = sp_reads s ! k \<Longrightarrow>
    spsc_step s (s\<lparr>sp_seen_reads := k\<rparr>)"
| push_room: "sp_producer s = P_idle \<Longrightarrow> length payload \<le> fq_payload_capacity (sp_queue s) \<Longrightarrow>
    sp_seen_reads s \<le> k \<Longrightarrow> k < length (sp_reads s) \<Longrightarrow> write = fq_write_index (sp_queue s) \<Longrightarrow>
    nxt = increment (sp_queue s) write \<Longrightarrow> nxt \<noteq> sp_reads s ! k \<Longrightarrow>
    spsc_step s (s\<lparr>sp_seen_reads := k, sp_producer := P_fill write nxt header payload\<rparr>)"
| push_fill: "sp_producer s = P_fill write nxt header payload \<Longrightarrow>
    spsc_step s (s\<lparr>sp_queue := fill_slot (sp_queue s) write header payload,
                   sp_producer := P_publish nxt (frame_of header payload)\<rparr>)"
| push_publish: "sp_producer s = P_publish nxt r \<Longrightarrow>
    spsc_step s (s\<lparr>sp_queue := (sp_queue s)\<lparr>fq_write_index := nxt\<rparr>, sp_producer := P_idle,
                   sp_writes := sp_writes s @ [nxt], sp_pushed := sp_pushed s @ [r]\<rparr>)"
| pop_empty: "sp_consumer s = C_idle \<Longrightarrow> sp_seen_writes s \<le> k \<Longrightarrow> k < length (sp_writes s) \<Longrightarrow>
    fq_read_index (sp_queue s) = sp_writes s ! k \<Longrightarrow>
    spsc_step s (s\<lparr>sp_seen_writes := k\<rparr>)"
| pop_some: "sp_consumer s = C_idle \<Longrightarrow> sp_seen_writes s \<le> k \<Longrightarrow> k < length (sp_writes s) \<Longrightarrow>
    read = fq_read_index (sp_queue s) \<Longrightarrow> read \<noteq> sp_writes s ! k \<Longrightarrow>
    spsc_step s (s\<lparr>sp_seen_writes := k, sp_consumer := C_copy read\<rparr>)"
| pop_too_small: "sp_consumer s = C_copy read \<Longrightarrow> capacity < sl_payload_size (fq_slots (sp_queue s) ! read) \<Longrightarrow>
    spsc_step s (s\<lparr>sp_consumer := C_idle\<rparr>)"
| pop_copy: "sp_consumer s = C_copy read \<Longrightarrow> sl_payload_size (fq_slots (sp_queue s) ! read) \<le> capacity \<Longrightarrow>
    spsc_step s (s\<lparr>sp_consumer := C_release read (slot_record (fq_slots (sp_queue s) ! read))\<rparr>)"
| pop_release: "sp_consumer s = C_release read r \<Longrightarrow>
    spsc_step s (s\<lparr>sp_queue := (sp_queue s)\<lparr>fq_read_index := increment (sp_queue s) read\<rparr>, sp_consumer := C_idle,
                   sp_reads := sp_reads s @ [increment (sp_queue s) read], sp_popped := sp_popped s @ [r]\<rparr>)"

inductive spsc_reachable :: "frame_queue \<Rightarrow> spsc \<Rightarrow> bool" for q where
  start: "spsc_reachable q (spsc_new q)"
| step: "spsc_reachable q s \<Longrightarrow> spsc_step s s' \<Longrightarrow> spsc_reachable q s'"

text \<open>
  The invariant, with \<open>n\<close> slots, \<open>a\<close> pushes and \<open>b\<close> pops so far: each index has counted through the
  ring, at most \<open>n - 1\<close> records are under way by either thread's knowledge, and the slot of each of them
  holds it.
\<close>

definition slots_hold :: "frame_queue \<Rightarrow> raw_frame_record list \<Rightarrow> nat \<Rightarrow> bool" where
  "slots_hold q pushed b \<longleftrightarrow> (\<forall>i. b \<le> i \<and> i < length pushed \<longrightarrow> slot_record (fq_slots q ! (i mod length (fq_slots q))) = pushed ! i)"

definition ring_counts :: "nat \<Rightarrow> nat list \<Rightarrow> nat \<Rightarrow> bool" where
  "ring_counts n xs a \<longleftrightarrow> xs = map (\<lambda>k. k mod n) [0..<Suc a]"

definition spsc_inv :: "nat \<Rightarrow> spsc \<Rightarrow> bool" where
  "spsc_inv n s \<longleftrightarrow>
     (let q = sp_queue s; a = length (sp_pushed s); b = length (sp_popped s)
      in n = length (fq_slots q) \<and> 2 \<le> n \<and> fq_write_index q = a mod n \<and> fq_read_index q = b mod n \<and>
         ring_counts n (sp_writes s) a \<and> ring_counts n (sp_reads s) b \<and>
         sp_seen_reads s \<le> b \<and> b \<le> sp_seen_writes s \<and> sp_seen_writes s \<le> a \<and> a < sp_seen_reads s + n \<and>
         sp_popped s = take b (sp_pushed s) \<and> slots_hold q (sp_pushed s) b \<and>
         (case sp_producer s of P_idle \<Rightarrow> True
          | P_fill w nxt h p \<Rightarrow> w = a mod n \<and> nxt = Suc a mod n \<and> a + 1 < sp_seen_reads s + n
          | P_publish nxt r \<Rightarrow> nxt = Suc a mod n \<and> a + 1 < sp_seen_reads s + n \<and> slot_record (fq_slots q ! (a mod n)) = r) \<and>
         (case sp_consumer s of C_idle \<Rightarrow> True
          | C_copy r \<Rightarrow> r = b mod n \<and> b < sp_seen_writes s
          | C_release r x \<Rightarrow> r = b mod n \<and> b < sp_seen_writes s \<and> x = sp_pushed s ! b))"

lemma ring_counts_nth: "ring_counts n xs a \<Longrightarrow> length xs = Suc a" "ring_counts n xs a \<Longrightarrow> k \<le> a \<Longrightarrow> xs ! k = k mod n"
  by (simp_all add: ring_counts_def del: upt_Suc)

lemma ring_counts_snoc: "ring_counts n xs a \<Longrightarrow> ring_counts n (xs @ [Suc a mod n]) (Suc a)"
  by (simp add: ring_counts_def)

lemma mod_close: "k mod n = a mod n \<Longrightarrow> k \<le> a \<Longrightarrow> a < k + n \<Longrightarrow> k = (a :: nat)"
  by (metis add.commute add_diff_inverse_nat le_add1 less_diff_conv2 mod_less mod_eq_dvd_iff_nat dvd_imp_le
      nat_neq_iff not_less zero_less_diff leD)

lemma increment_mod: "2 \<le> length (fq_slots q) \<Longrightarrow> increment q (a mod length (fq_slots q)) = Suc a mod length (fq_slots q)"
  by (simp add: increment_def mod_Suc)

lemma slots_hold_fill:
  assumes "slots_hold q pushed b" "length pushed < b + length (fq_slots q)" "2 \<le> length (fq_slots q)"
  shows "slots_hold (fill_slot q (length pushed mod length (fq_slots q)) h p) pushed b"
proof -
  have "i mod length (fq_slots q) \<noteq> length pushed mod length (fq_slots q)" if "b \<le> i" "i < length pushed" for i
    using mod_close [of i "length (fq_slots q)" "length pushed"] that assms(2) by linarith
  moreover have "length pushed mod length (fq_slots q) < length (fq_slots q)" using assms(3) by (intro mod_less_divisor) linarith
  ultimately show ?thesis using assms(1) by (simp add: slots_hold_def fill_slot_nth)
qed

lemma slots_hold_snoc:
  "slots_hold q pushed b \<Longrightarrow> slot_record (fq_slots q ! (length pushed mod length (fq_slots q))) = r \<Longrightarrow>
     slots_hold q (pushed @ [r]) b"
  by (auto simp: slots_hold_def nth_append less_Suc_eq)

lemma slots_hold_index [simp]:
  "slots_hold (q\<lparr>fq_write_index := i\<rparr>) pushed b = slots_hold q pushed b"
  "slots_hold (q\<lparr>fq_read_index := i\<rparr>) pushed b = slots_hold q pushed b"
  by (simp_all add: slots_hold_def)

lemma spsc_invD:
  assumes "spsc_inv n s"
  shows "n = length (fq_slots (sp_queue s))" "2 \<le> n" "fq_write_index (sp_queue s) = length (sp_pushed s) mod n"
    "fq_read_index (sp_queue s) = length (sp_popped s) mod n" "ring_counts n (sp_writes s) (length (sp_pushed s))"
    "ring_counts n (sp_reads s) (length (sp_popped s))" "sp_seen_reads s \<le> length (sp_popped s)"
    "length (sp_popped s) \<le> sp_seen_writes s" "sp_seen_writes s \<le> length (sp_pushed s)"
    "length (sp_pushed s) < sp_seen_reads s + n" "sp_popped s = take (length (sp_popped s)) (sp_pushed s)"
    "slots_hold (sp_queue s) (sp_pushed s) (length (sp_popped s))"
  using assms unfolding spsc_inv_def Let_def by blast+

lemma spsc_inv_push_load:
  assumes inv: "spsc_inv n s" and idle: "sp_producer s = P_idle" and k: "sp_seen_reads s \<le> k" "k < length (sp_reads s)"
  shows "spsc_inv n (s\<lparr>sp_seen_reads := k\<rparr>)"
    "increment (sp_queue s) (fq_write_index (sp_queue s)) \<noteq> sp_reads s ! k \<Longrightarrow>
       spsc_inv n (s\<lparr>sp_seen_reads := k, sp_producer :=
         P_fill (fq_write_index (sp_queue s)) (increment (sp_queue s) (fq_write_index (sp_queue s))) h p\<rparr>)"
proof -
  note d = spsc_invD [OF inv]
  have kb: "k \<le> length (sp_popped s)" "sp_reads s ! k = k mod n" using k(2) ring_counts_nth [OF d(6)] by simp_all
  have nxt: "increment (sp_queue s) (fq_write_index (sp_queue s)) = Suc (length (sp_pushed s)) mod n"
    using d(1,2,3) increment_mod by simp
  show "spsc_inv n (s\<lparr>sp_seen_reads := k\<rparr>)"
    using inv idle k(1) kb(1) by (auto simp: spsc_inv_def Let_def split: producer.splits consumer.splits)
  assume "increment (sp_queue s) (fq_write_index (sp_queue s)) \<noteq> sp_reads s ! k"
  then have "Suc (length (sp_pushed s)) mod n \<noteq> k mod n" using kb(2) nxt by simp
  then have "Suc (length (sp_pushed s)) \<noteq> k + n" by auto
  then have "length (sp_pushed s) + 1 < k + n" using d(10) k(1) by linarith
  then show "spsc_inv n (s\<lparr>sp_seen_reads := k, sp_producer :=
      P_fill (fq_write_index (sp_queue s)) (increment (sp_queue s) (fq_write_index (sp_queue s))) h p\<rparr>)"
    using inv k(1) kb(1) nxt d(3) by (auto simp: spsc_inv_def Let_def split: producer.splits consumer.splits)
qed

lemma spsc_inv_push_fill:
  assumes inv: "spsc_inv n s" and pc: "sp_producer s = P_fill w nxt h p"
  shows "spsc_inv n (s\<lparr>sp_queue := fill_slot (sp_queue s) w h p, sp_producer := P_publish nxt (frame_of h p)\<rparr>)"
proof -
  note d = spsc_invD [OF inv]
  have w0: "w = length (sp_pushed s) mod n" using inv pc by (auto simp: spsc_inv_def Let_def split: producer.splits consumer.splits)
  then have w: "w = length (sp_pushed s) mod n" "w < n" using d(2) by simp_all
  have hold: "slots_hold (fill_slot (sp_queue s) w h p) (sp_pushed s) (length (sp_popped s))"
    using slots_hold_fill [OF d(12), of h p] d(1,2,7,10) w(1) by simp
  have "slot_record (fq_slots (fill_slot (sp_queue s) w h p) ! w) = frame_of h p" using w(2) d(1) by (simp add: fill_slot_nth)
  with inv pc hold w show ?thesis by (auto simp: spsc_inv_def Let_def split: producer.splits consumer.splits)
qed

lemma spsc_inv_push_publish:
  assumes inv: "spsc_inv n s" and pc: "sp_producer s = P_publish nxt r"
  shows "spsc_inv n (s\<lparr>sp_queue := (sp_queue s)\<lparr>fq_write_index := nxt\<rparr>, sp_producer := P_idle,
    sp_writes := sp_writes s @ [nxt], sp_pushed := sp_pushed s @ [r]\<rparr>)"
proof -
  note d = spsc_invD [OF inv]
  have p: "nxt = Suc (length (sp_pushed s)) mod n" "slot_record (fq_slots (sp_queue s) ! (length (sp_pushed s) mod n)) = r"
    "length (sp_pushed s) + 1 < sp_seen_reads s + n"
    using inv pc by (auto simp: spsc_inv_def Let_def split: producer.splits consumer.splits)
  have "slots_hold (sp_queue s) (sp_pushed s @ [r]) (length (sp_popped s))"
    using slots_hold_snoc [OF d(12)] p(2) d(1) by simp
  moreover have "ring_counts n (sp_writes s @ [nxt]) (Suc (length (sp_pushed s)))" using ring_counts_snoc [OF d(5)] p(1) by simp
  moreover have "(sp_pushed s @ [r]) ! length (sp_popped s) = sp_pushed s ! length (sp_popped s)" if "length (sp_popped s) < sp_seen_writes s"
    using that d(9) by (simp add: nth_append)
  moreover have "length (sp_popped s) \<le> length (sp_pushed s)" using d(8,9) by simp
  ultimately show ?thesis using inv p(1,3) by (auto simp: spsc_inv_def Let_def split: producer.splits consumer.splits)
qed

lemma spsc_inv_pop_load:
  assumes inv: "spsc_inv n s" and idle: "sp_consumer s = C_idle" and k: "sp_seen_writes s \<le> k" "k < length (sp_writes s)"
  shows "spsc_inv n (s\<lparr>sp_seen_writes := k\<rparr>)"
    "fq_read_index (sp_queue s) \<noteq> sp_writes s ! k \<Longrightarrow>
       spsc_inv n (s\<lparr>sp_seen_writes := k, sp_consumer := C_copy (fq_read_index (sp_queue s))\<rparr>)"
proof -
  note d = spsc_invD [OF inv]
  have kb: "k \<le> length (sp_pushed s)" "sp_writes s ! k = k mod n" using k(2) ring_counts_nth [OF d(5)] by simp_all
  show "spsc_inv n (s\<lparr>sp_seen_writes := k\<rparr>)"
    using inv idle k(1) kb(1) by (auto simp: spsc_inv_def Let_def split: producer.splits consumer.splits)
  assume "fq_read_index (sp_queue s) \<noteq> sp_writes s ! k"
  then have "length (sp_popped s) \<noteq> k" using kb(2) d(4) by auto
  then have "length (sp_popped s) < k" using d(8) k(1) by simp
  then show "spsc_inv n (s\<lparr>sp_seen_writes := k, sp_consumer := C_copy (fq_read_index (sp_queue s))\<rparr>)"
    using inv k(1) kb(1) d(4) by (auto simp: spsc_inv_def Let_def split: producer.splits consumer.splits)
qed

lemma spsc_inv_pop_copy:
  assumes inv: "spsc_inv n s" and pc: "sp_consumer s = C_copy r"
  shows "spsc_inv n (s\<lparr>sp_consumer := C_release r (slot_record (fq_slots (sp_queue s) ! r))\<rparr>)"
    "spsc_inv n (s\<lparr>sp_consumer := C_idle\<rparr>)"
proof -
  note d = spsc_invD [OF inv]
  have "r = length (sp_popped s) mod n" "length (sp_popped s) < sp_seen_writes s" using inv pc by (auto simp: spsc_inv_def Let_def split: producer.splits consumer.splits)
  moreover from this have "slot_record (fq_slots (sp_queue s) ! r) = sp_pushed s ! length (sp_popped s)"
    using d(1,9,12) by (simp add: slots_hold_def)
  ultimately show "spsc_inv n (s\<lparr>sp_consumer := C_release r (slot_record (fq_slots (sp_queue s) ! r))\<rparr>)"
    using inv by (auto simp: spsc_inv_def Let_def split: producer.splits consumer.splits)
  show "spsc_inv n (s\<lparr>sp_consumer := C_idle\<rparr>)" using inv by (auto simp: spsc_inv_def Let_def split: producer.splits consumer.splits)
qed

lemma spsc_inv_pop_release:
  assumes inv: "spsc_inv n s" and pc: "sp_consumer s = C_release r x"
  shows "spsc_inv n (s\<lparr>sp_queue := (sp_queue s)\<lparr>fq_read_index := increment (sp_queue s) r\<rparr>, sp_consumer := C_idle,
    sp_reads := sp_reads s @ [increment (sp_queue s) r], sp_popped := sp_popped s @ [x]\<rparr>)"
proof -
  note d = spsc_invD [OF inv]
  let ?b = "length (sp_popped s)"
  have p: "r = ?b mod n" "?b < sp_seen_writes s" "x = sp_pushed s ! ?b" using inv pc by (auto simp: spsc_inv_def Let_def split: producer.splits consumer.splits)
  have inc: "increment (sp_queue s) r = Suc ?b mod n" using p(1) d(1,2) increment_mod by simp
  have "ring_counts n (sp_reads s @ [Suc ?b mod n]) (Suc ?b)" by (rule ring_counts_snoc [OF d(6)])
  moreover have "sp_popped s @ [x] = take (Suc ?b) (sp_pushed s)"
    using p d(9,11) by (metis order_less_le_trans take_Suc_conv_app_nth)
  moreover have "slots_hold (sp_queue s) (sp_pushed s) (Suc ?b)" using d(12) by (simp add: slots_hold_def)
  ultimately show ?thesis using inv p(2) unfolding inc by (auto simp: spsc_inv_def Let_def split: producer.splits consumer.splits)
qed

lemma spsc_inv_step: "spsc_step s s' \<Longrightarrow> spsc_inv n s \<Longrightarrow> spsc_inv n s'"
  by (induction rule: spsc_step.induct)
    (simp_all add: spsc_inv_push_load spsc_inv_push_fill spsc_inv_push_publish spsc_inv_pop_load spsc_inv_pop_copy spsc_inv_pop_release)

lemma spsc_inv_reachable:
  assumes "fq_new n capacity = Value q" "spsc_reachable q s"
  shows "spsc_inv n s"
  using assms(2)
proof (induction rule: spsc_reachable.induct)
  case start
  then show ?case using assms(1)
    by (auto simp: fq_new_def spsc_new_def spsc_inv_def slots_hold_def ring_counts_def split: if_splits)
next
  case (step s s')
  then show ?case by (simp add: spsc_inv_step)
qed

section \<open>Properties\<close>

text \<open>
  C24. The queue between a producer and a consumer that run at the same time delivers first in, first
  out: in every state that any interleaving of their accesses reaches, with each index load returning
  any value not older than the last one seen, the records taken out are a prefix of the records put in, whole and in order,
  at most one less than the slots are under way, and the two threads are never at the same slot.
\<close>

theorem spsc_delivers_in_order:
  assumes "fq_new n capacity = Value q" "spsc_reachable q s"
  shows "(\<exists>rest. sp_pushed s = sp_popped s @ rest \<and> length rest < n) \<and>
    (\<forall>w nxt h p r. sp_producer s = P_fill w nxt h p \<and> sp_consumer s = C_copy r \<longrightarrow> w \<noteq> r)"
proof
  have inv: "spsc_inv n s" by (rule spsc_inv_reachable [OF assms])
  note d = spsc_invD [OF inv]
  have "sp_pushed s = sp_popped s @ drop (length (sp_popped s)) (sp_pushed s)" using d(11) by (metis append_take_drop_id)
  moreover have "length (drop (length (sp_popped s)) (sp_pushed s)) < n" using d(2,7,10) by simp
  ultimately show "\<exists>rest. sp_pushed s = sp_popped s @ rest \<and> length rest < n" by blast
  show "\<forall>w nxt h p r. sp_producer s = P_fill w nxt h p \<and> sp_consumer s = C_copy r \<longrightarrow> w \<noteq> r"
  proof (intro allI impI)
    fix w nxt h p r
    assume "sp_producer s = P_fill w nxt h p \<and> sp_consumer s = C_copy r"
    then have "w = length (sp_pushed s) mod n" "r = length (sp_popped s) mod n" "length (sp_popped s) < sp_seen_writes s"
      using inv by (auto simp: spsc_inv_def Let_def)
    then show "w \<noteq> r" using mod_close [of "length (sp_popped s)" n "length (sp_pushed s)"] d(7,9,10) by auto
  qed
qed

text \<open>
  On its own, the ring is a bounded queue: for any sequence of pushes and pops from the
  constructor on, what was accepted is what came out followed by what is still inside.
\<close>

theorem frame_queue_fifo:
  assumes "fq_new n capacity = Value q" "fifo_run push_record pop_record q ops = (ins, outs, q')"
  shows "ins = outs @ fq_contents q'"
  using frame_ring.run_fifo [OF _ assms(2)] fq_new_ok [OF assms(1)] by simp

definition sample_queue :: frame_queue where
  "sample_queue = (case fq_new 2 4 of Value q \<Rightarrow> q)"

lemma sample_queue_new: "fq_new 2 4 = Value sample_queue"
  by (simp add: sample_queue_def fq_new_def)

theorem frame_queue_fifo_witness:
  "\<exists>q'. fifo_run push_record pop_record sample_queue [Some sample_frame, Some sample_frame, None] = ([sample_frame], [sample_frame], q') \<and>
     fq_contents q' = []"
proof -
  let ?q' = "snd (snd (fifo_run push_record pop_record sample_queue [Some sample_frame, Some sample_frame, None]))"
  have r: "fifo_run push_record pop_record sample_queue [Some sample_frame, Some sample_frame, None] = ([sample_frame], [sample_frame], ?q')"
    by code_simp
  from frame_queue_fifo [OF sample_queue_new r] r show ?thesis by auto
qed

text \<open>One push and the pop that follows it, as steps of the two threads.\<close>

lemma sample_queue_eq:
  "sample_queue = \<lparr>fq_slots = replicate 2 \<lparr>sl_header = zero_header, sl_payload_size = 0, sl_payload = replicate 4 0\<rparr>,
     fq_payload_capacity = 4, fq_write_index = 0, fq_read_index = 0\<rparr>"
  by (simp add: sample_queue_def fq_new_def)

lemma sample_delivery: "\<exists>s. spsc_reachable sample_queue s \<and> sp_popped s = [sample_frame]"
proof -
  define h where "h = header_of sample_frame"
  define s1 where "s1 = (spsc_new sample_queue)\<lparr>sp_seen_reads := 0, sp_producer := P_fill 0 1 h [123, 125]\<rparr>"
  define s2 where "s2 = s1\<lparr>sp_queue := fill_slot (sp_queue s1) 0 h [123, 125], sp_producer := P_publish 1 (frame_of h [123, 125])\<rparr>"
  define s3 where "s3 = s2\<lparr>sp_queue := (sp_queue s2)\<lparr>fq_write_index := 1\<rparr>, sp_producer := P_idle,
    sp_writes := sp_writes s2 @ [1], sp_pushed := sp_pushed s2 @ [frame_of h [123, 125]]\<rparr>"
  define s4 where "s4 = s3\<lparr>sp_seen_writes := 1, sp_consumer := C_copy 0\<rparr>"
  define s5 where "s5 = s4\<lparr>sp_consumer := C_release 0 (slot_record (fq_slots (sp_queue s4) ! 0))\<rparr>"
  define s6 where "s6 = s5\<lparr>sp_queue := (sp_queue s5)\<lparr>fq_read_index := increment (sp_queue s5) 0\<rparr>, sp_consumer := C_idle,
    sp_reads := sp_reads s5 @ [increment (sp_queue s5) 0], sp_popped := sp_popped s5 @ [slot_record (fq_slots (sp_queue s4) ! 0)]\<rparr>"
  note defs = spsc_new_def sample_queue_eq increment_def
  have "spsc_reachable sample_queue s1" unfolding s1_def
    by (rule spsc_reachable.step [OF spsc_reachable.start spsc_step.push_room]) (simp_all add: defs)
  then have "spsc_reachable sample_queue s2" unfolding s2_def
    by (rule spsc_reachable.step [OF _ spsc_step.push_fill]) (simp add: s1_def)
  then have "spsc_reachable sample_queue s3" unfolding s3_def
    by (rule spsc_reachable.step [OF _ spsc_step.push_publish]) (simp add: s2_def)
  then have "spsc_reachable sample_queue s4" unfolding s4_def
    by (rule spsc_reachable.step [OF _ spsc_step.pop_some]) (simp_all add: s3_def s2_def s1_def defs)
  then have "spsc_reachable sample_queue s5" unfolding s5_def
    by (rule spsc_reachable.step [OF _ spsc_step.pop_copy [where capacity = 4]]) (simp_all add: s4_def s3_def s2_def s1_def defs fill_slot_def)
  then have "spsc_reachable sample_queue s6" unfolding s6_def
    by (rule spsc_reachable.step [OF _ spsc_step.pop_release]) (simp add: s5_def)
  moreover have "slot_record (fq_slots (sp_queue s4) ! 0) = sample_frame"
    by (simp add: s4_def s3_def s2_def s1_def defs fill_slot_nth h_def frame_of_def header_of_def sample_frame_def)
  then have "sp_popped s6 = [sample_frame]" by (simp add: s6_def s5_def s4_def s3_def s2_def s1_def spsc_new_def)
  ultimately show ?thesis by blast
qed

theorem spsc_delivers_in_order_witness:
  "\<exists>s. spsc_reachable sample_queue s \<and> sp_popped s = [sample_frame] \<and>
     (\<exists>rest. sp_pushed s = sp_popped s @ rest \<and> length rest < 2)"
  using sample_delivery spsc_delivers_in_order [OF sample_queue_new] by blast

end
