(* ===== verification/Async_Recorder.thy ===== *)
theory Async_Recorder
  imports Raw_Frame_Queue Raw_Frame_Capture
begin

text \<open>
  The recorder of the capture program, \<open>AsyncRecorder\<close> (\<open>cpp/benchmarks/bybit_l2_capture.cpp\<close>): callers hand frames to a queue,
  a worker thread takes them out and appends them to the capture file, and \<open>close\<close> asks the worker to finish and
  waits for it. The calls and the steps of the worker interleave in any order; a queue operation is one
  step, since the ring on its own delivers in order under any interleaving of its accesses.
\<close>

section \<open>State\<close>

text \<open>Where the worker is in \<open>run\<close>.\<close>

datatype worker = Popping | Appending raw_frame_record | Checking | Finalizing | Finished

text \<open>
  The last three fields are not in the code: how a \<open>close\<close> that waits for the worker has returned (nothing
  before, then the exception, if any), and which frames were accepted and written so far.
\<close>

record recorder =
  ar_queue :: frame_queue
  ar_writer :: capture_writer
  ar_producer_closed :: bool
  ar_closed :: bool
  ar_finalize :: bool
  ar_writer_failed :: bool
  ar_worker :: worker
  ar_close_returned :: "exn option option"
  ar_recorded :: "raw_frame_record list"
  ar_written :: "raw_frame_record list"

definition ar_new :: "files \<Rightarrow> path \<Rightarrow> string \<Rightarrow> u8 list \<Rightarrow> bool \<Rightarrow> io \<Rightarrow> recorder result" where
  "ar_new fs path stamp topic opened io =
     (case fq_new 4096 raw_frame_max_payload of
        Raise x \<Rightarrow> Raise x
      | Loops \<Rightarrow> Loops
      | Value q \<Rightarrow>
          (case cw_open fs path stamp topic opened io of
             Threw x w \<Rightarrow> Raise x
           | Diverges \<Rightarrow> Loops
           | Done w \<Rightarrow> Value \<lparr>ar_queue = q, ar_writer = w, ar_producer_closed = False, ar_closed = False, ar_finalize = False,
               ar_writer_failed = False, ar_worker = Popping, ar_close_returned = None, ar_recorded = [], ar_written = []\<rparr>))"

section \<open>Calls\<close>

definition ar_record :: "recorder \<Rightarrow> raw_frame_record \<Rightarrow> recorder outcome" where
  "ar_record a r =
     (if ar_producer_closed a then Threw (Runtime_error ''capture recorder is closing'') a
      else if ar_writer_failed a then Threw (Runtime_error ''capture writer failed'') a
      else case try_push (ar_queue a) (header_of r) (rf_payload r) of (res, q) \<Rightarrow>
        if res \<noteq> Queued
        then Threw (Runtime_error (if res = Full then ''capture queue overflow'' else ''capture frame too large'')) (a\<lparr>ar_queue := q\<rparr>)
        else Done (a\<lparr>ar_queue := q, ar_recorded := ar_recorded a @ [r]\<rparr>))"

text \<open>The locked part of \<open>close\<close> and of \<open>abort\<close>; a second call does nothing.\<close>

definition ar_close :: "recorder \<Rightarrow> recorder" where
  "ar_close a = (if ar_closed a then a else a\<lparr>ar_closed := True, ar_finalize := True, ar_producer_closed := True\<rparr>)"

definition ar_abort :: "recorder \<Rightarrow> recorder" where
  "ar_abort a = (if ar_closed a then a else a\<lparr>ar_closed := True, ar_producer_closed := True\<rparr>)"

text \<open>The rest of \<open>close\<close>, when the worker has ended.\<close>

definition ar_join :: "recorder \<Rightarrow> recorder" where
  "ar_join a =
     (if ar_finalize a \<and> ar_worker a = Finished
      then a\<lparr>ar_close_returned := Some (if ar_writer_failed a then Some (Runtime_error ''capture writer failed'') else None)\<rparr>
      else a)"

section \<open>The worker\<close>

definition ar_fail :: "recorder \<Rightarrow> recorder" where
  "ar_fail a = a\<lparr>ar_writer_failed := True, ar_worker := Finished\<rparr>"

definition worker_step :: "recorder \<Rightarrow> io \<Rightarrow> recorder" where
  "worker_step a io =
     (case ar_worker a of
        Popping \<Rightarrow>
          (case try_pop_into (ar_queue a) (fq_payload_capacity (ar_queue a)) of
             (Some r, q) \<Rightarrow> a\<lparr>ar_queue := q, ar_worker := Appending r\<rparr>
           | (None, q) \<Rightarrow> a\<lparr>ar_queue := q, ar_worker := Checking\<rparr>)
      | Appending r \<Rightarrow>
          (case cw_append (ar_writer a) r io of
             Done w \<Rightarrow> a\<lparr>ar_writer := w, ar_worker := Popping, ar_written := ar_written a @ [r]\<rparr>
           | Threw x w \<Rightarrow> ar_fail (a\<lparr>ar_writer := w\<rparr>)
           | Diverges \<Rightarrow> a)
      | Checking \<Rightarrow> a\<lparr>ar_worker := if ar_producer_closed a then Finalizing else Popping\<rparr>
      | Finalizing \<Rightarrow>
          if ar_finalize a
          then (case cw_close (ar_writer a) io of
                  Done w \<Rightarrow> a\<lparr>ar_writer := w, ar_worker := Finished\<rparr>
                | Threw x w \<Rightarrow> ar_fail (a\<lparr>ar_writer := w\<rparr>)
                | Diverges \<Rightarrow> a)
          else a\<lparr>ar_worker := Finished\<rparr>
      | Finished \<Rightarrow> a)"

text \<open>A schedule of calls and of worker steps, these with the fate of the write they may do.\<close>

datatype recorder_turn = Record raw_frame_record | Close | Abort | Join | Work io

fun ar_step :: "recorder \<Rightarrow> recorder_turn \<Rightarrow> recorder" where
  "ar_step a (Record r) = (case ar_record a r of Done a' \<Rightarrow> a' | Threw x a' \<Rightarrow> a' | Diverges \<Rightarrow> a)"
| "ar_step a Close = ar_close a"
| "ar_step a Abort = ar_abort a"
| "ar_step a Join = ar_join a"
| "ar_step a (Work io) = worker_step a io"

section \<open>What is accepted is written in order\<close>

definition pending :: "recorder \<Rightarrow> raw_frame_record list" where
  "pending a = (case ar_worker a of Appending r \<Rightarrow> [r] | _ \<Rightarrow> []) @ fq_contents (ar_queue a)"

definition ar_inv :: "files \<Rightarrow> path \<Rightarrow> u8 list \<Rightarrow> recorder \<Rightarrow> bool" where
  "ar_inv fs path topic a \<longleftrightarrow>
     fq_ok (ar_queue a) \<and> cw_inv fs path topic (ar_writer a) (ar_written a) \<and>
     (ar_producer_closed a \<longleftrightarrow> ar_closed a) \<and> (ar_finalize a \<longrightarrow> ar_closed a) \<and>
     (ar_worker a = Finalizing \<longrightarrow> ar_closed a) \<and>
     (ar_worker a \<noteq> Finished \<longrightarrow> \<not> ar_writer_failed a \<and> \<not> cw_closed (ar_writer a)) \<and>
     (ar_worker a = Finished \<and> \<not> ar_writer_failed a \<longrightarrow> ar_closed a \<and> (ar_finalize a \<longrightarrow> cw_closed (ar_writer a))) \<and>
     (if ar_writer_failed a then \<exists>rest. ar_recorded a = ar_written a @ rest else ar_recorded a = ar_written a @ pending a) \<and>
     (ar_close_returned a = Some None \<longrightarrow> ar_worker a = Finished \<and> \<not> ar_writer_failed a \<and> ar_finalize a)"

lemma push_outcome:
  assumes "fq_ok q" "try_push q (header_of r) (rf_payload r) = (res, q')"
  shows "fq_ok q' \<and> fq_contents q' = (if res = Queued then fq_contents q @ [r] else fq_contents q)"
  using frame_ring.push_ok [OF assms(1), of r] frame_ring.push_contents [OF assms(1), of r] assms(2) by (simp add: push_record_def)

lemma pop_outcome:
  assumes "fq_ok q" "try_pop_into q (fq_payload_capacity q) = (y, q')"
  shows "fq_ok q' \<and> fq_contents q = (case y of None \<Rightarrow> fq_contents q' | Some r \<Rightarrow> r # fq_contents q')"
  using frame_ring.pop_ok [OF assms(1)] frame_ring.pop_contents [OF assms(1)] assms(2)
  by (auto simp: pop_record_def split: list.splits)

lemma ar_inv_new:
  assumes "ar_new fs path stamp topic opened io = Value a"
  shows "ar_inv fs path topic a"
proof -
  obtain q w where q: "fq_new 4096 raw_frame_max_payload = Value q" and w: "cw_open fs path stamp topic opened io = Done w"
    and a: "a = \<lparr>ar_queue = q, ar_writer = w, ar_producer_closed = False, ar_closed = False, ar_finalize = False,
      ar_writer_failed = False, ar_worker = Popping, ar_close_returned = None, ar_recorded = [], ar_written = []\<rparr>"
    using assms by (auto simp: ar_new_def split: result.splits outcome.splits)
  have "\<not> cw_closed w" using w by (auto simp: cw_open_def Let_def split: if_splits)
  with fq_new_ok [OF q] cw_inv_opened [OF w] show ?thesis by (simp add: ar_inv_def a pending_def)
qed

lemma ar_inv_record: "ar_inv fs path topic a \<Longrightarrow> ar_inv fs path topic (ar_step a (Record r))"
  using push_outcome [of "ar_queue a" r]
  by (auto simp: ar_record_def ar_inv_def pending_def split: prod.splits)

lemma ar_inv_calls:
  assumes "ar_inv fs path topic a"
  shows "ar_inv fs path topic (ar_close a)" "ar_inv fs path topic (ar_abort a)" "ar_inv fs path topic (ar_join a)"
  using assms by (auto simp: ar_inv_def ar_close_def ar_abort_def ar_join_def pending_def)

lemma cw_open_after_append:
  "cw_append w r io = Done w' \<Longrightarrow> \<not> cw_closed w'" "cw_append w r io = Threw x w' \<Longrightarrow> \<not> cw_closed w \<Longrightarrow> \<not> cw_closed w'"
  by (auto simp: cw_append_def Let_def split: if_splits)

lemma cw_closed_after_close: "cw_close w io = Done w' \<Longrightarrow> cw_closed w'"
  by (auto simp: cw_close_def Let_def split: if_splits)

lemma ar_inv_worker:
  assumes inv: "ar_inv fs path topic a"
  shows "ar_inv fs path topic (worker_step a io)"
proof (cases "ar_worker a")
  case Popping
  obtain y q where "try_pop_into (ar_queue a) (fq_payload_capacity (ar_queue a)) = (y, q)" by fastforce
  with Popping inv pop_outcome [of "ar_queue a" y q] show ?thesis
    by (cases y) (auto simp: worker_step_def ar_inv_def pending_def)
next
  case (Appending r)
  with inv show ?thesis
    by (cases "cw_append (ar_writer a) r io")
      (auto simp: worker_step_def ar_inv_def ar_fail_def pending_def dest: cw_inv_append cw_open_after_append)
next
  case Finalizing
  with inv show ?thesis
    by (cases "cw_close (ar_writer a) io")
      (auto simp: worker_step_def ar_inv_def ar_fail_def pending_def dest: cw_inv_close cw_closed_after_close)
qed (use inv in \<open>auto simp: worker_step_def ar_inv_def pending_def\<close>)

lemma ar_inv_run: "ar_inv fs path topic a \<Longrightarrow> ar_inv fs path topic (foldl ar_step a turns)"
proof (induction turns arbitrary: a)
  case (Cons t turns)
  have "ar_inv fs path topic (ar_step a t)"
    using Cons.prems ar_inv_calls ar_inv_worker ar_inv_record by (cases t) auto
  with Cons.IH show ?case by simp
qed simp

section \<open>Properties\<close>

text \<open>
  C23. Whatever the interleaving of calls and worker and whichever writes fail, the frames written are a prefix
  of the frames accepted, in order; the final path never holds anything but the complete capture
  of the frames written; and when \<open>close\<close> returns without an exception that capture is there, and the frames accepted
  are those written followed by those still in the queue.
\<close>

theorem recorder_captures_in_order:
  assumes "ar_new fs path stamp topic opened io = Value a"
  shows "let a' = foldl ar_step a turns
    in (\<exists>rest. ar_recorded a' = ar_written a' @ rest) \<and>
       cw_files (ar_writer a') path \<in> {None, Some (capture_bytes topic (ar_written a'))} \<and>
       (ar_close_returned a' = Some None \<longrightarrow>
          cw_files (ar_writer a') path = Some (capture_bytes topic (ar_written a')) \<and>
          ar_recorded a' = ar_written a' @ fq_contents (ar_queue a'))"
proof -
  define a' where "a' = foldl ar_step a turns"
  have "ar_inv fs path topic a'" unfolding a'_def by (intro ar_inv_run ar_inv_new [OF assms])
  then show ?thesis
    by (auto simp: ar_inv_def cw_inv_def pending_def Let_def simp flip: a'_def split: if_splits)
qed

text \<open>The worker finds the queue empty; then a frame is recorded and the recorder closed; then the worker goes on.\<close>

definition losing_schedule :: "raw_frame_record \<Rightarrow> recorder_turn list" where
  "losing_schedule r = [Work Stored, Record r, Close, Work Stored, Work Stored, Join]"

lemma writer_opened:
  assumes "cw_open fs path stamp topic opened Stored = Done w"
  shows "\<exists>w'. cw_close w Stored = Done w'"
proof -
  have "cw_inv fs path topic w []" "\<not> cw_closed w" "cw_good w"
    using assms cw_inv_opened [OF assms] by (auto simp: cw_open_def Let_def split: if_splits)
  then show ?thesis by (auto simp: cw_close_def cw_inv_def write_file_def Let_def)
qed

lemma losing_run:
  assumes new: "ar_new fs path stamp topic True Stored = Value a" and fits: "length (rf_payload r) \<le> raw_frame_max_payload"
  shows "let a' = foldl ar_step a (losing_schedule r)
    in ar_close_returned a' = Some None \<and> ar_recorded a' = [r] \<and> ar_written a' = []"
proof -
  obtain q w where q: "fq_new 4096 raw_frame_max_payload = Value q" and w: "cw_open fs path stamp topic True Stored = Done w"
    and a: "a = \<lparr>ar_queue = q, ar_writer = w, ar_producer_closed = False, ar_closed = False, ar_finalize = False,
      ar_writer_failed = False, ar_worker = Popping, ar_close_returned = None, ar_recorded = [], ar_written = []\<rparr>"
    using new by (auto simp: ar_new_def split: result.splits outcome.splits)
  have i: "fq_write_index q = 0" "fq_read_index q = 0" "length (fq_slots q) = 4096" "fq_payload_capacity q = raw_frame_max_payload"
    using q by (auto simp: fq_new_def split: if_splits)
  then have pop: "try_pop_into q c = (None, q)" for c by (simp add: try_pop_into_def)
  obtain q' where push: "try_push q (header_of r) (rf_payload r) = (Queued, q')"
    using i fits by (simp add: try_push_def increment_def Let_def)
  obtain w' where "cw_close w Stored = Done w'" using writer_opened [OF w] by blast
  then show ?thesis
    by (simp add: a losing_schedule_def worker_step_def pop ar_record_def push ar_close_def ar_join_def)
qed

text \<open>
  C38. A recorder can lose its last frame without a sign: for every frame there is a schedule in which it is accepted,
  \<open>close\<close> returns without an exception, and the published capture does not have the frame. The worker
  tests the flag that ends it after it found the queue empty, and does not look into the queue again.
\<close>

theorem recorder_loses_last_frame:
  assumes "ar_new fs path stamp topic True Stored = Value a" "length (rf_payload r) \<le> raw_frame_max_payload"
  shows "let a' = foldl ar_step a (losing_schedule r)
    in ar_close_returned a' = Some None \<and> ar_recorded a' = [r] \<and> cw_files (ar_writer a') path = Some (capture_bytes topic [])"
proof -
  define a' where "a' = foldl ar_step a (losing_schedule r)"
  have lost: "ar_close_returned a' = Some None" "ar_recorded a' = [r]" "ar_written a' = []"
    using losing_run [OF assms] by (simp_all add: Let_def a'_def)
  have "ar_inv fs path topic a'" unfolding a'_def by (intro ar_inv_run ar_inv_new [OF assms(1)])
  with lost have "cw_files (ar_writer a') path = Some (capture_bytes topic [])"
    by (auto simp: ar_inv_def cw_inv_def split: if_splits)
  with lost show ?thesis by (simp add: Let_def flip: a'_def)
qed

lemma sample_recorder: "\<exists>a :: recorder. ar_new (\<lambda>_. None) ''a'' ''1'' [116] True Stored = Value a"
proof -
  have "\<exists>q. fq_new 4096 raw_frame_max_payload = Value q" by (simp add: fq_new_def raw_frame_max_payload_def)
  moreover have "\<exists>w. cw_open (\<lambda>_. None) ''a'' ''1'' [116] True Stored = Done w"
    by (simp add: cw_open_def write_file_def raw_capture_max_metadata_def Let_def)
  ultimately show ?thesis by (auto simp: ar_new_def)
qed

theorem recorder_loses_last_frame_witness:
  "\<exists>a. ar_new (\<lambda>_. None) ''a'' ''1'' [116] True Stored = Value a \<and>
     (let a' = foldl ar_step a (losing_schedule sample_frame)
      in ar_close_returned a' = Some None \<and> ar_recorded a' = [sample_frame] \<and> cw_files (ar_writer a') ''a'' = Some (capture_bytes [116] []))"
proof -
  obtain a where a: "ar_new (\<lambda>_. None) ''a'' ''1'' [116] True Stored = Value a" using sample_recorder by blast
  from recorder_loses_last_frame [OF a, of sample_frame] a show ?thesis
    by (auto simp: sample_frame_def raw_frame_max_payload_def Let_def)
qed

text \<open>A frame that the worker takes out in time is in the capture.\<close>

definition saving_schedule :: "raw_frame_record \<Rightarrow> recorder_turn list" where
  "saving_schedule r = [Record r, Work Stored, Work Stored, Close, Work Stored, Work Stored, Work Stored, Join]"

lemma saving_run:
  assumes new: "ar_new fs path stamp topic True Stored = Value a" and fits: "length (rf_payload r) \<le> raw_frame_max_payload"
  shows "let a' = foldl ar_step a (saving_schedule r) in ar_close_returned a' = Some None \<and> ar_written a' = [r]"
proof -
  obtain q w where q: "fq_new 4096 raw_frame_max_payload = Value q" and w: "cw_open fs path stamp topic True Stored = Done w"
    and a: "a = \<lparr>ar_queue = q, ar_writer = w, ar_producer_closed = False, ar_closed = False, ar_finalize = False,
      ar_writer_failed = False, ar_worker = Popping, ar_close_returned = None, ar_recorded = [], ar_written = []\<rparr>"
    using new by (auto simp: ar_new_def split: result.splits outcome.splits)
  have i: "fq_write_index q = 0" "fq_read_index q = 0" "length (fq_slots q) = 4096" "fq_payload_capacity q = raw_frame_max_payload"
    using q by (auto simp: fq_new_def split: if_splits)
  obtain q1 where push: "try_push q (header_of r) (rf_payload r) = (Queued, q1)"
    using i fits by (simp add: try_push_def increment_def Let_def)
  obtain y q2 where pop: "try_pop_into q1 (fq_payload_capacity q1) = (y, q2)" by fastforce
  obtain z q3 where pop2: "try_pop_into q2 (fq_payload_capacity q2) = (z, q3)" by fastforce
  have q1: "fq_ok q1" "fq_contents q1 = [r]" using push_outcome [OF _ push] fq_new_ok [OF q] by simp_all
  have y: "y = Some r" "fq_ok q2" "fq_contents q2 = []"
    using frame_ring.pop_ok [OF q1(1)] frame_ring.pop_contents [OF q1(1)] pop q1(2) by (simp_all add: pop_record_def)
  have z: "z = None" using frame_ring.pop_contents [OF y(2)] pop2 y(3) by (simp add: pop_record_def)
  have inv: "cw_inv fs path topic w []" "\<not> cw_closed w" "cw_good w"
    using w cw_inv_opened [OF w] by (auto simp: cw_open_def Let_def split: if_splits)
  then obtain w1 where w1: "cw_append w r Stored = Done w1" "cw_good w1" by (auto simp: cw_append_def write_file_def Let_def)
  obtain w2 where w2: "cw_close w1 Stored = Done w2"
    using cw_inv_append(1) [OF inv(1) w1(1)] cw_open_after_append(1) [OF w1(1)] w1(2)
    by (auto simp: cw_close_def cw_inv_def write_file_def Let_def)
  show ?thesis using pop pop2 y(1) z
    by (simp add: a saving_schedule_def worker_step_def ar_record_def push w1(1) w2 ar_close_def ar_join_def)
qed

theorem recorder_captures_in_order_witness:
  "\<exists>a. ar_new (\<lambda>_. None) ''a'' ''1'' [116] True Stored = Value a \<and>
     (let a' = foldl ar_step a (saving_schedule sample_frame)
      in ar_close_returned a' = Some None \<and> cw_files (ar_writer a') ''a'' = Some (capture_bytes [116] [sample_frame]))"
proof -
  obtain a where new: "ar_new (\<lambda>_. None) ''a'' ''1'' [116] True Stored = Value a" using sample_recorder by blast
  have "length (rf_payload sample_frame) \<le> raw_frame_max_payload" by (simp add: sample_frame_def raw_frame_max_payload_def)
  from saving_run [OF new this] recorder_captures_in_order [OF new, of "saving_schedule sample_frame"] new show ?thesis
    by (auto simp: Let_def)
qed

section \<open>Closing ends\<close>

text \<open>
  How many steps the worker still needs once the recorder is closed, if no write fails, and which
  frames it will leave behind: none as long as it has not found the queue empty.
\<close>

definition remaining :: "recorder \<Rightarrow> nat" where
  "remaining a =
     (case ar_worker a of
        Popping \<Rightarrow> 2 * length (fq_contents (ar_queue a)) + 3
      | Appending r \<Rightarrow> 2 * length (fq_contents (ar_queue a)) + 4
      | Checking \<Rightarrow> 2
      | Finalizing \<Rightarrow> 1
      | Finished \<Rightarrow> 0)"

definition leftover :: "recorder \<Rightarrow> raw_frame_record list" where
  "leftover a = (case ar_worker a of Popping \<Rightarrow> [] | Appending r \<Rightarrow> [] | _ \<Rightarrow> fq_contents (ar_queue a))"

definition ar_healthy :: "recorder \<Rightarrow> bool" where
  "ar_healthy a \<longleftrightarrow> \<not> ar_writer_failed a \<and> (ar_worker a \<noteq> Finished \<longrightarrow> cw_good (ar_writer a))"

lemma cw_append_stored:
  assumes "cw_good w" "\<not> cw_closed w"
  obtains w' where "cw_append w r Stored = Done w'" "cw_good w'"
  using assms by (auto simp: cw_append_def write_file_def Let_def)

lemma cw_close_stored:
  assumes "cw_inv fs path topic w rs" "cw_good w" "\<not> cw_closed w"
  obtains w' where "cw_close w Stored = Done w'"
  using assms by (auto simp: cw_close_def cw_inv_def write_file_def Let_def)

lemma worker_step_calls [simp]:
  "ar_closed (worker_step a io) = ar_closed a" "ar_finalize (worker_step a io) = ar_finalize a"
  "ar_producer_closed (worker_step a io) = ar_producer_closed a" "ar_recorded (worker_step a io) = ar_recorded a"
  "ar_close_returned (worker_step a io) = ar_close_returned a"
  by (auto simp: worker_step_def ar_fail_def split: worker.splits outcome.splits prod.splits option.splits)

lemma worker_step_closing:
  assumes inv: "ar_inv fs path topic a" and healthy: "ar_healthy a" and closed: "ar_closed a" and busy: "ar_worker a \<noteq> Finished"
  shows "ar_healthy (worker_step a Stored) \<and> remaining a = Suc (remaining (worker_step a Stored)) \<and>
    leftover (worker_step a Stored) = leftover a"
proof (cases "ar_worker a")
  case Popping
  obtain y q where pop: "try_pop_into (ar_queue a) (fq_payload_capacity (ar_queue a)) = (y, q)" by fastforce
  have "fq_ok (ar_queue a)" using inv by (simp add: ar_inv_def)
  from frame_ring.pop_contents [OF this] pop
  have "y = (case fq_contents (ar_queue a) of [] \<Rightarrow> None | x # _ \<Rightarrow> Some x)" "fq_contents q = tl (fq_contents (ar_queue a))"
    by (simp_all add: pop_record_def)
  with Popping pop healthy show ?thesis
    by (cases "fq_contents (ar_queue a)") (simp_all add: worker_step_def remaining_def leftover_def ar_healthy_def)
next
  case (Appending r)
  have "cw_good (ar_writer a)" "\<not> cw_closed (ar_writer a)" using inv healthy Appending by (auto simp: ar_inv_def ar_healthy_def)
  then obtain w where "cw_append (ar_writer a) r Stored = Done w" "cw_good w" by (rule cw_append_stored)
  with Appending healthy show ?thesis by (simp add: worker_step_def remaining_def leftover_def ar_healthy_def)
next
  case Checking
  with inv closed healthy show ?thesis
    by (simp add: worker_step_def remaining_def leftover_def ar_healthy_def ar_inv_def)
next
  case Finalizing
  have "cw_inv fs path topic (ar_writer a) (ar_written a)" "cw_good (ar_writer a)" "\<not> cw_closed (ar_writer a)"
    using inv healthy Finalizing by (auto simp: ar_inv_def ar_healthy_def)
  then obtain w where "cw_close (ar_writer a) Stored = Done w" by (rule cw_close_stored)
  with Finalizing healthy show ?thesis by (simp add: worker_step_def remaining_def leftover_def ar_healthy_def)
qed (use busy in simp)

lemma worker_closes:
  assumes "ar_inv fs path topic a" "ar_healthy a" "ar_closed a" "remaining a \<le> n"
  shows "let a' = foldl worker_step a (replicate n Stored)
    in ar_worker a' = Finished \<and> ar_inv fs path topic a' \<and> ar_healthy a' \<and> leftover a' = leftover a \<and>
       ar_recorded a' = ar_recorded a \<and> ar_finalize a' = ar_finalize a"
  using assms
proof (induction n arbitrary: a)
  case 0
  then show ?case by (cases "ar_worker a") (simp_all add: remaining_def)
next
  case (Suc n)
  show ?case
  proof (cases "ar_worker a = Finished")
    case True
    then have "worker_step a Stored = a" "remaining a \<le> n" by (simp_all add: worker_step_def remaining_def)
    with Suc.IH [of a] Suc.prems show ?thesis by simp
  next
    case False
    from worker_step_closing [OF Suc.prems(1-3) False] Suc.prems(3,4) ar_inv_worker [OF Suc.prems(1), of Stored]
      Suc.IH [of "worker_step a Stored"]
    show ?thesis by (simp add: Let_def)
  qed
qed

text \<open>A run in which no write fails keeps the writer in order.\<close>

fun stored :: "recorder_turn \<Rightarrow> bool" where
  "stored (Work io) \<longleftrightarrow> io = Stored"
| "stored _ \<longleftrightarrow> True"

lemma worker_step_healthy:
  assumes inv: "ar_inv fs path topic a" and healthy: "ar_healthy a"
  shows "ar_healthy (worker_step a Stored)"
proof (cases "ar_worker a")
  case (Appending r)
  have "cw_good (ar_writer a)" "\<not> cw_closed (ar_writer a)" using inv healthy Appending by (auto simp: ar_inv_def ar_healthy_def)
  then obtain w where "cw_append (ar_writer a) r Stored = Done w" "cw_good w" by (rule cw_append_stored)
  with Appending healthy show ?thesis by (simp add: worker_step_def ar_healthy_def)
next
  case Finalizing
  have "cw_inv fs path topic (ar_writer a) (ar_written a)" "cw_good (ar_writer a)" "\<not> cw_closed (ar_writer a)"
    using inv healthy Finalizing by (auto simp: ar_inv_def ar_healthy_def)
  then obtain w where "cw_close (ar_writer a) Stored = Done w" by (rule cw_close_stored)
  with Finalizing healthy show ?thesis by (simp add: worker_step_def ar_healthy_def)
qed (use healthy in \<open>auto simp: worker_step_def ar_healthy_def split: prod.splits option.splits\<close>)

lemma stored_turn_healthy: "ar_inv fs path topic a \<Longrightarrow> ar_healthy a \<Longrightarrow> stored t \<Longrightarrow> ar_healthy (ar_step a t)"
  using worker_step_healthy
  by (cases t) (auto simp: ar_healthy_def ar_record_def ar_close_def ar_abort_def ar_join_def split: prod.splits)

lemma ar_inv_turn: "ar_inv fs path topic a \<Longrightarrow> ar_inv fs path topic (ar_step a t)"
  using ar_inv_run [of fs path topic a "[t]"] by simp

lemma stored_run_healthy:
  "ar_inv fs path topic a \<Longrightarrow> ar_healthy a \<Longrightarrow> list_all stored turns \<Longrightarrow> ar_healthy (foldl ar_step a turns)"
  by (induction turns arbitrary: a) (simp_all add: stored_turn_healthy ar_inv_turn)

lemma ar_new_healthy: "ar_new fs path stamp topic opened io = Value a \<Longrightarrow> ar_healthy a"
  by (auto simp: ar_new_def ar_healthy_def cw_open_def Let_def split: result.splits outcome.splits if_splits)

lemma foldl_work: "foldl ar_step a (replicate n (Work io)) = foldl worker_step a (replicate n io)"
  by (induction n arbitrary: a) simp_all

lemma close_publishes:
  assumes inv: "ar_inv fs path topic a" and healthy: "ar_healthy a" and "\<not> ar_closed a" and none: "leftover a = []"
    and n: "2 * length (fq_contents (ar_queue a)) + 4 \<le> n"
  shows "let a' = foldl ar_step a (Close # replicate n (Work Stored) @ [Join])
    in ar_close_returned a' = Some None \<and> cw_files (ar_writer a') path = Some (capture_bytes topic (ar_recorded a))"
proof -
  define b where "b = foldl worker_step (ar_close a) (replicate n Stored)"
  have c: "ar_closed (ar_close a)" "ar_finalize (ar_close a)" "ar_healthy (ar_close a)" "leftover (ar_close a) = []"
    "ar_recorded (ar_close a) = ar_recorded a" "remaining (ar_close a) \<le> n"
    using assms by (auto simp: ar_close_def ar_healthy_def leftover_def remaining_def split: worker.splits)
  from worker_closes [OF ar_inv_calls(1) [OF inv] c(3,1,6)] c
  have b: "ar_worker b = Finished" "ar_inv fs path topic b" "ar_healthy b" "leftover b = []" "ar_recorded b = ar_recorded a" "ar_finalize b"
    by (simp_all add: b_def Let_def)
  then have "ar_recorded b = ar_written b" "cw_closed (ar_writer b)" "cw_inv fs path topic (ar_writer b) (ar_written b)"
    by (auto simp: ar_inv_def ar_healthy_def leftover_def pending_def)
  then have "cw_files (ar_writer b) path = Some (capture_bytes topic (ar_recorded a))" using b(5) by (simp add: cw_inv_def)
  moreover have "foldl ar_step a (Close # replicate n (Work Stored) @ [Join]) = ar_join b"
    by (simp add: foldl_work b_def)
  ultimately show ?thesis using b by (simp add: ar_join_def ar_healthy_def)
qed

text \<open>
  C22. Closing ends and completes the capture: if no write has failed, \<open>close\<close> is called while the worker
  is not between finding the queue empty and testing the flag, or with nothing in the queue, and the worker gets two
  steps for each queued frame and four more, then \<open>close\<close> returns without an exception and the final path
  holds the complete capture of all frames accepted.
\<close>

theorem recorder_close_completes:
  assumes "ar_new fs path stamp topic opened io = Value a" "list_all stored turns"
    and "a' = foldl ar_step a turns" "\<not> ar_closed a'" "ar_worker a' = Checking \<Longrightarrow> fq_contents (ar_queue a') = []"
    and "2 * length (fq_contents (ar_queue a')) + 4 \<le> n"
  shows "let a'' = foldl ar_step a' (Close # replicate n (Work Stored) @ [Join])
    in ar_close_returned a'' = Some None \<and> cw_files (ar_writer a'') path = Some (capture_bytes topic (ar_recorded a'))"
proof (rule close_publishes [OF _ _ assms(4) _ assms(6)])
  note inv = ar_inv_new [OF assms(1)]
  show "ar_inv fs path topic a'" unfolding assms(3) by (rule ar_inv_run [OF inv])
  moreover show "ar_healthy a'" unfolding assms(3) by (rule stored_run_healthy [OF inv ar_new_healthy [OF assms(1)] assms(2)])
  ultimately show "leftover a' = []"
    using assms(4,5) by (auto simp: leftover_def ar_inv_def ar_healthy_def split: worker.splits)
qed

theorem recorder_close_completes_witness:
  "\<exists>a a'. ar_new (\<lambda>_. None) ''a'' ''1'' [116] True Stored = Value a \<and> a' = foldl ar_step a [Record sample_frame] \<and>
     \<not> ar_closed a' \<and> ar_worker a' = Popping \<and> fq_contents (ar_queue a') = [sample_frame] \<and>
     (let a'' = foldl ar_step a' (Close # replicate 6 (Work Stored) @ [Join])
      in ar_close_returned a'' = Some None \<and> cw_files (ar_writer a'') ''a'' = Some (capture_bytes [116] [sample_frame]))"
proof -
  obtain a where new: "ar_new (\<lambda>_. None) ''a'' ''1'' [116] True Stored = Value a" using sample_recorder by blast
  then obtain q where q: "fq_new 4096 raw_frame_max_payload = Value q" "ar_queue a = q"
    and a: "\<not> ar_closed a" "\<not> ar_producer_closed a" "\<not> ar_writer_failed a" "ar_worker a = Popping" "ar_recorded a = []"
    by (auto simp: ar_new_def split: result.splits outcome.splits)
  obtain q' where push: "try_push q (header_of sample_frame) (rf_payload sample_frame) = (Queued, q')"
    using q(1) by (auto simp: fq_new_def try_push_def increment_def sample_frame_def raw_frame_max_payload_def Let_def split: if_splits)
  then have "fq_contents q' = [sample_frame]" using push_outcome [OF _ push] fq_new_ok [OF q(1)] by simp
  with recorder_close_completes [OF new, of "[Record sample_frame]" "a\<lparr>ar_queue := q', ar_recorded := [sample_frame]\<rparr>" 6] a q(2) push
  show ?thesis using new by (intro exI [of _ a] exI [of _ "a\<lparr>ar_queue := q', ar_recorded := [sample_frame]\<rparr>"]) (auto simp: ar_record_def Let_def)
qed

end
