(* ===== verification/Bbo_Snapshot.thy ===== *)
theory Bbo_Snapshot
  imports Prelude
begin

text \<open>
  The sequence lock that publishes best bid and offer, \<open>llab::BboSnapshotCellBase\<close>
  (\<open>cpp/include/llab/bbo_snapshot.hpp\<close>): one writer, and a reader that retries when it overlaps a
  publication. Both are sequences of single atomic accesses, and a schedule interleaves them.

  The memory keeps for each atomic variable all values stored to it, in order. Each thread has a view:
  for each variable the position of the newest value it knows of. A load may return any value from that
  position on; an acquire load also takes over the view that a release store attached to the
  value, a relaxed load does not. With \<open>strong\<close> every load returns the newest value, which is sequential
  consistency.
\<close>

section \<open>Data\<close>

record bbo_snapshot =
  bid_price :: u64
  bid_quantity :: u64
  ask_price :: u64
  ask_quantity :: u64

definition zero_snapshot :: bbo_snapshot where
  "zero_snapshot = \<lparr>bid_price = 0, bid_quantity = 0, ask_price = 0, ask_quantity = 0\<rparr>"

datatype var = Version | Bid_price | Bid_quantity | Ask_price | Ask_quantity

type_synonym view = "var \<Rightarrow> nat"
type_synonym memory = "var \<Rightarrow> (u64 \<times> view) list"

text \<open>The fields in the order in which both functions access them.\<close>

definition field_var :: "nat \<Rightarrow> var" where
  "field_var k = (if k = 0 then Bid_price else if k = 1 then Bid_quantity else if k = 2 then Ask_price else Ask_quantity)"

definition field :: "bbo_snapshot \<Rightarrow> nat \<Rightarrow> u64" where
  "field s k = (if k = 0 then bid_price s else if k = 1 then bid_quantity s else if k = 2 then ask_price s else ask_quantity s)"

section \<open>Threads\<close>

datatype writer = W_idle | W_field nat bbo_snapshot u64

datatype reader = R_idle | R_field nat u64 "u64 list" | R_done "bbo_snapshot option"

record bbo_cell =
  bc_memory :: memory
  bc_writer :: writer
  bc_writer_view :: view
  bc_reader :: reader
  bc_reader_view :: view
  bc_published :: "bbo_snapshot list"

definition bbo_new :: bbo_cell where
  "bbo_new = \<lparr>bc_memory = (\<lambda>_. [(0, \<lambda>_. 0)]), bc_writer = W_idle, bc_writer_view = (\<lambda>_. 0), bc_reader = R_idle,
     bc_reader_view = (\<lambda>_. 0), bc_published = []\<rparr>"

text \<open>A store by the writer; a release store attaches the writer's view.\<close>

definition store :: "bool \<Rightarrow> var \<Rightarrow> u64 \<Rightarrow> bbo_cell \<Rightarrow> bbo_cell" where
  "store release x v c =
     (let t = length (bc_memory c x); view = (bc_writer_view c)(x := t)
      in c\<lparr>bc_memory := (bc_memory c)(x := bc_memory c x @ [(v, if release then view else (\<lambda>_. 0)(x := t))]),
           bc_writer_view := view\<rparr>)"

definition newest :: "bbo_cell \<Rightarrow> var \<Rightarrow> u64" where
  "newest c x = fst (last (bc_memory c x))"

text \<open>\<open>publish\<close>, one access at a time. \<open>fetch_add\<close> reads the newest version.\<close>

definition publish_step :: "bbo_snapshot \<Rightarrow> bbo_cell \<Rightarrow> bbo_cell" where
  "publish_step snapshot c =
     (case bc_writer c of
        W_idle \<Rightarrow> (store True Version (newest c Version + 1) c)\<lparr>bc_writer := W_field 0 snapshot (newest c Version)\<rparr>
      | W_field k s starting_version \<Rightarrow>
          if k < 4 then (store False (field_var k) (field s k) c)\<lparr>bc_writer := W_field (k + 1) s starting_version\<rparr>
          else (store True Version (starting_version + 2) c)\<lparr>bc_writer := W_idle, bc_published := bc_published c @ [s]\<rparr>)"

text \<open>A load by the reader of the value at position \<open>t\<close>; it must be known or newer.\<close>

definition load :: "bool \<Rightarrow> bool \<Rightarrow> var \<Rightarrow> nat \<Rightarrow> bbo_cell \<Rightarrow> (u64 \<times> bbo_cell) option" where
  "load strong acquire x t c =
     (if bc_reader_view c x \<le> t \<and> t < length (bc_memory c x) \<and> (strong \<longrightarrow> t + 1 = length (bc_memory c x))
      then let (v, message) = bc_memory c x ! t;
               view = (bc_reader_view c)(x := t);
               view = (if acquire then (\<lambda>y. max (view y) (message y)) else view)
           in Some (v, c\<lparr>bc_reader_view := view\<rparr>)
      else None)"

text \<open>\<open>try_read\<close>, one access at a time; after a result the reader may call it again.\<close>

definition try_read_step :: "bool \<Rightarrow> nat \<Rightarrow> bbo_cell \<Rightarrow> bbo_cell option" where
  "try_read_step strong t c =
     (case bc_reader c of
        R_idle \<Rightarrow>
          (case load strong True Version t c of None \<Rightarrow> None
           | Some (version, c') \<Rightarrow>
               Some (c'\<lparr>bc_reader := if version AND 1 \<noteq> 0 then R_done None else R_field 0 version []\<rparr>))
      | R_field k version values \<Rightarrow>
          if k < 4
          then (case load strong False (field_var k) t c of None \<Rightarrow> None
                | Some (v, c') \<Rightarrow> Some (c'\<lparr>bc_reader := R_field (k + 1) version (values @ [v])\<rparr>))
          else (case load strong True Version t c of None \<Rightarrow> None
                | Some (after, c') \<Rightarrow>
                    Some (c'\<lparr>bc_reader := R_done (if version = after
                      then Some \<lparr>bid_price = values ! 0, bid_quantity = values ! 1, ask_price = values ! 2, ask_quantity = values ! 3\<rparr>
                      else None)\<rparr>))
      | R_done r \<Rightarrow> Some (c\<lparr>bc_reader := R_idle\<rparr>))"

text \<open>A schedule: in each round the writer or the reader makes one access.\<close>

datatype turn = Write bbo_snapshot | Read nat

fun bbo_run :: "bool \<Rightarrow> bbo_cell \<Rightarrow> turn list \<Rightarrow> bbo_cell option" where
  "bbo_run strong c [] = Some c"
| "bbo_run strong c (Write s # ts) = bbo_run strong (publish_step s c) ts"
| "bbo_run strong c (Read t # ts) = (case try_read_step strong t c of None \<Rightarrow> None | Some c' \<Rightarrow> bbo_run strong c' ts)"

section \<open>Consistency under strong loads\<close>

definition current :: "bbo_cell \<Rightarrow> bbo_snapshot" where
  "current c = (if bc_published c = [] then zero_snapshot else last (bc_published c))"

definition snapshot_at :: "bbo_cell \<Rightarrow> nat \<Rightarrow> bbo_snapshot" where
  "snapshot_at c m = (zero_snapshot # bc_published c) ! m"

text \<open>The number of the publication that a version belongs to, and what the fields hold.\<close>

definition writer_inv :: "bbo_cell \<Rightarrow> bool" where
  "writer_inv c \<longleftrightarrow> (\<forall>x. bc_memory c x \<noteq> []) \<and>
     (case bc_writer c of
        W_idle \<Rightarrow> newest c Version = of_nat (2 * length (bc_published c)) \<and> (\<forall>k < 4. newest c (field_var k) = field (current c) k)
      | W_field k s v \<Rightarrow> k \<le> 4 \<and> v = of_nat (2 * length (bc_published c)) \<and> newest c Version = v + 1 \<and>
          (\<forall>i < k. newest c (field_var i) = field s i))"

text \<open>
  What a reader has loaded belongs to the publication \<open>m\<close> whose version it saw, as long as no other has
  begun.
\<close>

definition reader_inv :: "bbo_cell \<Rightarrow> bool" where
  "reader_inv c \<longleftrightarrow>
     (case bc_reader c of
        R_idle \<Rightarrow> True
      | R_field k v values \<Rightarrow>
          k \<le> 4 \<and> length values = k \<and>
          (\<exists>m \<le> length (bc_published c). v = of_nat (2 * m) \<and>
            (bc_writer c = W_idle \<and> m = length (bc_published c) \<longrightarrow> (\<forall>i < k. values ! i = field (snapshot_at c m) i)))
      | R_done None \<Rightarrow> True
      | R_done (Some s) \<Rightarrow> s \<in> set (zero_snapshot # bc_published c))"

lemma newest_store [simp]: "newest (store r x v c) y = (if y = x then v else newest c y)"
  by (simp add: newest_def store_def Let_def)

lemma store_simps [simp]:
  "bc_memory (store r x v c) y \<noteq> [] \<longleftrightarrow> y = x \<or> bc_memory c y \<noteq> []"
  "bc_writer (store r x v c) = bc_writer c" "bc_reader (store r x v c) = bc_reader c" "bc_published (store r x v c) = bc_published c"
  by (auto simp: store_def Let_def)

lemma newest_other [simp]:
  "newest (c\<lparr>bc_writer := w\<rparr>) x = newest c x" "newest (c\<lparr>bc_published := p\<rparr>) x = newest c x"
  "newest (c\<lparr>bc_reader := r\<rparr>) x = newest c x" "newest (c\<lparr>bc_reader_view := vw\<rparr>) x = newest c x"
  by (simp_all add: newest_def)

lemma field_var_simps [simp]: "field_var k \<noteq> Version" "Version \<noteq> field_var k"
  by (simp_all add: field_var_def)

lemma field_var_inj: "i < 4 \<Longrightarrow> k < 4 \<Longrightarrow> field_var i = field_var k \<longleftrightarrow> i = k"
  by (auto simp: field_var_def)

lemma u64_even: "(of_nat (2 * n) :: u64) AND 1 = 0"
  by (simp add: and_one_eq mod_2_eq_odd)

lemma u64_odd: "((of_nat (2 * n) :: u64) + 1) AND 1 \<noteq> 0"
  by (simp add: and_one_eq mod_2_eq_odd)

lemma writer_inv_publish:
  assumes "writer_inv c"
  shows "writer_inv (publish_step s c)"
proof (cases "bc_writer c")
  case W_idle
  with assms show ?thesis by (simp add: publish_step_def writer_inv_def)
next
  case (W_field k s' v)
  show ?thesis
  proof (cases "k < 4")
    case True
    then have "newest (store False (field_var k) (field s' k) c) (field_var i) = field s' i" if "i < k + 1" for i
      using that W_field assms field_var_inj [of i k] by (auto simp: writer_inv_def less_Suc_eq)
    with True W_field assms show ?thesis by (simp add: publish_step_def writer_inv_def)
  next
    case False
    with W_field assms show ?thesis by (simp add: publish_step_def writer_inv_def current_def)
  qed
qed

lemma snapshot_at_append: "m \<le> length (bc_published c) \<Longrightarrow> bc_published c' = bc_published c @ xs \<Longrightarrow> snapshot_at c' m = snapshot_at c m"
  by (auto simp: snapshot_at_def nth_append nth_Cons split: nat.splits)

lemma publish_step_reader [simp]: "bc_reader (publish_step s c) = bc_reader c"
  by (auto simp: publish_step_def split: writer.splits)

lemma publish_step_published: "\<exists>xs. bc_published (publish_step s c) = bc_published c @ xs"
  by (auto simp: publish_step_def split: writer.splits)

lemma publish_step_busy:
  "bc_writer (publish_step s c) = W_idle \<Longrightarrow> length (bc_published (publish_step s c)) = Suc (length (bc_published c))"
  by (auto simp: publish_step_def split: writer.splits if_splits)

lemma reader_inv_publish:
  assumes "reader_inv c"
  shows "reader_inv (publish_step s c)"
proof -
  obtain xs where xs: "bc_published (publish_step s c) = bc_published c @ xs" using publish_step_published by blast
  show ?thesis
  proof (cases "bc_reader c")
    case (R_field k v vs)
    with assms obtain m where "m \<le> length (bc_published c)" "v = of_nat (2 * m)" "k \<le> 4" "length vs = k"
      by (auto simp: reader_inv_def)
    moreover from this have "\<not> (bc_writer (publish_step s c) = W_idle \<and> m = length (bc_published (publish_step s c)))"
      using publish_step_busy [of s c] by auto
    moreover have "m \<le> length (bc_published (publish_step s c))" using \<open>m \<le> length (bc_published c)\<close> xs by simp
    ultimately show ?thesis unfolding reader_inv_def R_field publish_step_reader reader.case by blast
  next
    case (R_done r)
    with assms xs show ?thesis by (cases r) (auto simp: reader_inv_def)
  qed (simp add: reader_inv_def)
qed

lemma load_strong:
  assumes "load True acquire x t c = Some (v, c')" "bc_memory c x \<noteq> []"
  shows "v = newest c x \<and> (\<exists>vw. c' = c\<lparr>bc_reader_view := vw\<rparr>)"
proof -
  have "t = length (bc_memory c x) - 1" using assms by (auto simp: load_def Let_def split: if_splits prod.splits)
  then have "bc_memory c x ! t = last (bc_memory c x)" using assms(2) by (simp add: last_conv_nth)
  then show ?thesis using assms(1) by (auto simp: load_def Let_def newest_def split: if_splits prod.splits)
qed

lemma writer_inv_read:
  assumes "writer_inv c" "try_read_step strong t c = Some c'"
  shows "writer_inv c' \<and> bc_published c' = bc_published c"
proof -
  have load: "\<exists>vw. d = c\<lparr>bc_reader_view := vw\<rparr>" if "load strong a x t c = Some (v, d)" for a x v d
    using that by (auto simp: load_def Let_def split: if_splits prod.splits)
  have keep: "writer_inv (c\<lparr>bc_reader_view := vw, bc_reader := r\<rparr>)" "writer_inv (c\<lparr>bc_reader := r\<rparr>)" for vw r
    using assms(1) by (simp_all add: writer_inv_def current_def split: writer.splits)
  show ?thesis using assms(2) keep
    by (auto simp: try_read_step_def split: reader.splits if_splits option.splits dest!: load)
qed

lemma snapshot_current: "snapshot_at c (length (bc_published c)) = current c"
  by (auto simp: snapshot_at_def current_def last_conv_nth nth_Cons split: nat.splits)

text \<open>A version that the reader saw before and still sees belongs to the last publication, and none is under way.\<close>

lemma version_unchanged:
  assumes w: "writer_inv c" and small: "length (bc_published c) < 2 ^ 63" and m: "m \<le> length (bc_published c)"
    and v: "newest c Version = of_nat (2 * m)"
  shows "bc_writer c = W_idle \<and> m = length (bc_published c)"
proof (cases "bc_writer c")
  case W_idle
  then have "(of_nat (2 * m) :: u64) = of_nat (2 * length (bc_published c))" using v w by (simp add: writer_inv_def)
  moreover have "2 * m < 2 ^ 64" "2 * length (bc_published c) < 2 ^ 64" using m small by simp_all
  ultimately have "2 * m = 2 * length (bc_published c)" using unat_of_nat_u64 by metis
  with W_idle show ?thesis by simp
next
  case (W_field a b e)
  then have "(of_nat (2 * m) :: u64) = of_nat (2 * length (bc_published c)) + 1" using v w by (simp add: writer_inv_def)
  then show ?thesis using u64_even [of m] u64_odd [of "length (bc_published c)"] by simp
qed

lemma load_newest:
  assumes "writer_inv c" "load True acquire x t c = Some (v, d)"
  obtains vw where "v = newest c x" "d = c\<lparr>bc_reader_view := vw\<rparr>"
  using load_strong [OF assms(2)] assms(1) by (auto simp: writer_inv_def)

lemma reader_inv_begin:
  assumes w: "writer_inv c" and idle: "bc_reader c = R_idle" and step: "try_read_step True t c = Some c'"
  shows "reader_inv c'"
proof -
  obtain v d where l: "load True True Version t c = Some (v, d)"
    and c': "c' = d\<lparr>bc_reader := if v AND 1 \<noteq> 0 then R_done None else R_field 0 v []\<rparr>"
    using step idle by (auto simp: try_read_step_def split: option.splits)
  obtain vw where v: "v = newest c Version" "d = c\<lparr>bc_reader_view := vw\<rparr>" using load_newest [OF w l] .
  have "\<exists>m \<le> length (bc_published c). v = of_nat (2 * m)" if "v AND 1 = 0"
    using that w u64_odd [of "length (bc_published c)"] v(1) by (cases "bc_writer c") (auto simp: writer_inv_def)
  then show ?thesis using v(2) by (auto simp: c' reader_inv_def)
qed

lemma reader_inv_field:
  assumes w: "writer_inv c" and r: "reader_inv c" and reading: "bc_reader c = R_field k v vs" "k < 4"
    and step: "try_read_step True t c = Some c'"
  shows "reader_inv c'"
proof -
  obtain m where m: "m \<le> length (bc_published c)" "v = of_nat (2 * m)" "length vs = k"
    "bc_writer c = W_idle \<Longrightarrow> m = length (bc_published c) \<Longrightarrow> \<forall>i < k. vs ! i = field (snapshot_at c m) i"
    using r reading by (auto simp: reader_inv_def)
  obtain y d where l: "load True False (field_var k) t c = Some (y, d)" and c': "c' = d\<lparr>bc_reader := R_field (k + 1) v (vs @ [y])\<rparr>"
    using step reading by (auto simp: try_read_step_def split: option.splits)
  obtain vw where y: "y = newest c (field_var k)" "d = c\<lparr>bc_reader_view := vw\<rparr>" using load_newest [OF w l] .
  have "(vs @ [y]) ! i = field (snapshot_at c m) i" if "i < k + 1" "bc_writer c = W_idle" "m = length (bc_published c)" for i
    using that m(3,4) w reading(2) snapshot_current y(1) by (auto simp: writer_inv_def nth_append less_Suc_eq)
  then show ?thesis using reading(2) m(1-3) y(2) by (auto simp: c' reader_inv_def snapshot_at_def)
qed

lemma reader_inv_end:
  assumes w: "writer_inv c" and r: "reader_inv c" and small: "length (bc_published c) < 2 ^ 63"
    and reading: "bc_reader c = R_field k v vs" "\<not> k < 4" and step: "try_read_step True t c = Some c'"
  shows "reader_inv c'"
proof -
  let ?s = "\<lparr>bid_price = vs ! 0, bid_quantity = vs ! 1, ask_price = vs ! 2, ask_quantity = vs ! 3\<rparr>"
  obtain m where m: "m \<le> length (bc_published c)" "v = of_nat (2 * m)" "k = 4"
    "bc_writer c = W_idle \<Longrightarrow> m = length (bc_published c) \<Longrightarrow> \<forall>i < k. vs ! i = field (snapshot_at c m) i"
    using r reading by (auto simp: reader_inv_def)
  obtain y d where l: "load True True Version t c = Some (y, d)" and c': "c' = d\<lparr>bc_reader := R_done (if v = y then Some ?s else None)\<rparr>"
    using step reading by (auto simp: try_read_step_def split: option.splits)
  obtain vw where y: "y = newest c Version" "d = c\<lparr>bc_reader_view := vw\<rparr>" using load_newest [OF w l] .
  have "v = y \<Longrightarrow> \<forall>i < 4. vs ! i = field (snapshot_at c m) i"
    using version_unchanged [OF w small m(1)] m(2-4) y(1) by metis
  then have "v = y \<Longrightarrow> ?s = snapshot_at c m" by (simp add: field_def)
  moreover have "snapshot_at c m \<in> set (zero_snapshot # bc_published c)"
    unfolding snapshot_at_def using m(1) by (intro nth_mem) simp
  ultimately show ?thesis using y(2) by (auto simp: c' reader_inv_def)
qed

lemma reader_inv_read:
  assumes "writer_inv c" "reader_inv c" "length (bc_published c) < 2 ^ 63" "try_read_step True t c = Some c'"
  shows "reader_inv c'"
proof (cases "bc_reader c")
  case R_idle
  then show ?thesis using reader_inv_begin assms by blast
next
  case (R_done x)
  then show ?thesis using assms(4) by (auto simp: try_read_step_def reader_inv_def)
next
  case (R_field k v vs)
  then show ?thesis using reader_inv_field reader_inv_end assms by blast
qed

lemma bbo_run_published:
  "writer_inv c \<Longrightarrow> bbo_run strong c ts = Some c' \<Longrightarrow> length (bc_published c) \<le> length (bc_published c')"
proof (induction strong c ts rule: bbo_run.induct)
  case (2 strong c s ts)
  from publish_step_published obtain xs where "bc_published (publish_step s c) = bc_published c @ xs" by blast
  with "2.IH" [OF writer_inv_publish [OF "2.prems"(1)]] "2.prems"(2) show ?case by simp
next
  case (3 strong c t ts)
  then obtain d where d: "try_read_step strong t c = Some d" "bbo_run strong d ts = Some c'" by (auto split: option.splits)
  from writer_inv_read [OF "3.prems"(1) d(1)] "3.IH" [OF d(1)] d(2) show ?case by simp
qed simp

lemma bbo_run_inv:
  "writer_inv c \<Longrightarrow> reader_inv c \<Longrightarrow> bbo_run strong c ts = Some c' \<Longrightarrow> strong \<Longrightarrow> length (bc_published c') < 2 ^ 63 \<Longrightarrow> reader_inv c'"
proof (induction strong c ts rule: bbo_run.induct)
  case (2 strong c s ts)
  then show ?case using writer_inv_publish reader_inv_publish by auto
next
  case (3 strong c t ts)
  then obtain d where d: "try_read_step strong t c = Some d" "bbo_run strong d ts = Some c'" by (auto split: option.splits)
  note w = writer_inv_read [OF "3.prems"(1) d(1)]
  then have "length (bc_published c) < 2 ^ 63" using bbo_run_published [OF _ d(2)] "3.prems"(5) by simp
  then have "reader_inv d" using reader_inv_read [OF "3.prems"(1,2)] d(1) "3.prems"(4) by simp
  with "3.IH" [OF d(1)] w d(2) "3.prems"(4,5) show ?case by blast
qed simp

section \<open>Properties\<close>

text \<open>
  C31. Under sequential consistency every snapshot that a read returns was published as a whole, or is the
  initial one, whatever the schedule of the accesses, as long as there are fewer than \<open>2\<^sup>6\<^sup>3\<close> publications,
  after which the version repeats.
\<close>

theorem bbo_read_consistent:
  assumes "bbo_run True bbo_new ts = Some c" "bc_reader c = R_done (Some s)" "length (bc_published c) < 2 ^ 63"
  shows "s \<in> set (zero_snapshot # bc_published c)"
proof -
  have "writer_inv bbo_new" "reader_inv bbo_new"
    by (simp_all add: writer_inv_def reader_inv_def bbo_new_def newest_def current_def zero_snapshot_def field_def)
  from bbo_run_inv [OF this assms(1) _ assms(3)] assms(2) show ?thesis by (simp add: reader_inv_def)
qed

definition snap :: "u64 \<Rightarrow> bbo_snapshot" where
  "snap v = \<lparr>bid_price = v, bid_quantity = v, ask_price = v, ask_quantity = v\<rparr>"

text \<open>One publication, then a read of the newest values.\<close>

definition sample_schedule :: "turn list" where
  "sample_schedule = replicate 6 (Write (snap 1)) @ [Read 2, Read 1, Read 1, Read 1, Read 1, Read 2]"

theorem bbo_read_consistent_witness:
  "\<exists>c. bbo_run True bbo_new sample_schedule = Some c \<and> snap 1 \<in> set (zero_snapshot # bc_published c)"
proof -
  have "map_option (\<lambda>c. (bc_reader c, length (bc_published c))) (bbo_run True bbo_new sample_schedule) = Some (R_done (Some (snap 1)), 1)"
    by code_simp
  then obtain c where c: "bbo_run True bbo_new sample_schedule = Some c" "bc_reader c = R_done (Some (snap 1))" "length (bc_published c) = 1"
    by auto
  then show ?thesis using bbo_read_consistent [OF c(1,2)] by auto
qed

section \<open>Torn reads under the memory orders of the code\<close>

text \<open>
  A read that begins after the publications \<open>ps\<close> and meets the next one, of \<open>s\<close>, under way. \<open>fresh\<close> tells for
  each field whether its load returns the new value or the one before.
\<close>

definition torn_schedule :: "bbo_snapshot list \<Rightarrow> bbo_snapshot \<Rightarrow> (nat \<Rightarrow> bool) \<Rightarrow> turn list" where
  "torn_schedule ps s fresh =
     concat (map (\<lambda>p. replicate 6 (Write p)) ps) @ [Read (2 * length ps)] @ replicate 5 (Write s) @
     map (\<lambda>k. Read (length ps + of_bool (fresh k))) [0..<4] @ [Read (2 * length ps)]"

definition torn :: "bbo_snapshot \<Rightarrow> bbo_snapshot \<Rightarrow> (nat \<Rightarrow> bool) \<Rightarrow> bbo_snapshot" where
  "torn old new fresh =
     (let pick = (\<lambda>k. field (if fresh k then new else old) k)
      in \<lparr>bid_price = pick 0, bid_quantity = pick 1, ask_price = pick 2, ask_quantity = pick 3\<rparr>)"

text \<open>Between publications: each field was stored once per publication, the version twice.\<close>

definition quiet :: "bbo_cell \<Rightarrow> bbo_snapshot list \<Rightarrow> bool" where
  "quiet c ps \<longleftrightarrow> bc_published c = ps \<and> bc_writer c = W_idle \<and> bc_reader c = R_idle \<and> bc_reader_view c = (\<lambda>_. 0) \<and>
     bc_writer_view c = (\<lambda>x. if x = Version then 2 * length ps else length ps) \<and>
     (\<forall>x. length (bc_memory c x) = bc_writer_view c x + 1) \<and>
     last (bc_memory c Version) = (of_nat (2 * length ps), bc_writer_view c) \<and>
     (\<forall>k < 4. newest c (field_var k) = field (last (zero_snapshot # ps)) k)"

lemma quiet_new: "quiet bbo_new []"
  by (simp add: quiet_def bbo_new_def newest_def zero_snapshot_def field_def fun_eq_iff)

lemma bbo_run_writes: "bbo_run strong c (replicate n (Write s) @ ts) = bbo_run strong ((publish_step s ^^ n) c) ts"
  by (induction n arbitrary: c) (simp_all add: funpow_swap1)

lemma less_4: "k < (4 :: nat) \<longleftrightarrow> k = 0 \<or> k = 1 \<or> k = 2 \<or> k = 3"
  by auto

lemmas bbo_steps = publish_step_def store_def Let_def field_var_def field_def newest_def eval_nat_numeral

lemma var_other: "x \<noteq> Bid_price \<Longrightarrow> x \<noteq> Bid_quantity \<Longrightarrow> x \<noteq> Ask_price \<Longrightarrow> x \<noteq> Ask_quantity \<Longrightarrow> x = Version"
  by (cases x) auto

lemma quiet_publish:
  assumes "quiet c ps"
  shows "quiet ((publish_step s ^^ 6) c) (ps @ [s])"
  using assms unfolding quiet_def less_4 by (auto simp: bbo_steps fun_eq_iff intro: var_other)

lemma quiet_run:
  "quiet c ps \<Longrightarrow> \<exists>c'. quiet c' (ps @ qs) \<and> (\<forall>ts. bbo_run strong c (concat (map (\<lambda>p. replicate 6 (Write p)) qs) @ ts) = bbo_run strong c' ts)"
proof (induction qs arbitrary: c ps)
  case (Cons q qs)
  from Cons.IH [OF quiet_publish [OF Cons.prems, of q]] show ?case by (simp only: list.map concat.simps append_assoc bbo_run_writes append_Cons append_Nil)
qed auto

lemma quiet_last:
  assumes "quiet c ps"
  shows "bc_memory c x ! bc_writer_view c x = last (bc_memory c x)"
proof -
  have "length (bc_memory c x) = bc_writer_view c x + 1" using assms by (simp add: quiet_def)
  then show ?thesis using last_conv_nth [of "bc_memory c x"] by fastforce
qed

lemma quiet_first_load:
  assumes "quiet c ps"
  shows "try_read_step False (2 * length ps) c =
     Some (c\<lparr>bc_reader := R_field 0 (of_nat (2 * length ps)) [], bc_reader_view := bc_writer_view c\<rparr>)"
proof -
  have "bc_memory c Version ! (2 * length ps) = (of_nat (2 * length ps), bc_writer_view c)"
    using assms quiet_last [OF assms, of Version] by (simp add: quiet_def)
  then show ?thesis
    using assms u64_even [of "length ps"] by (auto simp: quiet_def try_read_step_def load_def Let_def fun_eq_iff)
qed

lemma publish_five:
  fixes c s
  defines "d \<equiv> (publish_step s ^^ 5) c"
  assumes "bc_writer c = W_idle"
  shows "bc_reader d = bc_reader c" "bc_reader_view d = bc_reader_view c" "bc_published d = bc_published c"
    and "\<exists>m. bc_memory d Version = bc_memory c Version @ [m]"
    and "k < 4 \<Longrightarrow> \<exists>m. bc_memory d (field_var k) = bc_memory c (field_var k) @ [(field s k, m)]"
  using assms(2) unfolding d_def less_4 by (auto simp: bbo_steps)

text \<open>
  The reader has the version of the last publication and \<open>k\<close> fields; the next publication has stored all
  its fields, and the reader knows of none of the stores to the fields that it has not loaded.
\<close>

definition crossing :: "(nat \<Rightarrow> bool) \<Rightarrow> nat \<Rightarrow> bbo_cell \<Rightarrow> bbo_snapshot list \<Rightarrow> bbo_snapshot \<Rightarrow> bool" where
  "crossing fresh k c ps s \<longleftrightarrow> bc_published c = ps \<and>
     bc_reader c = R_field k (of_nat (2 * length ps)) (map (\<lambda>i. field (if fresh i then s else last (zero_snapshot # ps)) i) [0..<k]) \<and>
     bc_reader_view c Version = 2 * length ps \<and> (\<forall>i. k \<le> i \<and> i < 4 \<longrightarrow> bc_reader_view c (field_var i) = length ps) \<and>
     2 * length ps < length (bc_memory c Version) \<and> fst (bc_memory c Version ! (2 * length ps)) = of_nat (2 * length ps) \<and>
     (\<forall>i < 4. length (bc_memory c (field_var i)) = length ps + 2 \<and>
        fst (bc_memory c (field_var i) ! length ps) = field (last (zero_snapshot # ps)) i \<and>
        fst (bc_memory c (field_var i) ! (length ps + 1)) = field s i)"

lemma quiet_crossing:
  assumes q: "quiet c ps"
  shows "crossing fresh 0 ((publish_step s ^^ 5) (c\<lparr>bc_reader := R_field 0 (of_nat (2 * length ps)) [], bc_reader_view := bc_writer_view c\<rparr>)) ps s"
    (is "crossing _ _ ?d _ _")
proof -
  let ?c = "c\<lparr>bc_reader := R_field 0 (of_nat (2 * length ps)) [], bc_reader_view := bc_writer_view c\<rparr>"
  have idle: "bc_writer ?c = W_idle" using q by (simp add: quiet_def)
  note five = publish_five [OF idle, where s = s]
  have len: "length (bc_memory c Version) = 2 * length ps + 1" "length (bc_memory c (field_var i)) = length ps + 1" for i
    using q by (simp_all add: quiet_def)
  have old: "fst (bc_memory c (field_var i) ! length ps) = field (last (zero_snapshot # ps)) i" if "i < 4" for i
    using q quiet_last [OF q, of "field_var i"] that by (simp add: quiet_def newest_def)
  have "bc_memory c Version ! (2 * length ps) = (of_nat (2 * length ps), bc_writer_view c)"
    using q quiet_last [OF q, of Version] by (simp add: quiet_def)
  then have "2 * length ps < length (bc_memory ?d Version)" "fst (bc_memory ?d Version ! (2 * length ps)) = of_nat (2 * length ps)"
    using five(4) len(1) by (auto simp: nth_append)
  moreover have "length (bc_memory ?d (field_var i)) = length ps + 2 \<and>
      fst (bc_memory ?d (field_var i) ! length ps) = field (last (zero_snapshot # ps)) i \<and>
      fst (bc_memory ?d (field_var i) ! (length ps + 1)) = field s i" if "i < 4" for i
    using five(5) [OF that] len(2) [of i] old [OF that] by (auto simp: nth_append)
  ultimately show ?thesis using q five(1,2,3) by (simp add: crossing_def quiet_def)
qed

lemma crossing_load:
  assumes c: "crossing fresh k c ps s" and k: "k < 4"
  shows "\<exists>c'. try_read_step False (length ps + of_bool (fresh k)) c = Some c' \<and> crossing fresh (Suc k) c' ps s"
proof -
  let ?t = "length ps + of_bool (fresh k)"
  let ?c = "c\<lparr>bc_reader_view := (bc_reader_view c)(field_var k := ?t)\<rparr>"
  have v: "fst (bc_memory c (field_var k) ! ?t) = field (if fresh k then s else last (zero_snapshot # ps)) k"
    using c k by (simp add: crossing_def)
  have "load False False (field_var k) ?t c = Some (field (if fresh k then s else last (zero_snapshot # ps)) k, ?c)"
    using c k v by (auto simp: crossing_def load_def Let_def split: prod.splits)
  moreover have "field_var i \<noteq> field_var k" if "Suc k \<le> i" "i < 4" for i using field_var_inj [of i k] that k by simp
  ultimately show ?thesis using c k by (simp add: crossing_def try_read_step_def)
qed

lemma crossing_loads:
  assumes "crossing fresh k c ps s" "k + n \<le> 4"
  shows "\<exists>c'. crossing fresh (k + n) c' ps s \<and>
     (\<forall>ts. bbo_run False c (map (\<lambda>i. Read (length ps + of_bool (fresh i))) [k..<k + n] @ ts) = bbo_run False c' ts)"
  using assms
proof (induction n arbitrary: k c)
  case (Suc n)
  from crossing_load [OF Suc.prems(1)] Suc.prems(2) obtain d where
    d: "try_read_step False (length ps + of_bool (fresh k)) c = Some d" "crossing fresh (Suc k) d ps s" by auto
  obtain c' where c': "crossing fresh (Suc k + n) c' ps s"
    "\<And>ts. bbo_run False d (map (\<lambda>i. Read (length ps + of_bool (fresh i))) [Suc k..<Suc k + n] @ ts) = bbo_run False c' ts"
    using Suc.IH [OF d(2)] Suc.prems(2) by auto
  have "[k..<k + Suc n] = k # [Suc k..<Suc k + n]" using upt_conv_Cons [of k "k + Suc n"] by simp
  with d(1) c' show ?case by (intro exI [of _ c']) (simp del: upt_Suc)
qed auto

lemma crossing_finish:
  assumes "crossing fresh 4 c ps s"
  shows "\<exists>c'. bbo_run False c [Read (2 * length ps)] = Some c' \<and> bc_published c' = ps \<and>
     bc_reader c' = R_done (Some (torn (last (zero_snapshot # ps)) s fresh))"
proof -
  obtain m where "bc_memory c Version ! (2 * length ps) = (of_nat (2 * length ps), m)"
    using assms unfolding crossing_def by (metis prod.collapse)
  then show ?thesis using assms by (simp add: crossing_def try_read_step_def load_def Let_def torn_def numeral_2_eq_2 [symmetric])
qed

lemma crossing_read:
  assumes "crossing fresh 0 c ps s"
  shows "\<exists>c'. bbo_run False c (map (\<lambda>k. Read (length ps + of_bool (fresh k))) [0..<4] @ [Read (2 * length ps)]) = Some c' \<and>
     bc_published c' = ps \<and> bc_reader c' = R_done (Some (torn (last (zero_snapshot # ps)) s fresh))"
proof -
  obtain d where d: "crossing fresh 4 d ps s"
    "\<And>ts. bbo_run False c (map (\<lambda>k. Read (length ps + of_bool (fresh k))) [0..<4] @ ts) = bbo_run False d ts"
    using crossing_loads [OF assms, of 4] by (metis add_0 order_refl)
  from crossing_finish [OF d(1)] show ?thesis unfolding d(2) .
qed

text \<open>
  C39. Under the memory orders the code uses, a read can return any mixture of two publications. After
  any publications \<open>ps\<close>, with the publication of any further snapshot \<open>s\<close> under way, and for each choice of the fields
  that are new, there is a schedule in which the relaxed loads return the new value of those fields and the previous value
  of the others, and the second load of the version, which nothing orders after them, the old version, so
  that the mixture is returned as a snapshot while \<open>s\<close> has not been published.
\<close>

theorem bbo_relaxed_read_torn:
  "\<exists>c. bbo_run False bbo_new (torn_schedule ps s fresh) = Some c \<and> bc_published c = ps \<and>
     bc_reader c = R_done (Some (torn (last (zero_snapshot # ps)) s fresh))"
proof -
  obtain c where c: "quiet c ps"
    "\<And>ts. bbo_run False bbo_new (concat (map (\<lambda>p. replicate 6 (Write p)) ps) @ ts) = bbo_run False c ts"
    using quiet_run [OF quiet_new, of ps False] by auto
  show ?thesis
    unfolding torn_schedule_def c(2) append_Cons append_Nil bbo_run.simps quiet_first_load [OF c(1)] option.case bbo_run_writes
    by (rule crossing_read [OF quiet_crossing [OF c(1)]])
qed

end
