(* ===== verification/Thread_Ring.thy ===== *)
theory Thread_Ring
  imports Prelude
begin

text \<open>
  The per-thread buffer of timing samples and the scope that fills it (\<open>cpp/include/llab/metrics.hpp\<close>). What the cycle
  counter of the processor returns is an argument.
\<close>

section \<open>State and operations\<close>

record cycle_sample =
  cs_begin :: u64
  cs_end :: u64
  cs_tag :: u32
  cs_cpu :: u32

text \<open>\<open>CycleClock\<close>; \<open>x86\<close> tells whether the program is built for that processor.\<close>

definition clock_supported :: "bool \<Rightarrow> bool" where
  "clock_supported x86 = (if x86 then True else False)"

definition clock_begin :: "bool \<Rightarrow> u64 \<Rightarrow> u64" where
  "clock_begin x86 rdtsc = (if x86 then rdtsc else 0)"

definition clock_end :: "bool \<Rightarrow> u64 \<times> u32 \<Rightarrow> u64 \<times> u32" where
  "clock_end x86 rdtscp = (if x86 then rdtscp else (0, 0))"

record thread_ring =
  tr_samples :: "cycle_sample list"
  tr_used :: nat
  tr_dropped :: nat

definition tr_new :: "nat \<Rightarrow> thread_ring result" where
  "tr_new capacity =
     (if capacity = 0 then Raise (Invalid_argument ''metric ring capacity'')
      else Value \<lparr>tr_samples = replicate capacity \<lparr>cs_begin = 0, cs_end = 0, cs_tag = 0, cs_cpu = 0\<rparr>, tr_used = 0, tr_dropped = 0\<rparr>)"

definition tr_record :: "thread_ring \<Rightarrow> u32 \<Rightarrow> u64 \<Rightarrow> u64 \<Rightarrow> u32 \<Rightarrow> thread_ring" where
  "tr_record r tag b e cpu =
     (if tr_used r = length (tr_samples r) then r\<lparr>tr_dropped := tr_dropped r + 1\<rparr>
      else r\<lparr>tr_samples := (tr_samples r)[tr_used r := \<lparr>cs_begin = b, cs_end = e, cs_tag = tag, cs_cpu = cpu\<rparr>],
             tr_used := tr_used r + 1\<rparr>)"

definition tr_reset :: "thread_ring \<Rightarrow> thread_ring" where
  "tr_reset r = r\<lparr>tr_used := 0, tr_dropped := 0\<rparr>"

text \<open>
  \<open>Scope<true>\<close>: the constructor takes the start time, the destructor records into the ring as it is then,
  unless the pointer is null; of the pointer the scope keeps whether it is. \<open>Scope<false>\<close> does nothing.
\<close>

record scope =
  sc_ring :: bool
  sc_tag :: u32
  sc_begin :: u64

definition scope_enter :: "bool \<Rightarrow> u32 \<Rightarrow> u64 \<Rightarrow> scope" where
  "scope_enter ring tag started = \<lparr>sc_ring = ring, sc_tag = tag, sc_begin = started\<rparr>"

definition scope_leave :: "scope \<Rightarrow> thread_ring \<Rightarrow> u64 \<Rightarrow> u32 \<Rightarrow> thread_ring" where
  "scope_leave s ring ended cpu =
     (if sc_ring s then tr_record ring (sc_tag s) (sc_begin s) ended cpu else ring)"

text \<open>Scopes of one thread nest: the one entered last is left first.\<close>

datatype scope_event = Enter bool u32 u64 | Leave u64 u32

fun scopes_run :: "thread_ring \<Rightarrow> scope list \<Rightarrow> scope_event list \<Rightarrow> thread_ring" where
  "scopes_run ring open_scopes [] = ring"
| "scopes_run ring open_scopes (Enter has_ring tag b # es) = scopes_run ring (scope_enter has_ring tag b # open_scopes) es"
| "scopes_run ring [] (Leave e cpu # es) = scopes_run ring [] es"
| "scopes_run ring (s # open_scopes) (Leave e cpu # es) = scopes_run (scope_leave s ring e cpu) open_scopes es"

section \<open>What the ring keeps\<close>

text \<open>The samples of the scopes with a ring, in the order in which they are left.\<close>

fun left_samples :: "scope list \<Rightarrow> scope_event list \<Rightarrow> cycle_sample list" where
  "left_samples open_scopes [] = []"
| "left_samples open_scopes (Enter has_ring tag b # es) = left_samples (\<lparr>sc_ring = has_ring, sc_tag = tag, sc_begin = b\<rparr> # open_scopes) es"
| "left_samples [] (Leave e cpu # es) = left_samples [] es"
| "left_samples (s # open_scopes) (Leave e cpu # es) =
     (if sc_ring s then [\<lparr>cs_begin = sc_begin s, cs_end = e, cs_tag = sc_tag s, cs_cpu = cpu\<rparr>] else []) @ left_samples open_scopes es"

definition tr_holds :: "nat \<Rightarrow> thread_ring \<Rightarrow> cycle_sample list \<Rightarrow> bool" where
  "tr_holds capacity r xs \<longleftrightarrow> length (tr_samples r) = capacity \<and> tr_used r = min capacity (length xs) \<and>
     tr_dropped r = length xs - capacity \<and> take (tr_used r) (tr_samples r) = take capacity xs"

lemma tr_holds_record:
  assumes "tr_holds capacity r xs"
  shows "tr_holds capacity (tr_record r tag b e cpu) (xs @ [\<lparr>cs_begin = b, cs_end = e, cs_tag = tag, cs_cpu = cpu\<rparr>])"
proof (cases "length xs < capacity")
  case True
  then have "tr_used r = length xs" "tr_dropped r = 0" "length (tr_samples r) = capacity" "take (length xs) (tr_samples r) = xs"
    using assms by (auto simp: tr_holds_def)
  with True show ?thesis by (simp add: tr_holds_def tr_record_def take_Suc_conv_app_nth)
next
  case False
  with assms show ?thesis by (auto simp: tr_holds_def tr_record_def)
qed

lemma tr_holds_run: "tr_holds capacity r xs \<Longrightarrow> tr_holds capacity (scopes_run r open_scopes es) (xs @ left_samples open_scopes es)"
proof (induction r open_scopes es arbitrary: xs rule: scopes_run.induct)
  case (4 r s open_scopes e cpu es)
  have "tr_holds capacity (scope_leave s r e cpu)
      (xs @ (if sc_ring s then [\<lparr>cs_begin = sc_begin s, cs_end = e, cs_tag = sc_tag s, cs_cpu = cpu\<rparr>] else []))"
    using "4.prems" by (simp add: scope_leave_def tr_holds_record)
  from "4.IH" [OF this] show ?case by simp
qed (simp_all add: scope_enter_def)

text \<open>
  Whatever scopes are entered and left, nested or one after the other, the ring keeps the first samples up to its capacity, in
  the order in which the scopes are left, counts the others as dropped and never moves its storage; a reset makes it as
  good as new.
\<close>

theorem thread_ring_keeps_first:
  assumes "tr_new capacity = Value r"
  shows "let r' = scopes_run (tr_reset (scopes_run r [] before_reset)) [] es; xs = left_samples [] es
    in length (tr_samples r') = capacity \<and> take (tr_used r') (tr_samples r') = take capacity xs \<and>
       tr_used r' + tr_dropped r' = length xs"
proof -
  have "tr_holds capacity r []" using assms by (auto simp: tr_new_def tr_holds_def split: if_splits)
  from tr_holds_run [OF this, of "[]" before_reset] have "tr_holds capacity (tr_reset (scopes_run r [] before_reset)) []"
    by (simp add: tr_holds_def tr_reset_def)
  from tr_holds_run [OF this, of "[]" es] show ?thesis by (auto simp: tr_holds_def Let_def)
qed

text \<open>Two nested scopes and a third one on a ring for two samples.\<close>

definition sample_scopes :: "scope_event list" where
  "sample_scopes = [Enter True 1 10, Enter True 2 11, Leave 12 0, Leave 13 0, Enter True 3 14, Leave 15 0]"

theorem thread_ring_keeps_first_witness:
  "\<exists>r. tr_new 2 = Value r \<and>
    (let r' = scopes_run (tr_reset (scopes_run r [] [])) [] sample_scopes
     in map cs_tag (take (tr_used r') (tr_samples r')) = [2, 1] \<and> tr_used r' + tr_dropped r' = 3)"
proof -
  obtain r where r: "tr_new 2 = Value r" by (simp add: tr_new_def)
  from thread_ring_keeps_first [OF r, of "[]" sample_scopes] r show ?thesis by (simp add: Let_def sample_scopes_def)
qed

section \<open>The metrics of a benchmark\<close>

text \<open>
  The scopes that a sample of \<open>cpp/benchmarks/mixed_lifecycle.cpp\<close> opens around the events of its trace: around each one
  (\<open>LLAB_METRICS_CAPTURE\<close>) or around every 64th (\<open>LLAB_METRICS_SAMPLED\<close>). A tick is what the cycle counter returns before
  and after the event. The check of the sample fails if the ring is not exactly full.
\<close>

type_synonym tick = "u64 \<times> u64 \<times> u32"

definition event_scope :: "bool \<Rightarrow> tick \<Rightarrow> scope_event list" where
  "event_scope x86 tick =
     (case tick of (b, e, aux) \<Rightarrow> case clock_end x86 (e, aux) of (e, cpu) \<Rightarrow> [Enter True 1 (clock_begin x86 b), Leave e cpu])"

definition capture_scopes :: "bool \<Rightarrow> tick list \<Rightarrow> scope_event list" where
  "capture_scopes x86 ticks = concat (map (event_scope x86) ticks)"

definition sampled_scopes :: "bool \<Rightarrow> tick list \<Rightarrow> scope_event list" where
  "sampled_scopes x86 ticks =
     concat (map (\<lambda>k. if of_nat k AND (63 :: u64) = 0 then event_scope x86 (ticks ! k) else []) [0..<length ticks])"

definition check_ring :: "nat \<Rightarrow> string \<Rightarrow> thread_ring \<Rightarrow> thread_ring result" where
  "check_ring wanted message_text r =
     (if tr_used r \<noteq> wanted \<or> tr_dropped r \<noteq> 0 then Raise (Runtime_error message_text) else Value r)"

definition capture_metrics :: "bool \<Rightarrow> tick list \<Rightarrow> thread_ring result" where
  "capture_metrics x86 ticks =
     and_then (tr_new (length ticks)) (\<lambda>r. check_ring (length ticks) ''metrics capture incomplete'' (scopes_run r [] (capture_scopes x86 ticks)))"

definition sampled_metrics :: "bool \<Rightarrow> tick list \<Rightarrow> thread_ring result" where
  "sampled_metrics x86 ticks =
     (let wanted = (length ticks + 63) div 64
      in and_then (tr_new wanted) (\<lambda>r. check_ring wanted ''metrics sampled capture incomplete'' (scopes_run r [] (sampled_scopes x86 ticks))))"

lemma left_samples_scope:
  "\<exists>x. \<forall>es. left_samples [] (event_scope x86 tick @ es) = x # left_samples [] es"
  by (cases tick; cases "clock_end x86 (fst (snd tick), snd (snd tick))") (simp add: event_scope_def)

lemma left_samples_scopes: "length (left_samples [] (concat (map (event_scope x86) ticks))) = length ticks"
proof (induction ticks)
  case (Cons t ticks)
  obtain x where "left_samples [] (event_scope x86 t @ concat (map (event_scope x86) ticks)) =
      x # left_samples [] (concat (map (event_scope x86) ticks))"
    using left_samples_scope [of x86 t] by blast
  with Cons show ?case by simp
qed simp

lemma concat_map_if: "concat (map (\<lambda>k. if P k then f k else []) ks) = concat (map f (filter P ks))"
  by (induction ks) simp_all

lemma ring_exactly_full:
  assumes "tr_new n = Value r" "length (left_samples [] es) = n"
  shows "check_ring n m (scopes_run r [] es) = Value (scopes_run r [] es)"
proof -
  have "tr_holds n r []" using assms(1) by (auto simp: tr_new_def tr_holds_def split: if_splits)
  from tr_holds_run [OF this, of "[]" es] assms(2) show ?thesis by (simp add: tr_holds_def check_ring_def)
qed

lemma sampled_indices: "length (filter (\<lambda>k. k mod 64 = 0) [0..<n]) = (n + 63) div 64"
proof (induction n)
  case (Suc n)
  have n: "n = n mod 64 + n div 64 * 64" "n mod 64 < 64" by simp_all
  have "(Suc n + 63) div 64 = 1 + n div 64" by simp
  moreover have "(n + 63) div 64 = (if n mod 64 = 0 then 0 else 1) + n div 64"
  proof -
    have "(n + 63) div 64 = (n mod 64 + 63 + n div 64 * 64) div 64" using n(1) by simp
    also have "\<dots> = (n mod 64 + 63) div 64 + n div 64" by (rule div_mult_self1 [THEN trans]) simp_all
    also have "(n mod 64 + 63) div 64 = (if n mod 64 = 0 then 0 else 1)"
      using n(2) by (auto intro!: div_nat_eqI)
    finally show ?thesis .
  qed
  ultimately show ?case using Suc by simp
qed simp

lemma mask_64: "k < 2 ^ 64 \<Longrightarrow> of_nat k AND (63 :: u64) = 0 \<longleftrightarrow> k mod 64 = 0"
proof -
  assume k: "k < 2 ^ 64"
  have "k AND 63 = k mod 64"
    using take_bit_eq_mask [of 6 k] by (simp add: take_bit_eq_mod mask_eq_exp_minus_1)
  then have "unat (of_nat k AND (63 :: u64)) = k mod 64"
    using k by (simp add: unsigned_and_eq unat_of_nat_u64)
  then show ?thesis by (metis unat_zero_iff)
qed

text \<open>
  The check of a sample never fails: the ring of either build has exactly the room for the scopes that it opens.
\<close>

lemma metrics_complete:
  assumes "ticks \<noteq> []" "length ticks < 2 ^ 64"
  shows "(\<exists>r. capture_metrics x86 ticks = Value r) \<and> (\<exists>r. sampled_metrics x86 ticks = Value r)"
proof
  have new: "\<exists>r. tr_new n = Value r" if "0 < n" for n using that by (simp add: tr_new_def)
  show "\<exists>r. capture_metrics x86 ticks = Value r"
    using new [of "length ticks"] ring_exactly_full [of "length ticks"] left_samples_scopes [of x86 ticks] assms(1)
    by (auto simp: capture_metrics_def capture_scopes_def)
  let ?ks = "filter (\<lambda>k. k mod 64 = 0) [0..<length ticks]"
  have mask: "of_nat k AND (63 :: u64) = 0 \<longleftrightarrow> k mod 64 = 0" if "k < length ticks" for k
    using that assms(2) by (intro mask_64) simp
  have "sampled_scopes x86 ticks = concat (map (\<lambda>k. if k mod 64 = 0 then event_scope x86 (ticks ! k) else []) [0..<length ticks])"
    unfolding sampled_scopes_def by (rule arg_cong [of _ _ concat], rule map_cong [OF refl]) (simp add: mask)
  also have "\<dots> = concat (map (event_scope x86) (map ((!) ticks) ?ks))"
    by (simp add: concat_map_if map_map o_def)
  finally have "length (left_samples [] (sampled_scopes x86 ticks)) = (length ticks + 63) div 64"
    using left_samples_scopes [of x86 "map ((!) ticks) ?ks"] sampled_indices [of "length ticks"] by simp
  moreover have "0 < (length ticks + 63) div 64" using assms(1) by (cases ticks) simp_all
  ultimately show "\<exists>r. sampled_metrics x86 ticks = Value r"
    using new [of "(length ticks + 63) div 64"] ring_exactly_full by (auto simp: sampled_metrics_def Let_def)
qed

end
