(* ===== verification/Capture_Config.thy ===== *)
theory Capture_Config
  imports Capture_Processor
begin

text \<open>
  The configuration of the capture program (\<open>cpp/benchmarks/bybit_l2_capture.cpp\<close>): the defaults, the file
  \<open>.env\<close>, the environment and the command line, each overriding the ones before it. The environment is a
  function from names to values, the file \<open>.env\<close> its text, if there is one.
\<close>

section \<open>Numbers in options\<close>

definition is_space :: "char \<Rightarrow> bool" where
  "is_space c \<longleftrightarrow> of_char c = (32 :: nat) \<or> 9 \<le> (of_char c :: nat) \<and> of_char c \<le> (13 :: nat)"

text \<open>
  \<open>std::stoull\<close>: white space and a sign may come first, what follows the digits is ignored, and a minus
  sign negates modulo \<open>2 ^ 64\<close>.
\<close>

definition stoull :: "string \<Rightarrow> u64 result" where
  "stoull xs =
     (let xs = dropWhile is_space xs;
          negative = (case xs of [] \<Rightarrow> False | c # _ \<Rightarrow> c = CHR ''-'');
          xs = (case xs of [] \<Rightarrow> [] | c # cs \<Rightarrow> if c = CHR ''-'' \<or> c = CHR ''+'' then cs else xs);
          digits = takeWhile isdigit xs
      in if digits = [] then Raise (Invalid_argument ''stoull'')
         else if decimal digits \<ge> 2 ^ 64 then Raise (Out_of_range ''stoull'')
         else Value (if negative then - of_nat (decimal digits) else of_nat (decimal digits)))"

section \<open>Environment\<close>

text \<open>The lines that \<open>std::getline\<close> reads.\<close>

function getlines :: "string \<Rightarrow> string list" where
  "getlines xs =
     (if xs = [] then []
      else let line = takeWhile (\<lambda>c. c \<noteq> CHR 0x0A) xs; left = drop (length line) xs
           in if left = [] then [line] else line # getlines (tl left))"
  by pat_completeness auto
termination
  by (relation "measure length") auto

declare getlines.simps [simp del]

text \<open>One line of \<open>.env\<close>; \<open>emplace\<close> keeps the first value of a name.\<close>

definition dotenv_line :: "string \<Rightarrow> (string \<rightharpoonup> string) \<Rightarrow> (string \<rightharpoonup> string)" where
  "dotenv_line line values =
     (if CHR ''='' \<notin> set line \<or> line = [] \<or> hd line = CHR ''#'' then values
      else let name = takeWhile (\<lambda>c. c \<noteq> CHR ''='') line; value = drop (length name + 1) line
           in if values name = None then values(name \<mapsto> value) else values)"

definition load_dotenv :: "string option \<Rightarrow> (string \<rightharpoonup> string)" where
  "load_dotenv contents = (case contents of None \<Rightarrow> Map.empty | Some xs \<Rightarrow> fold dotenv_line (getlines xs) Map.empty)"

definition env_or :: "(string \<rightharpoonup> string) \<Rightarrow> (string \<rightharpoonup> string) \<Rightarrow> string \<Rightarrow> string \<Rightarrow> string" where
  "env_or getenv dotenv name fallback =
     (case getenv name of Some value \<Rightarrow> value
      | None \<Rightarrow> (case dotenv name of Some found \<Rightarrow> found | None \<Rightarrow> fallback))"

section \<open>Configuration\<close>

record config =
  cf_host :: string
  cf_target :: string
  cf_symbol :: string
  cf_depth :: u64
  cf_max_frames :: u64
  cf_record_path :: "path option"
  cf_replay_path :: "path option"

definition default_config :: config where
  "default_config = \<lparr>cf_host = ''stream.bybit.com'', cf_target = ''/v5/public/spot'', cf_symbol = ''BTCUSDT'',
     cf_depth = 50, cf_max_frames = 100, cf_record_path = None, cf_replay_path = None\<rparr>"

definition usage :: exn where
  "usage = Invalid_argument (''usage: bybit_l2_capture [--record path] [--replay path] [--max-frames N] '' @
     ''[--symbol SYMBOL] [--depth N]'')"

text \<open>The loop over the arguments: every option takes the argument after it.\<close>

fun parse_arguments :: "config \<Rightarrow> string list \<Rightarrow> config result" where
  "parse_arguments c [] = Value c"
| "parse_arguments c [arg] = Raise usage"
| "parse_arguments c (arg # v # args) =
     (if arg = ''--record'' then parse_arguments (c\<lparr>cf_record_path := Some v\<rparr>) args
      else if arg = ''--replay'' then parse_arguments (c\<lparr>cf_replay_path := Some v\<rparr>) args
      else if arg = ''--max-frames'' then and_then (stoull v) (\<lambda>n. parse_arguments (c\<lparr>cf_max_frames := n\<rparr>) args)
      else if arg = ''--symbol'' then parse_arguments (c\<lparr>cf_symbol := v\<rparr>) args
      else if arg = ''--depth'' then and_then (stoull v) (\<lambda>n. parse_arguments (c\<lparr>cf_depth := n\<rparr>) args)
      else Raise usage)"

definition parse_config :: "(string \<rightharpoonup> string) \<Rightarrow> string option \<Rightarrow> string list \<Rightarrow> config result" where
  "parse_config getenv env_file args =
     (let env = env_or getenv (load_dotenv env_file);
          c = default_config\<lparr>cf_host := env ''BYBIT_WS_HOST'' (cf_host default_config),
            cf_target := env ''BYBIT_WS_TARGET'' (cf_target default_config),
            cf_symbol := env ''BYBIT_SYMBOL'' (cf_symbol default_config)\<rparr>
      in and_then (stoull (env ''BYBIT_ORDERBOOK_DEPTH'' (to_string (unat (cf_depth c))))) (\<lambda>depth.
         and_then (stoull (env ''BYBIT_MAX_FRAMES'' (to_string (unat (cf_max_frames c))))) (\<lambda>max_frames.
         let capture = env ''BYBIT_CAPTURE_PATH'' [];
             c = c\<lparr>cf_depth := depth, cf_max_frames := max_frames, cf_record_path := if capture \<noteq> [] then Some capture else None\<rparr>
         in and_then (parse_arguments c args) (\<lambda>c.
            if cf_depth c = 0 \<or> cf_max_frames c = 0 then Raise (Invalid_argument ''depth and max-frames must be positive'')
            else Value c))))"

section \<open>Which setting counts\<close>

definition last_option :: "(string \<times> string) list \<Rightarrow> string \<Rightarrow> string option" where
  "last_option opts name = map_of (rev opts) name"

text \<open>The last option of the command line, else the environment, else \<open>.env\<close>, else the default.\<close>

definition setting :: "(string \<times> string) list \<Rightarrow> (string \<rightharpoonup> string) \<Rightarrow> string option \<Rightarrow> string \<Rightarrow> string \<Rightarrow> string \<Rightarrow> string" where
  "setting opts getenv env_file option name fallback =
     (case last_option opts option of Some v \<Rightarrow> v | None \<Rightarrow> env_or getenv (load_dotenv env_file) name fallback)"

definition flatten :: "(string \<times> string) list \<Rightarrow> string list" where
  "flatten opts = concat (map (\<lambda>(k, v). [k, v]) opts)"

lemma last_option_Cons:
  "last_option ((k, v) # opts) name = (case last_option opts name of Some w \<Rightarrow> Some w | None \<Rightarrow> if name = k then Some v else None)"
  by (auto simp: last_option_def map_add_def split: option.splits)

lemma last_option_Nil: "last_option [] name = None"
  by (simp add: last_option_def)

lemma flatten_Cons: "flatten ((k, v) # opts) = k # v # flatten opts"
  by (simp add: flatten_def)

definition overrides :: "(string \<times> string) list \<Rightarrow> config \<Rightarrow> config \<Rightarrow> bool" where
  "overrides opts c c' \<longleftrightarrow>
     cf_host c' = cf_host c \<and> cf_target c' = cf_target c \<and>
     cf_symbol c' = (case last_option opts ''--symbol'' of Some v \<Rightarrow> v | None \<Rightarrow> cf_symbol c) \<and>
     cf_record_path c' = (case last_option opts ''--record'' of Some v \<Rightarrow> Some v | None \<Rightarrow> cf_record_path c) \<and>
     cf_replay_path c' = (case last_option opts ''--replay'' of Some v \<Rightarrow> Some v | None \<Rightarrow> cf_replay_path c) \<and>
     (case last_option opts ''--depth'' of Some v \<Rightarrow> stoull v = Value (cf_depth c') | None \<Rightarrow> cf_depth c' = cf_depth c) \<and>
     (case last_option opts ''--max-frames'' of Some v \<Rightarrow> stoull v = Value (cf_max_frames c') | None \<Rightarrow> cf_max_frames c' = cf_max_frames c)"

lemma overrides_Cons:
  "overrides opts (c\<lparr>cf_record_path := Some v\<rparr>) c' \<Longrightarrow> overrides ((''--record'', v) # opts) c c'"
  "overrides opts (c\<lparr>cf_replay_path := Some v\<rparr>) c' \<Longrightarrow> overrides ((''--replay'', v) # opts) c c'"
  "overrides opts (c\<lparr>cf_symbol := v\<rparr>) c' \<Longrightarrow> overrides ((''--symbol'', v) # opts) c c'"
  "stoull v = Value n \<Longrightarrow> overrides opts (c\<lparr>cf_max_frames := n\<rparr>) c' \<Longrightarrow> overrides ((''--max-frames'', v) # opts) c c'"
  "stoull v = Value n \<Longrightarrow> overrides opts (c\<lparr>cf_depth := n\<rparr>) c' \<Longrightarrow> overrides ((''--depth'', v) # opts) c c'"
  by (auto simp: overrides_def last_option_Cons split: option.splits)

lemma parse_arguments_Value:
  "parse_arguments c args = Value c' \<Longrightarrow> \<exists>opts. args = flatten opts \<and> overrides opts c c'"
proof (induction c args rule: parse_arguments.induct)
  case (1 c)
  then have "args = flatten [] \<and> overrides [] c c'" if "args = []" for args
    using that by (simp add: flatten_def overrides_def last_option_Nil)
  then show ?case by blast
next
  case (3 c arg v args)
  have "\<exists>opts. arg # v # args = flatten ((arg, v) # opts) \<and> overrides ((arg, v) # opts) c c'"
    unfolding flatten_Cons using "3.prems" "3.IH" by (auto split: if_splits elim!: and_then_ValueE intro: overrides_Cons) (metis overrides_Cons(4))
  then show ?case by blast
qed simp

lemma stoull_to_string: "n < 2 ^ 64 \<Longrightarrow> stoull (to_string n) = Value (of_nat n)"
proof -
  assume n: "n < 2 ^ 64"
  obtain c cs where xs: "to_string n = c # cs" "isdigit c" using to_string_digits [of n] by (cases "to_string n") auto
  then have "\<not> is_space c" "c \<noteq> CHR ''-''" "c \<noteq> CHR ''+''" by (auto simp: is_space_def isdigit_def)
  moreover have "takeWhile isdigit (c # cs) = c # cs" using to_string_digits [of n] by (simp add: xs(1) list_all_iff)
  ultimately show ?thesis using n decimal_to_string [of n] by (simp add: stoull_def xs(1) Let_def)
qed

text \<open>
  Which setting counts: if the configuration is accepted, the command line was a list of options with their
  arguments, each setting is that of its last option, else of the environment, else of the first line for it
  in \<open>.env\<close>, else the default; depth and number of frames are positive.
\<close>

theorem parse_config_precedence:
  assumes "parse_config getenv env_file args = Value c"
  shows "\<exists>opts. args = flatten opts \<and> (let setting = setting opts getenv env_file in
    cf_symbol c = setting ''--symbol'' ''BYBIT_SYMBOL'' ''BTCUSDT'' \<and>
    stoull (setting ''--depth'' ''BYBIT_ORDERBOOK_DEPTH'' ''50'') = Value (cf_depth c) \<and>
    stoull (setting ''--max-frames'' ''BYBIT_MAX_FRAMES'' ''100'') = Value (cf_max_frames c) \<and>
    cf_record_path c = (if last_option opts ''--record'' = None \<and> setting ''--record'' ''BYBIT_CAPTURE_PATH'' [] = [] then None
      else Some (setting ''--record'' ''BYBIT_CAPTURE_PATH'' [])) \<and>
    cf_replay_path c = last_option opts ''--replay'' \<and> 0 < cf_depth c \<and> 0 < cf_max_frames c)"
proof -
  define env where "env = env_or getenv (load_dotenv env_file)"
  let ?c = "\<lambda>depth max_frames. \<lparr>cf_host = env ''BYBIT_WS_HOST'' ''stream.bybit.com'', cf_target = env ''BYBIT_WS_TARGET'' ''/v5/public/spot'',
      cf_symbol = env ''BYBIT_SYMBOL'' ''BTCUSDT'', cf_depth = depth, cf_max_frames = max_frames,
      cf_record_path = if env ''BYBIT_CAPTURE_PATH'' [] \<noteq> [] then Some (env ''BYBIT_CAPTURE_PATH'' []) else None, cf_replay_path = None\<rparr>"
  have num: "to_string 50 = ''50''" "to_string 100 = ''100''" by code_simp+
  obtain depth max_frames where d: "stoull (env ''BYBIT_ORDERBOOK_DEPTH'' ''50'') = Value depth"
    and m: "stoull (env ''BYBIT_MAX_FRAMES'' ''100'') = Value max_frames"
    and p: "parse_arguments (?c depth max_frames) args = Value c"
    and pos: "cf_depth c \<noteq> 0" "cf_max_frames c \<noteq> 0"
    using assms
    by (auto simp: parse_config_def default_config_def Let_def num simp flip: env_def split: if_splits elim!: and_then_ValueE)
  from parse_arguments_Value [OF p] obtain opts where "args = flatten opts" "overrides opts (?c depth max_frames) c" by blast
  then show ?thesis using d m pos
    by (intro exI [of _ opts]) (auto simp: overrides_def setting_def Let_def word_gt_0 simp flip: env_def split: option.splits)
qed

theorem parse_config_precedence_witness:
  "\<exists>c. parse_config [''BYBIT_SYMBOL'' \<mapsto> ''ETHUSDT''] (Some ''BYBIT_SYMBOL=A'') [''--depth'', ''25''] = Value c \<and>
     cf_symbol c = ''ETHUSDT'' \<and> cf_depth c = 25"
proof -
  let ?c = "\<lparr>cf_host = ''stream.bybit.com'', cf_target = ''/v5/public/spot'', cf_symbol = ''ETHUSDT'',
     cf_depth = 25, cf_max_frames = 100, cf_record_path = None, cf_replay_path = None\<rparr>"
  have num: "to_string 50 = ''50''" "to_string 100 = ''100''" "to_string 25 = ''25''" by code_simp+
  have stoull: "stoull ''50'' = Value 50" "stoull ''100'' = Value 100" "stoull ''25'' = Value 25"
    using stoull_to_string [of 50] stoull_to_string [of 100] stoull_to_string [of 25] by (simp_all add: num)
  have env: "load_dotenv (Some ''BYBIT_SYMBOL=A'') = [''BYBIT_SYMBOL'' \<mapsto> ''A'']"
    by (simp add: load_dotenv_def getlines.simps dotenv_line_def)
  have c: "parse_config [''BYBIT_SYMBOL'' \<mapsto> ''ETHUSDT''] (Some ''BYBIT_SYMBOL=A'') [''--depth'', ''25''] = Value ?c"
    by (simp add: parse_config_def default_config_def env Let_def env_or_def num stoull)
  from parse_config_precedence [OF c] obtain opts where "[''--depth'', ''25''] = flatten opts" "0 < cf_depth ?c" by (auto simp: Let_def)
  with c show ?thesis by auto
qed

text \<open>A minus sign passes the test that the numbers are positive.\<close>

lemma negative_numbers_accepted: "stoull ''-1'' = Value uint64_max \<and>
    (\<exists>c. parse_arguments default_config [''--max-frames'', ''-1''] = Value c \<and> cf_max_frames c = uint64_max)"
proof -
  have "stoull ''-1'' = Value uint64_max"
    by (simp add: stoull_def is_space_def isdigit_def digit_value_def)
  then show ?thesis by simp
qed

end
