(* ===== verification/Live_Session.thy ===== *)
theory Live_Session
  imports Capture_Config Async_Recorder
begin

text \<open>
  The live run of the capture program (\<open>live\<close> and \<open>main\<close> of \<open>cpp/benchmarks/bybit_l2_capture.cpp\<close>): it subscribes to
  a topic, records each frame that arrives, consumes it, and closes the recorder after the wanted number of
  frames. The network is a parameter: which of its calls throw, and what the reads return.
  With each message comes what the program meets there: the clocks, and how far the recorder's
  worker gets before; the network also says how far it gets before the subscription is recorded and around the
  closing of the recorder.
\<close>

section \<open>Network and session\<close>

record incoming =
  in_text :: bool
  in_monotonic_ns :: u64
  in_utc_ns :: u64
  in_payload :: string
  in_now_ns :: u64
  in_work :: "io list"

record network =
  nw_connect :: "exn option"
  nw_work_at_start :: "io list"
  nw_subscribe_monotonic_ns :: u64
  nw_subscribe_utc_ns :: u64
  nw_write :: "exn option"
  nw_reads :: "incoming list"
  nw_read_error :: exn
  nw_work_before_close :: "io list"
  nw_work_after_close :: "io list"
  nw_close :: "exn option"

record session =
  ls_processor :: processor
  ls_recorder :: "recorder option"
  ls_index :: u64

definition raises :: "exn option \<Rightarrow> 's \<Rightarrow> 's outcome" where
  "raises x s = (case x of None \<Rightarrow> Done s | Some x \<Rightarrow> Threw x s)"

section \<open>Steps\<close>

definition subscription :: "string \<Rightarrow> string" where
  "subscription topic = (let q = [CHR 0x22] in
     ''{'' @ q @ ''op'' @ q @ '':'' @ q @ ''subscribe'' @ q @ '','' @ q @ ''args'' @ q @ '':['' @ q @ topic @ q @ '']}'')"

definition live_frame :: "session \<Rightarrow> frame_direction \<Rightarrow> frame_kind \<Rightarrow> u64 \<Rightarrow> u64 \<Rightarrow> string \<Rightarrow> raw_frame_record" where
  "live_frame s direction kind monotonic utc payload =
     \<lparr>rf_capture_index = ls_index s, rf_monotonic_ns = monotonic, rf_connection_id = 1, rf_utc_ns = utc,
      rf_direction = direction, rf_kind = kind, rf_payload = to_bytes payload\<rparr>"

text \<open>The lambda \<open>record\<close>: number the frame and hand it to the recorder, if there is one.\<close>

definition live_record :: "session \<Rightarrow> raw_frame_record \<Rightarrow> session outcome" where
  "live_record s frame =
     (let s = s\<lparr>ls_index := ls_index s + 1\<rparr>
      in case ls_recorder s of
        None \<Rightarrow> Done s
      | Some a \<Rightarrow> within (\<lambda>a. s\<lparr>ls_recorder := Some a\<rparr>) (ar_record a frame))"

text \<open>The worker of the recorder runs beside the program.\<close>

definition live_work :: "io list \<Rightarrow> session \<Rightarrow> session" where
  "live_work ios s = s\<lparr>ls_recorder := map_option (\<lambda>a. foldl worker_step a ios) (ls_recorder s)\<rparr>"

lemma live_work_Nil [simp]: "live_work [] s = s"
  by (cases s) (simp add: live_work_def option.map_ident)

definition live_consume :: "'t ptree \<Rightarrow> u64 \<Rightarrow> raw_frame_record \<Rightarrow> session \<Rightarrow> session outcome" where
  "live_consume pt now frame s = within (\<lambda>p. s\<lparr>ls_processor := p\<rparr>) (consume pt (ls_processor s) now frame)"

definition live_receive :: "'t ptree \<Rightarrow> incoming \<Rightarrow> session \<Rightarrow> session outcome" where
  "live_receive pt i s =
     (let s = live_work (in_work i) s;
          frame = live_frame s Inbound (if in_text i then Text else Binary) (in_monotonic_ns i) (in_utc_ns i) (in_payload i)
      in seq (live_record s frame) (live_consume pt (in_now_ns i) frame))"

text \<open>The loop until the wanted number of frames; a read that does not get a message throws.\<close>

fun live_loop :: "'t ptree \<Rightarrow> exn \<Rightarrow> nat \<Rightarrow> incoming list \<Rightarrow> session \<Rightarrow> session outcome" where
  "live_loop pt x 0 is s = Done s"
| "live_loop pt x (Suc n) [] s = Threw x s"
| "live_loop pt x (Suc n) (i # is) s = seq (live_receive pt i s) (live_loop pt x n is)"

text \<open>\<open>recorder->close()\<close>: it returns when the worker has ended.\<close>

definition live_close :: "network \<Rightarrow> session \<Rightarrow> session outcome" where
  "live_close nw s =
     (case ls_recorder s of
        None \<Rightarrow> Done s
      | Some a \<Rightarrow>
          let a = ar_close (foldl worker_step a (nw_work_before_close nw));
              a = ar_join (foldl worker_step a (nw_work_after_close nw));
              s = s\<lparr>ls_recorder := Some a\<rparr>
          in case ar_close_returned a of
            None \<Rightarrow> Diverges
          | Some x \<Rightarrow> raises x s)"

definition live_body :: "'t ptree \<Rightarrow> config \<Rightarrow> network \<Rightarrow> session \<Rightarrow> session outcome" where
  "live_body pt c nw s =
     (let s = live_work (nw_work_at_start nw) s;
          frame = live_frame s Outbound Text (nw_subscribe_monotonic_ns nw) (nw_subscribe_utc_ns nw)
            (subscription (live_topic (unat (cf_depth c)) (cf_symbol c)))
      in seq (live_record s frame) (\<lambda>s.
         seq (raises (nw_write nw) s) (\<lambda>s.
         seq (live_loop pt (nw_read_error nw) (unat (cf_max_frames c)) (nw_reads nw) s) (\<lambda>s.
         seq (live_close nw s) (raises (nw_close nw))))))"

text \<open>
  An exception destroys the recorder, which aborts it and waits for the worker; \<open>ios\<close> is what the
  worker does then.
\<close>

definition live_unwind :: "io list \<Rightarrow> session \<Rightarrow> session" where
  "live_unwind ios s = live_work ios (s\<lparr>ls_recorder := map_option ar_abort (ls_recorder s)\<rparr>)"

definition live_recorder :: "config \<Rightarrow> files \<Rightarrow> string \<Rightarrow> bool \<Rightarrow> io \<Rightarrow> recorder option result" where
  "live_recorder c fs stamp opened io =
     (case cf_record_path c of
        None \<Rightarrow> Value None
      | Some path \<Rightarrow> map_value Some (ar_new fs path stamp (to_bytes (live_topic (unat (cf_depth c)) (cf_symbol c))) opened io))"

definition live_session :: "config \<Rightarrow> recorder option \<Rightarrow> session" where
  "live_session c a =
     \<lparr>ls_processor = pr_new (unat (cf_depth c)) (live_topic (unat (cf_depth c)) (cf_symbol c)) True,
      ls_recorder = a, ls_index = 0\<rparr>"

text \<open>\<open>live\<close>: \<open>ios\<close> is what the worker does when an exception ends the session.\<close>

definition live :: "'t ptree \<Rightarrow> config \<Rightarrow> files \<Rightarrow> string \<Rightarrow> bool \<Rightarrow> io \<Rightarrow> network \<Rightarrow> io list \<Rightarrow> session outcome" where
  "live pt c fs stamp opened io nw ios =
     (let s = live_session c None
      in case nw_connect nw of
        Some x \<Rightarrow> Threw x s
      | None \<Rightarrow> with_value s (live_recorder c fs stamp opened io) (\<lambda>a.
          case live_body pt c nw (live_session c a) of
            Threw x s \<Rightarrow> Threw x (live_unwind ios s)
          | r \<Rightarrow> r))"

section \<open>The program\<close>

text \<open>What \<open>main\<close> returns; \<open>None\<close> if it does not return. The message of an exception goes to the error stream.\<close>

definition capture_main :: "'t ptree \<Rightarrow> (string \<rightharpoonup> string) \<Rightarrow> string option \<Rightarrow> string list \<Rightarrow> nat \<Rightarrow> files \<Rightarrow> string \<Rightarrow> bool \<Rightarrow>
    io \<Rightarrow> network \<Rightarrow> io list \<Rightarrow> nat option" where
  "capture_main pt getenv env_file args n fs stamp opened io nw ios =
     (case parse_config getenv env_file args of
        Raise x \<Rightarrow> Some 1
      | Loops \<Rightarrow> None
      | Value c \<Rightarrow>
          (case cf_replay_path c of
             Some path \<Rightarrow> (case replay n pt fs path of Exits code p \<Rightarrow> Some code | Fails x \<Rightarrow> Some 1 | Runs_on \<Rightarrow> None)
           | None \<Rightarrow> (case live pt c fs stamp opened io nw ios of
                       Done s \<Rightarrow> Some (exit_code (ls_processor s)) | Threw x s \<Rightarrow> Some 1 | Diverges \<Rightarrow> None)))"

section \<open>What a session has recorded\<close>

lemma within_Done_iff: "within f r = Done s \<longleftrightarrow> (\<exists>l. r = Done l \<and> s = f l)"
  by (cases r) auto

lemma consume_all_snoc: "consume_all pt p (xs @ [(now, r)]) = seq (consume_all pt p xs) (\<lambda>p. consume pt p now r)"
proof (induction xs arbitrary: p)
  case (Cons x xs)
  then show ?case by (cases x; cases "consume pt p (fst x) (snd x)") auto
next
  case Nil
  then show ?case by (cases "consume pt p now r") auto
qed

lemma numbered_from_snoc:
  "numbered_from k (rs @ [r]) \<longleftrightarrow> numbered_from k rs \<and> rf_capture_index r = k + of_nat (length rs)"
  by (auto simp: numbered_from_def nth_append less_Suc_eq)

lemma push_capacity: "try_push q h payload = (res, q') \<Longrightarrow>
  fq_payload_capacity q' = fq_payload_capacity q \<and> (res = Queued \<longrightarrow> length payload \<le> fq_payload_capacity q)"
  by (auto simp: try_push_def fill_slot_def Let_def split: if_splits)

lemma pop_capacity: "try_pop_into q n = (y, q') \<Longrightarrow> fq_payload_capacity q' = fq_payload_capacity q"
  by (auto simp: try_pop_into_def Let_def split: if_splits)

lemma worker_step_capacity: "fq_payload_capacity (ar_queue (worker_step a io)) = fq_payload_capacity (ar_queue a)"
  by (auto simp: worker_step_def ar_fail_def dest: pop_capacity split: worker.splits prod.splits option.splits outcome.splits)

text \<open>The frames \<open>xs\<close>, each with the clock value it was consumed at, are what a session has done so far.\<close>

definition recording :: "files \<Rightarrow> path \<Rightarrow> u8 list \<Rightarrow> raw_frame_record list \<Rightarrow> recorder \<Rightarrow> bool" where
  "recording fs path topic rs a \<longleftrightarrow> ar_inv fs path topic a \<and> ar_recorded a = rs \<and> \<not> ar_closed a \<and>
     fq_payload_capacity (ar_queue a) = raw_frame_max_payload \<and> list_all (\<lambda>r. length (rf_payload r) \<le> raw_frame_max_payload) rs"

definition live_inv :: "'t ptree \<Rightarrow> processor \<Rightarrow> files \<Rightarrow> path \<Rightarrow> u8 list \<Rightarrow> (u64 \<times> raw_frame_record) list \<Rightarrow> session \<Rightarrow> bool" where
  "live_inv pt p fs path topic xs s \<longleftrightarrow>
     consume_all pt p xs = Done (ls_processor s) \<and> numbered_from 0 (map snd xs) \<and> ls_index s = of_nat (length xs) \<and>
     (\<exists>a. ls_recorder s = Some a \<and> recording fs path topic (map snd xs) a)"

lemma recording_record:
  assumes "recording fs path topic rs a" "ar_record a r = Done a'"
  shows "recording fs path topic (rs @ [r]) a'"
proof -
  have inv: "ar_inv fs path topic a'" using ar_inv_record [of fs path topic a r] assms by (simp add: recording_def)
  obtain res q where push: "try_push (ar_queue a) (header_of r) (rf_payload r) = (res, q)" by fastforce
  from assms(2) push have "a' = a\<lparr>ar_queue := q, ar_recorded := ar_recorded a @ [r]\<rparr>" "res = Queued"
    by (auto simp: ar_record_def split: if_splits)
  with inv assms(1) push_capacity [OF push] show ?thesis by (simp add: recording_def)
qed

lemma recording_work: "recording fs path topic rs a \<Longrightarrow> recording fs path topic rs (foldl worker_step a ios)"
  by (induction ios arbitrary: a) (simp_all add: recording_def ar_inv_worker worker_step_capacity)

lemma live_inv_work: "live_inv pt p fs path topic xs s \<Longrightarrow> live_inv pt p fs path topic xs (live_work ios s)"
  by (auto simp: live_inv_def live_work_def recording_work)

text \<open>A frame that is recorded, and consumed at some time, extends the session.\<close>

lemma live_inv_frame:
  assumes "live_inv pt p fs path topic xs s" "rf_capture_index frame = ls_index s" "live_record s frame = Done t"
    and "consume pt (ls_processor t) now frame = Done q"
  shows "live_inv pt p fs path topic (xs @ [(now, frame)]) (t\<lparr>ls_processor := q\<rparr>)"
proof -
  obtain a where a: "ls_recorder s = Some a" "recording fs path topic (map snd xs) a" using assms(1) by (auto simp: live_inv_def)
  then obtain a' where "ar_record a frame = Done a'" "t = s\<lparr>ls_index := ls_index s + 1, ls_recorder := Some a'\<rparr>"
    using assms(3) by (cases "ar_record a frame") (auto simp: live_record_def)
  with assms a recording_record [of fs path topic "map snd xs" a frame a'] show ?thesis
    by (simp add: live_inv_def consume_all_snoc numbered_from_snoc)
qed

lemma live_frame_index: "rf_capture_index (live_frame s direction kind monotonic utc payload) = ls_index s"
  by (simp add: live_frame_def)

lemma live_inv_receive:
  assumes "live_inv pt p fs path topic xs s" "live_receive pt i s = Done s'"
  shows "\<exists>x. live_inv pt p fs path topic (xs @ [x]) s'"
proof -
  let ?s = "live_work (in_work i) s"
  let ?frame = "live_frame ?s Inbound (if in_text i then Text else Binary) (in_monotonic_ns i) (in_utc_ns i) (in_payload i)"
  obtain t where t: "live_record ?s ?frame = Done t" "live_consume pt (in_now_ns i) ?frame t = Done s'"
    using assms(2) by (auto simp: live_receive_def Let_def seq_Done_iff)
  moreover obtain q where "consume pt (ls_processor t) (in_now_ns i) ?frame = Done q" "s' = t\<lparr>ls_processor := q\<rparr>"
    using t(2) unfolding live_consume_def within_Done_iff by blast
  ultimately show ?thesis
    using live_inv_frame [OF live_inv_work [OF assms(1)] live_frame_index] by blast
qed

lemma live_inv_loop:
  "live_inv pt p fs path topic xs s \<Longrightarrow> live_loop pt x n is s = Done s' \<Longrightarrow>
     \<exists>ys. length ys = n \<and> live_inv pt p fs path topic (xs @ ys) s'"
proof (induction pt x n "is" s arbitrary: xs rule: live_loop.induct)
  case (3 pt x n i "is" s)
  obtain t where t: "live_receive pt i s = Done t" "live_loop pt x n is t = Done s'"
    using "3.prems"(2) by (auto simp: seq_Done_iff)
  obtain y where "live_inv pt p fs path topic (xs @ [y]) t" using live_inv_receive [OF "3.prems"(1) t(1)] by blast
  from "3.IH" [OF this t(2)] obtain ys where "length ys = n" "live_inv pt p fs path topic ((xs @ [y]) @ ys) s'" by blast
  then show ?case by (intro exI [of _ "y # ys"]) simp
qed auto

lemma ar_new_topic: "ar_new fs path stamp topic opened io = Value a \<Longrightarrow> valid_topic topic"
  by (auto simp: ar_new_def cw_open_def valid_topic_def Let_def split: result.splits outcome.splits if_splits)

lemma live_inv_start:
  assumes "live_recorder c fs stamp opened io = Value a" "cf_record_path c = Some path"
  shows "live_inv pt (ls_processor (live_session c a)) fs path (to_bytes (live_topic (unat (cf_depth c)) (cf_symbol c))) []
    (live_session c a)"
proof -
  obtain b where b: "a = Some b" "ar_new fs path stamp (to_bytes (live_topic (unat (cf_depth c)) (cf_symbol c))) opened io = Value b"
    using assms by (cases "ar_new fs path stamp (to_bytes (live_topic (unat (cf_depth c)) (cf_symbol c))) opened io")
      (auto simp: live_recorder_def)
  then have "fq_payload_capacity (ar_queue b) = raw_frame_max_payload \<and> \<not> ar_closed b \<and> ar_recorded b = []"
    by (auto simp: ar_new_def fq_new_def split: result.splits outcome.splits if_splits)
  with b ar_inv_new [OF b(2)] show ?thesis by (simp add: live_inv_def recording_def live_session_def numbered_from_def)
qed

lemma live_inv_subscribe:
  assumes "live_inv pt p fs path topic xs s" "live_record s (live_frame s Outbound Text m u payload) = Done t"
  shows "\<exists>x. live_inv pt p fs path topic (xs @ [x]) t"
proof -
  have "consume pt q now (live_frame s Outbound Text m u payload) = Done q" for q now
    by (simp add: consume_def live_frame_def Inbound_def Outbound_def)
  from live_inv_frame [OF assms(1) live_frame_index assms(2) this] show ?thesis by auto
qed

lemma live_close_Done:
  assumes "live_close nw s = Done s'" "ls_recorder s = Some a" "recording fs path topic rs a"
  shows "ls_processor s' = ls_processor s \<and> (\<exists>a'. ls_recorder s' = Some a' \<and> ar_inv fs path topic a' \<and>
    ar_recorded a' = rs \<and> ar_close_returned a' = Some None)"
proof -
  define b where "b = foldl worker_step (ar_close (foldl worker_step a (nw_work_before_close nw))) (nw_work_after_close nw)"
  have s': "s' = s\<lparr>ls_recorder := Some (ar_join b)\<rparr>" "ar_close_returned (ar_join b) = Some None"
    using assms(1,2) by (auto simp: live_close_def raises_def Let_def simp flip: b_def split: option.splits)
  have work: "ar_inv fs path topic (foldl worker_step a ios) \<and> ar_recorded (foldl worker_step a ios) = rs"
    if "ar_inv fs path topic a" "ar_recorded a = rs" for a ios
    using that by (induction ios arbitrary: a) (simp_all add: ar_inv_worker)
  have "ar_inv fs path topic b \<and> ar_recorded b = rs" unfolding b_def
    using assms(3) work ar_inv_calls(1) by (simp add: recording_def ar_close_def)
  then have "ar_inv fs path topic (ar_join b) \<and> ar_recorded (ar_join b) = rs"
    using ar_inv_calls(3) by (simp add: ar_join_def)
  with s' show ?thesis by simp
qed

section \<open>A live session and its replay\<close>

lemma live_Done:
  assumes "live pt c fs stamp opened io nw ios = Done s" and path: "cf_record_path c = Some path"
  defines "topic \<equiv> live_topic (unat (cf_depth c)) (cf_symbol c)"
  shows "\<exists>xs a. length xs = Suc (unat (cf_max_frames c)) \<and>
    consume_all pt (pr_new (unat (cf_depth c)) topic True) xs = Done (ls_processor s) \<and> recordable (map snd xs) \<and>
    ls_recorder s = Some a \<and> ar_inv fs path (to_bytes topic) a \<and> ar_recorded a = map snd xs \<and> ar_close_returned a = Some None \<and>
    valid_topic (to_bytes topic)"
proof -
  define p where "p = pr_new (unat (cf_depth c)) topic True"
  have p: "ls_processor (live_session c a) = p" for a by (simp add: live_session_def p_def topic_def)
  obtain a where a: "live_recorder c fs stamp opened io = Value a" "live_body pt c nw (live_session c a) = Done s"
    using assms(1) by (cases "live_recorder c fs stamp opened io") (auto simp: live_def Let_def split: option.splits outcome.splits)
  let ?s0 = "live_work (nw_work_at_start nw) (live_session c a)"
  let ?frame = "live_frame ?s0 Outbound Text (nw_subscribe_monotonic_ns nw) (nw_subscribe_utc_ns nw) (subscription topic)"
  obtain s1 s2 s3 s4 where s: "live_record ?s0 ?frame = Done s1" "s2 = s1"
      "live_loop pt (nw_read_error nw) (unat (cf_max_frames c)) (nw_reads nw) s2 = Done s3" "live_close nw s3 = Done s4" "s4 = s"
    using a(2) by (auto simp: live_body_def Let_def seq_Done_iff raises_def topic_def split: option.splits)
  note start = live_inv_start [OF a(1) path, of pt, folded topic_def, unfolded p]
  from live_inv_subscribe [OF live_inv_work [OF start] s(1)] obtain x where "live_inv pt p fs path (to_bytes topic) [x] s1" by auto
  from live_inv_loop [OF this [folded s(2)] s(3)] obtain ys where ys: "length ys = unat (cf_max_frames c)"
    "live_inv pt p fs path (to_bytes topic) (x # ys) s3" by auto
  then obtain b where b: "ls_recorder s3 = Some b" "recording fs path (to_bytes topic) (map snd (x # ys)) b"
    unfolding live_inv_def by blast
  have "valid_topic (to_bytes topic)"
    using a(1) path ar_new_topic by (cases "ar_new fs path stamp (to_bytes topic) opened io") (auto simp: live_recorder_def topic_def)
  moreover have "recordable (map snd (x # ys))" using ys(2) b(2) by (simp add: live_inv_def recording_def recordable_def)
  ultimately show ?thesis using ys live_close_Done [OF s(4) b] unfolding p_def [symmetric] s(5)
    by (intro exI [of _ "x # ys"]) (auto simp: live_inv_def)
qed

text \<open>
  C13. A recorded live session can be replayed: if \<open>live\<close> returns, with whatever timing of the recorder's worker, and
  the worker left no frame in the queue, and the symbol is not empty (a replay refuses the topic of an empty one), then a
  replay of the published file ends with the same exit code, the same book and the same counters as the live session.
\<close>

theorem live_session_replays:
  assumes "live pt c fs stamp opened io nw ios = Done s" "cf_record_path c = Some path"
    and "0 < cf_depth c" "cf_symbol c \<noteq> []" "unat (cf_max_frames c) + 1 < n"
    and "ls_recorder s = Some a" "fq_contents (ar_queue a) = []"
  shows "\<exists>p. replay n pt (cw_files (ar_writer a)) path = Exits (exit_code (ls_processor s)) p \<and>
    pr_book p = pr_book (ls_processor s) \<and>
    rm_snapshots (pr_metrics p) = rm_snapshots (pr_metrics (ls_processor s)) \<and>
    rm_market_updates (pr_metrics p) = rm_market_updates (pr_metrics (ls_processor s)) \<and>
    rm_control_frames (pr_metrics p) = rm_control_frames (pr_metrics (ls_processor s))"
proof -
  let ?topic = "live_topic (unat (cf_depth c)) (cf_symbol c)"
  obtain xs where xs: "length xs = Suc (unat (cf_max_frames c))" "recordable (map snd xs)"
      "consume_all pt (pr_new (unat (cf_depth c)) ?topic True) xs = Done (ls_processor s)"
    and a: "ar_inv fs path (to_bytes ?topic) a" "ar_recorded a = map snd xs" "ar_close_returned a = Some None" "valid_topic (to_bytes ?topic)"
    using live_Done [OF assms(1,2)] assms(6) by auto
  have published: "cw_files (ar_writer a) path = Some (capture_bytes (to_bytes ?topic) (map snd xs))"
    using a assms(7) by (auto simp: ar_inv_def cw_inv_def pending_def split: if_splits)
  have topic: "length ?topic \<le> raw_capture_max_metadata" using a(4) by (simp add: valid_topic_def to_bytes_def)
  have depth: "0 < unat (cf_depth c)" "unat (cf_depth c) < 2 ^ 64"
    using assms(3) unat_less_2p64 [of "cf_depth c"] by (simp_all add: word_gt_0)
  from replay_of_capture [OF depth assms(4) topic xs(3,2), of "cw_files (ar_writer a)" path n] published xs(1) assms(5)
  show ?thesis by (auto simp: same_run_def)
qed

section \<open>A live session returns\<close>

text \<open>A recorder that has accepted \<open>k\<close> frames, with no write failed, on a queue of 4096 slots.\<close>

definition recorder_ready :: "files \<Rightarrow> path \<Rightarrow> u8 list \<Rightarrow> nat \<Rightarrow> recorder \<Rightarrow> bool" where
  "recorder_ready fs path topic k a \<longleftrightarrow> ar_inv fs path topic a \<and> ar_healthy a \<and> \<not> ar_closed a \<and> length (ar_recorded a) = k \<and>
     length (fq_slots (ar_queue a)) = 4096 \<and> fq_payload_capacity (ar_queue a) = raw_frame_max_payload"

lemma ready_new: "ar_new fs path stamp topic opened io = Value a \<Longrightarrow> recorder_ready fs path topic 0 a \<and> ar_worker a = Popping"
  using ar_inv_new [of fs path stamp topic opened io a] ar_new_healthy [of fs path stamp topic opened io a]
  by (auto simp: recorder_ready_def ar_new_def fq_new_def split: result.splits outcome.splits if_splits)

lemma queued_recorded:
  assumes "ar_inv fs path topic a" "ar_healthy a"
  shows "length (fq_contents (ar_queue a)) \<le> length (ar_recorded a)"
  using assms by (auto simp: ar_inv_def ar_healthy_def pending_def)

lemma worker_step_slots: "fq_ok (ar_queue a) \<Longrightarrow> length (fq_slots (ar_queue (worker_step a io))) = length (fq_slots (ar_queue a))"
  using pop_record_cases [of "ar_queue a"]
  by (auto simp: worker_step_def ar_fail_def pop_record_def split: worker.splits prod.splits option.splits outcome.splits if_splits)

lemma ready_work:
  assumes "recorder_ready fs path topic k a" "list_all (\<lambda>io. io = Stored) ios"
  shows "recorder_ready fs path topic k (foldl worker_step a ios)"
  using assms
proof (induction ios arbitrary: a)
  case (Cons io ios)
  then have inv: "ar_inv fs path topic a" "ar_healthy a" and "fq_ok (ar_queue a)" by (auto simp: recorder_ready_def ar_inv_def)
  with Cons.prems worker_step_slots [of a] worker_step_healthy [OF inv] have "recorder_ready fs path topic k (worker_step a io)"
    by (simp add: recorder_ready_def ar_inv_worker worker_step_capacity)
  with Cons show ?case by simp
qed simp

lemma ready_record:
  assumes ready: "recorder_ready fs path topic k a" and room: "k < 4095" "length (rf_payload r) \<le> raw_frame_max_payload"
  shows "\<exists>a'. ar_record a r = Done a' \<and> recorder_ready fs path topic (Suc k) a' \<and> ar_worker a' = ar_worker a"
proof -
  have ok: "fq_ok (ar_queue a)" "ar_inv fs path topic a" "ar_healthy a" "\<not> ar_producer_closed a" "\<not> ar_writer_failed a"
    using ready by (auto simp: recorder_ready_def ar_inv_def ar_healthy_def)
  have "in_flight (ar_queue a) < 4095" using queued_recorded [OF ok(2,3)] ready room by (simp add: recorder_ready_def)
  with push_record_cases [OF ok(1), of r] ready room
  obtain q where push: "try_push (ar_queue a) (header_of r) (rf_payload r) = (Queued, q)" "length (fq_slots q) = 4096"
    by (auto simp: recorder_ready_def push_record_def split: prod.splits)
  then have "ar_record a r = Done (a\<lparr>ar_queue := q, ar_recorded := ar_recorded a @ [r]\<rparr>)" using ok by (simp add: ar_record_def)
  moreover from this have "ar_inv fs path topic (a\<lparr>ar_queue := q, ar_recorded := ar_recorded a @ [r]\<rparr>)"
    using ar_inv_record [OF ok(2), of r] by simp
  ultimately show ?thesis using ready push push_capacity [OF push(1)] by (simp add: recorder_ready_def ar_healthy_def)
qed

text \<open>The frames that the messages become, each with the clock value it is consumed at.\<close>

fun received :: "u64 \<Rightarrow> incoming list \<Rightarrow> (u64 \<times> raw_frame_record) list" where
  "received k [] = []"
| "received k (i # is) =
     (in_now_ns i, \<lparr>rf_capture_index = k, rf_monotonic_ns = in_monotonic_ns i, rf_connection_id = 1, rf_utc_ns = in_utc_ns i,
        rf_direction = Inbound, rf_kind = if in_text i then Text else Binary, rf_payload = to_bytes (in_payload i)\<rparr>) #
     received (k + 1) is"

definition session_ready :: "files \<Rightarrow> path \<Rightarrow> u8 list \<Rightarrow> nat \<Rightarrow> worker \<Rightarrow> session \<Rightarrow> bool" where
  "session_ready fs path topic k w s \<longleftrightarrow>
     (\<exists>a. ls_recorder s = Some a \<and> recorder_ready fs path topic k a \<and> ar_worker a = w)"

lemma live_record_ready:
  assumes "session_ready fs path topic k w s" "k < 4095" "length (rf_payload frame) \<le> raw_frame_max_payload"
  shows "\<exists>s'. live_record s frame = Done s' \<and> session_ready fs path topic (Suc k) w s' \<and> ls_processor s' = ls_processor s \<and>
    ls_index s' = ls_index s + 1"
proof -
  obtain a where a: "ls_recorder s = Some a" "recorder_ready fs path topic k a" "ar_worker a = w"
    using assms(1) by (auto simp: session_ready_def)
  from ready_record [OF a(2) assms(2,3)] a show ?thesis by (auto simp: live_record_def session_ready_def)
qed

lemma session_ready_work:
  assumes "session_ready fs path topic k w s" "list_all (\<lambda>io. io = Stored) ios"
  shows "\<exists>w'. session_ready fs path topic k w' (live_work ios s) \<and> (ios = [] \<longrightarrow> w' = w)"
  using assms ready_work by (auto simp: session_ready_def live_work_def)

text \<open>A message the program can take: its payload fits a frame, and no write fails meanwhile.\<close>

definition takes :: "incoming \<Rightarrow> bool" where
  "takes i \<longleftrightarrow> length (in_payload i) \<le> raw_frame_max_payload \<and> list_all (\<lambda>io. io = Stored) (in_work i)"

lemma live_loop_ready:
  assumes "session_ready fs path topic k w s" "k + n \<le> 4095" "n \<le> length is" "list_all takes is"
    and "consume_all pt (ls_processor s) (received (ls_index s) (take n is)) = Done p"
  shows "\<exists>s' w'. live_loop pt x n is s = Done s' \<and> session_ready fs path topic (k + n) w' s' \<and> ls_processor s' = p \<and>
    (list_all (\<lambda>i. in_work i = []) is \<longrightarrow> w' = w)"
  using assms
proof (induction n arbitrary: k w s "is")
  case (Suc n)
  then obtain i js where "is": "is = i # js" by (cases "is") auto
  let ?s = "live_work (in_work i) s"
  let ?frame = "live_frame ?s Inbound (if in_text i then Text else Binary) (in_monotonic_ns i) (in_utc_ns i) (in_payload i)"
  obtain w1 where w1: "session_ready fs path topic k w1 ?s" "in_work i = [] \<longrightarrow> w1 = w"
    using session_ready_work [OF Suc.prems(1)] Suc.prems(4) by (auto simp: "is" takes_def)
  have "length (rf_payload ?frame) \<le> raw_frame_max_payload" using Suc.prems(4) by (simp add: "is" takes_def live_frame_def to_bytes_def)
  with live_record_ready [OF w1(1)] Suc.prems(2) obtain t where t: "live_record ?s ?frame = Done t"
      "session_ready fs path topic (Suc k) w1 t" "ls_processor t = ls_processor s" "ls_index t = ls_index s + 1"
    by (force simp: live_work_def)
  obtain q where q: "consume pt (ls_processor s) (in_now_ns i) ?frame = Done q"
      "consume_all pt q (received (ls_index s + 1) (take n js)) = Done p"
    using Suc.prems(5) by (auto simp: "is" seq_Done_iff live_frame_def live_work_def)
  have r: "live_receive pt i s = Done (t\<lparr>ls_processor := q\<rparr>)"
    using t(1,3) q(1) by (simp add: live_receive_def live_consume_def Let_def)
  have "session_ready fs path topic (Suc k) w1 (t\<lparr>ls_processor := q\<rparr>)" using t(2) by (simp add: session_ready_def)
  from Suc.IH [OF this, of js] Suc.prems(2,3,4) q(2) t(4) w1(2) show ?case by (auto simp: "is" r)
qed auto

lemma leftover_Popping: "ar_worker a = Popping \<Longrightarrow> leftover a = []"
  by (simp add: leftover_def)

lemma live_close_ready:
  assumes "session_ready fs path topic k w s" "list_all (\<lambda>io. io = Stored) (nw_work_before_close nw)"
    and "nw_work_after_close nw = replicate m Stored" "2 * k + 4 \<le> m"
  shows "\<exists>s' a. live_close nw s = Done s' \<and> ls_processor s' = ls_processor s \<and> ls_recorder s' = Some a \<and>
    (nw_work_before_close nw = [] \<and> w = Popping \<longrightarrow> fq_contents (ar_queue a) = [])"
proof -
  obtain a where a: "ls_recorder s = Some a" "recorder_ready fs path topic k a" "ar_worker a = w"
    using assms(1) by (auto simp: session_ready_def)
  define b where "b = foldl worker_step a (nw_work_before_close nw)"
  have b: "ar_inv fs path topic b" "ar_healthy b" "\<not> ar_closed b" "length (ar_recorded b) = k"
    using ready_work [OF a(2) assms(2)] by (simp_all add: recorder_ready_def b_def)
  have c: "ar_healthy (ar_close b)" "ar_closed (ar_close b)" "ar_finalize (ar_close b)" "leftover (ar_close b) = leftover b"
      "remaining (ar_close b) \<le> m"
    using b queued_recorded [OF b(1,2)] assms(4)
    by (auto simp: ar_close_def ar_healthy_def leftover_def remaining_def split: worker.splits)
  define d where "d = foldl worker_step (ar_close b) (replicate m Stored)"
  from worker_closes [OF ar_inv_calls(1) [OF b(1)] c(1,2,5)] c(3,4)
  have d: "ar_worker d = Finished" "ar_healthy d" "leftover d = leftover b" "ar_finalize d" by (simp_all add: d_def Let_def)
  then have "ar_join d = d\<lparr>ar_close_returned := Some None\<rparr>" by (simp add: ar_join_def ar_healthy_def)
  then have "live_close nw s = Done (s\<lparr>ls_recorder := Some (d\<lparr>ar_close_returned := Some None\<rparr>)\<rparr>)"
    using a(1) assms(3) by (simp add: live_close_def raises_def flip: b_def d_def)
  moreover have "fq_contents (ar_queue d) = []" if "nw_work_before_close nw = []" "w = Popping"
    using d(1,3) a(3) that leftover_Popping [of b] by (simp add: b_def leftover_def)
  ultimately show ?thesis by simp
qed

text \<open>The network calls do not throw, enough messages come, and the worker's writes succeed.\<close>

definition network_serves :: "config \<Rightarrow> network \<Rightarrow> bool" where
  "network_serves c nw \<longleftrightarrow> nw_connect nw = None \<and> nw_write nw = None \<and> nw_close nw = None \<and>
     unat (cf_max_frames c) \<le> length (nw_reads nw) \<and> list_all takes (nw_reads nw) \<and>
     list_all (\<lambda>io. io = Stored) (nw_work_at_start nw) \<and> list_all (\<lambda>io. io = Stored) (nw_work_before_close nw)"

lemma live_returns_ready:
  assumes net: "network_serves c nw" and few: "unat (cf_max_frames c) < 4095" and path: "cf_record_path c = Some path"
    and new: "ar_new fs path stamp (to_bytes (live_topic (unat (cf_depth c)) (cf_symbol c))) opened io = Value a"
    and run: "consume_all pt (pr_new (unat (cf_depth c)) (live_topic (unat (cf_depth c)) (cf_symbol c)) True)
      (received 1 (take (unat (cf_max_frames c)) (nw_reads nw))) = Done p"
    and work: "nw_work_after_close nw = replicate m Stored" "2 * unat (cf_max_frames c) + 6 \<le> m"
  shows "\<exists>s a. live pt c fs stamp opened io nw ios = Done s \<and> ls_processor s = p \<and> ls_recorder s = Some a \<and>
    (nw_work_at_start nw = [] \<and> list_all (\<lambda>i. in_work i = []) (nw_reads nw) \<and> nw_work_before_close nw = [] \<longrightarrow>
       fq_contents (ar_queue a) = [])"
proof -
  let ?topic = "live_topic (unat (cf_depth c)) (cf_symbol c)" and ?n = "unat (cf_max_frames c)"
  let ?s0 = "live_work (nw_work_at_start nw) (live_session c (Some a))"
  let ?frame = "live_frame ?s0 Outbound Text (nw_subscribe_monotonic_ns nw) (nw_subscribe_utc_ns nw) (subscription ?topic)"
  have "session_ready fs path (to_bytes ?topic) 0 Popping (live_session c (Some a))"
    using ready_new [OF new] by (simp add: session_ready_def live_session_def)
  with session_ready_work net obtain w0 where start: "session_ready fs path (to_bytes ?topic) 0 w0 ?s0" "nw_work_at_start nw = [] \<longrightarrow> w0 = Popping"
    unfolding network_serves_def by blast
  have "length ?topic \<le> raw_capture_max_metadata" using ar_new_topic [OF new] by (simp add: valid_topic_def to_bytes_def)
  then have "length (rf_payload ?frame) \<le> raw_frame_max_payload"
    by (simp add: live_frame_def to_bytes_def subscription_def raw_capture_max_metadata_def raw_frame_max_payload_def Let_def)
  from live_record_ready [OF start(1) _ this] obtain t where t: "live_record ?s0 ?frame = Done t"
      "session_ready fs path (to_bytes ?topic) 1 w0 t" "ls_processor t = pr_new (unat (cf_depth c)) ?topic True" "ls_index t = 1"
    by (auto simp: live_session_def live_work_def)
  from net have served: "?n \<le> length (nw_reads nw)" "list_all takes (nw_reads nw)" by (simp_all add: network_serves_def)
  from live_loop_ready [OF t(2) _ served, of pt p "nw_read_error nw"] run few t(3,4)
  obtain u w where u: "live_loop pt (nw_read_error nw) ?n (nw_reads nw) t = Done u"
      "session_ready fs path (to_bytes ?topic) (1 + ?n) w u" "ls_processor u = p"
      "list_all (\<lambda>i. in_work i = []) (nw_reads nw) \<longrightarrow> w = w0"
    by auto
  from live_close_ready [OF u(2) _ work(1)] net work(2) obtain s b where s: "live_close nw u = Done s" "ls_processor s = p"
      "ls_recorder s = Some b" "nw_work_before_close nw = [] \<and> w = Popping \<longrightarrow> fq_contents (ar_queue b) = []"
    using u(3) by (auto simp: network_serves_def)
  have "live pt c fs stamp opened io nw ios = Done s"
    using net t(1) u(1) s(1)
    by (simp add: live_def live_recorder_def path new live_body_def network_serves_def raises_def Let_def)
  with s u(4) start(2) show ?thesis by blast
qed

text \<open>
  C15. A recorded live session returns: if the network serves the messages, each fits a frame and is consumed
  without an exception, fewer than 4095 are wanted, so that the queue cannot overflow however slow the worker is, no write
  fails, and the worker gets two steps for each frame and a few more after \<open>close\<close>, then \<open>live\<close> returns
  with the book of those messages.
\<close>

theorem live_session_returns:
  assumes "network_serves c nw" "unat (cf_max_frames c) < 4095" "cf_record_path c = Some path"
    and "ar_new fs path stamp (to_bytes (live_topic (unat (cf_depth c)) (cf_symbol c))) opened io = Value a"
    and "consume_all pt (pr_new (unat (cf_depth c)) (live_topic (unat (cf_depth c)) (cf_symbol c)) True)
      (received 1 (take (unat (cf_max_frames c)) (nw_reads nw))) = Done p"
    and "nw_work_after_close nw = replicate m Stored" "2 * unat (cf_max_frames c) + 6 \<le> m"
  shows "\<exists>s. live pt c fs stamp opened io nw ios = Done s \<and> ls_processor s = p"
  using live_returns_ready [OF assms, of ios] by blast

section \<open>A session that fails publishes nothing\<close>

definition unpublished :: "files \<Rightarrow> path \<Rightarrow> u8 list \<Rightarrow> recorder \<Rightarrow> bool" where
  "unpublished fs path topic a \<longleftrightarrow> ar_inv fs path topic a \<and> \<not> cw_closed (ar_writer a) \<and> (ar_finalize a \<longrightarrow> ar_writer_failed a)"

lemma unpublished_file: "unpublished fs path topic a \<Longrightarrow> cw_files (ar_writer a) path = None"
  by (simp add: unpublished_def ar_inv_def cw_inv_def)

lemma unpublished_worker:
  assumes "unpublished fs path topic a"
  shows "unpublished fs path topic (worker_step a io)"
proof -
  note a = assms [unfolded unpublished_def]
  have "\<not> cw_closed (ar_writer (worker_step a io)) \<and> (ar_finalize a \<longrightarrow> ar_writer_failed (worker_step a io))"
    using a cw_open_after_append [of "ar_writer a"]
    by (auto simp: worker_step_def ar_fail_def ar_inv_def split: worker.splits prod.splits option.splits outcome.splits)
  with a ar_inv_worker show ?thesis by (simp add: unpublished_def)
qed

lemma unpublished_work: "unpublished fs path topic a \<Longrightarrow> unpublished fs path topic (foldl worker_step a ios)"
  by (induction ios arbitrary: a) (simp_all add: unpublished_worker)

lemma unpublished_abort: "unpublished fs path topic a \<Longrightarrow> unpublished fs path topic (ar_abort a)"
  using ar_inv_calls(2) [of fs path topic a] by (auto simp: unpublished_def ar_abort_def)

lemma unpublished_record:
  assumes "unpublished fs path topic a" "ar_record a r = Done a' \<or> ar_record a r = Threw x a'"
  shows "unpublished fs path topic a'"
proof -
  have "ar_step a (Record r) = a'" using assms(2) by auto
  then have "ar_inv fs path topic a'" using ar_inv_record assms(1) unfolding unpublished_def by metis
  with assms show ?thesis by (auto simp: unpublished_def ar_record_def split: prod.splits if_splits)
qed

text \<open>A writer that has published its file did not fail.\<close>

lemma cw_open_after_close: "cw_close w io = Threw x w' \<Longrightarrow> \<not> cw_closed w'"
  by (auto simp: cw_close_def write_file_def Let_def split: if_splits io.splits)

lemma recorder_work_inv: "ar_inv fs path topic a \<Longrightarrow> ar_inv fs path topic (foldl worker_step a ios)"
  by (induction ios arbitrary: a) (simp_all add: ar_inv_worker)

lemma published_not_failed:
  assumes "ar_inv fs path topic a" "cw_closed (ar_writer a) \<longrightarrow> \<not> ar_writer_failed a"
  shows "cw_closed (ar_writer (foldl worker_step a ios)) \<longrightarrow> \<not> ar_writer_failed (foldl worker_step a ios)"
  using assms
proof (induction ios arbitrary: a)
  case (Cons io ios)
  have "cw_closed (ar_writer (worker_step a io)) \<longrightarrow> \<not> ar_writer_failed (worker_step a io)"
  proof (cases "ar_worker a")
    case (Appending r)
    with Cons.prems(1) cw_open_after_append [of "ar_writer a" r io] show ?thesis
      by (cases "cw_append (ar_writer a) r io") (auto simp: worker_step_def ar_fail_def ar_inv_def)
  next
    case Finalizing
    with Cons.prems(1) cw_open_after_close [of "ar_writer a" io] show ?thesis
      by (cases "cw_close (ar_writer a) io") (auto simp: worker_step_def ar_fail_def ar_inv_def)
  qed (use Cons.prems in \<open>auto simp: worker_step_def split: prod.splits option.splits\<close>)
  with Cons ar_inv_worker show ?case by simp
qed simp

text \<open>All states a call can end in, by returning or by an exception.\<close>

definition session_open :: "files \<Rightarrow> path \<Rightarrow> u8 list \<Rightarrow> session \<Rightarrow> bool" where
  "session_open fs path topic s \<longleftrightarrow> (\<forall>a. ls_recorder s = Some a \<longrightarrow>
     unpublished fs path topic a \<and> \<not> ar_finalize a \<and> ar_close_returned a = None)"

lemma seq_states:
  "(\<And>s. s \<in> set_outcome r \<Longrightarrow> P s) \<Longrightarrow> (\<And>s t. P s \<Longrightarrow> t \<in> set_outcome (f s) \<Longrightarrow> P t) \<Longrightarrow> t \<in> set_outcome (seq r f) \<Longrightarrow> P t"
  by (cases r) auto

lemma record_keeps: "a' \<in> set_outcome (ar_record a r) \<Longrightarrow>
    ar_finalize a' = ar_finalize a \<and> ar_close_returned a' = ar_close_returned a"
  by (auto simp: ar_record_def split: prod.splits if_splits)

lemma open_record:
  assumes "session_open fs path topic s" "t \<in> set_outcome (live_record s frame)"
  shows "session_open fs path topic t"
proof (cases "ls_recorder s")
  case None
  with assms show ?thesis by (simp add: live_record_def session_open_def)
next
  case (Some a)
  then obtain a' where a': "a' \<in> set_outcome (ar_record a frame)" "ls_recorder t = Some a'"
    using assms(2) by (cases "ar_record a frame") (auto simp: live_record_def)
  moreover have "unpublished fs path topic a" "\<not> ar_finalize a" "ar_close_returned a = None"
    using assms(1) Some by (simp_all add: session_open_def)
  moreover from this(1) a'(1) have "unpublished fs path topic a'"
    by (cases "ar_record a frame") (auto dest: unpublished_record)
  ultimately show ?thesis using record_keeps [OF a'(1)] by (simp add: session_open_def)
qed

lemma foldl_worker_calls [simp]:
  "ar_finalize (foldl worker_step a ios) = ar_finalize a"
  "ar_close_returned (foldl worker_step a ios) = ar_close_returned a"
  by (induction ios arbitrary: a) simp_all

lemma open_work: "session_open fs path topic s \<Longrightarrow> session_open fs path topic (live_work ios s)"
  by (auto simp: session_open_def live_work_def unpublished_work)

lemma open_consume: "session_open fs path topic s \<Longrightarrow> t \<in> set_outcome (live_consume pt now frame s) \<Longrightarrow> session_open fs path topic t"
  by (cases "consume pt (ls_processor s) now frame") (auto simp: session_open_def live_consume_def)

lemma open_receive: "session_open fs path topic s \<Longrightarrow> t \<in> set_outcome (live_receive pt i s) \<Longrightarrow> session_open fs path topic t"
  unfolding live_receive_def Let_def
  by (erule seq_states [rotated 2]) (blast intro: open_record open_work open_consume)+

lemma open_raises: "session_open fs path topic s \<Longrightarrow> t \<in> set_outcome (raises x s) \<Longrightarrow> session_open fs path topic t"
  by (auto simp: raises_def split: option.splits)

lemma open_loop: "session_open fs path topic s \<Longrightarrow> t \<in> set_outcome (live_loop pt x n is s) \<Longrightarrow> session_open fs path topic t"
proof (induction pt x n "is" s arbitrary: t rule: live_loop.induct)
  case (3 pt x n i "is" s)
  from "3.prems"(2) show ?case unfolding live_loop.simps
    by (rule seq_states [rotated 2]) (use "3.IH" "3.prems"(1) open_receive in blast)+
qed auto

lemma live_close_Threw:
  assumes "live_close nw s = Threw x s'" "session_open fs path topic s"
  shows "\<exists>a'. ls_recorder s' = Some a' \<and> unpublished fs path topic a'"
proof -
  obtain a where a: "ls_recorder s = Some a" using assms(1) by (cases "ls_recorder s") (auto simp: live_close_def)
  define b where "b = ar_close (foldl worker_step a (nw_work_before_close nw))"
  define d where "d = foldl worker_step b (nw_work_after_close nw)"
  have "unpublished fs path topic (foldl worker_step a (nw_work_before_close nw))" "ar_close_returned a = None"
    using assms(2) a by (simp_all add: session_open_def unpublished_work)
  then have b: "ar_inv fs path topic b" "\<not> cw_closed (ar_writer b)" "ar_close_returned b = None"
    using ar_inv_calls(1) by (auto simp: b_def unpublished_def ar_close_def)
  have d: "ar_inv fs path topic (ar_join d)" "cw_closed (ar_writer d) \<longrightarrow> \<not> ar_writer_failed d"
    using recorder_work_inv [OF b(1)] published_not_failed [OF b(1)] b(2) ar_inv_calls(3) by (simp_all add: d_def)
  have "s' = s\<lparr>ls_recorder := Some (ar_join d)\<rparr>" "ar_writer_failed d"
    using assms(1) a b(3)
    by (auto simp: live_close_def raises_def ar_join_def Let_def d_def simp flip: b_def split: option.splits if_splits)
  with d show ?thesis by (simp add: unpublished_def ar_join_def)
qed

lemma open_write_loop:
  "session_open fs path topic s \<Longrightarrow> t \<in> set_outcome (seq (raises y s) (live_loop pt x n is)) \<Longrightarrow> session_open fs path topic t"
  by (erule seq_states [rotated 2]) (blast intro: open_raises open_loop)+

lemma seq_assoc: "seq (seq r f) g = seq r (\<lambda>s. seq (f s) g)"
  by (cases r) simp_all

lemma raises_None: "raises None = Done"
  by (simp add: raises_def fun_eq_iff)

lemma live_body_Threw:
  assumes "live_body pt c nw s = Threw x s'" "session_open fs path topic s" "nw_close nw = None" "ls_recorder s' = Some a"
  shows "unpublished fs path topic a"
proof -
  let ?s = "live_work (nw_work_at_start nw) s"
  let ?frame = "live_frame ?s Outbound Text (nw_subscribe_monotonic_ns nw) (nw_subscribe_utc_ns nw)
            (subscription (live_topic (unat (cf_depth c)) (cf_symbol c)))"
  let ?loop = "live_loop pt (nw_read_error nw) (unat (cf_max_frames c)) (nw_reads nw)"
  define r where "r = seq (live_record ?s ?frame) (\<lambda>s. seq (raises (nw_write nw) s) ?loop)"
  have states: "session_open fs path topic t" if "t \<in> set_outcome r" for t
    using that unfolding r_def
    by (rule seq_states [rotated 2]) (use open_work [OF assms(2)] open_record open_write_loop in blast)+
  have "live_body pt c nw s = seq r (\<lambda>s. seq (live_close nw s) Done)"
    by (simp add: live_body_def r_def Let_def seq_assoc assms(3) raises_None)
  with assms(1) have "r = Threw x s' \<or> (\<exists>t. r = Done t \<and> live_close nw t = Threw x s')"
    by (auto simp: seq_Threw_iff)
  then show ?thesis
    using states live_close_Threw assms(4) by (force simp: session_open_def)
qed

text \<open>
  C14. A live session that fails publishes nothing: if the network, the decoder, the book or the recorder ends \<open>live\<close>
  with an exception (other than in the final close of the socket), then however the
  recorder's worker goes on while the recorder is destroyed, the final path stays absent.
\<close>

theorem live_failure_publishes_nothing:
  assumes "live pt c fs stamp opened io nw ios = Threw x s" "cf_record_path c = Some path" "nw_close nw = None"
    and "ls_recorder s = Some a"
  shows "cw_files (ar_writer a) path = None"
proof -
  let ?topic = "to_bytes (live_topic (unat (cf_depth c)) (cf_symbol c))"
  obtain b s' where b: "ar_new fs path stamp ?topic opened io = Value b" "live_body pt c nw (live_session c (Some b)) = Threw x s'"
      "s = live_unwind ios s'"
  proof (cases "ar_new fs path stamp ?topic opened io")
    case (Value b)
    with assms that show ?thesis
      by (auto simp: live_def live_recorder_def live_session_def Let_def split: option.splits outcome.splits)
  qed (use assms in \<open>auto simp: live_def live_recorder_def live_session_def Let_def split: option.splits\<close>)
  have "session_open fs path ?topic (live_session c (Some b))"
    using ar_inv_new [OF b(1)] b(1)
    by (auto simp: session_open_def live_session_def unpublished_def ar_new_def cw_open_def Let_def
        split: result.splits outcome.splits if_splits)
  moreover obtain d where d: "ls_recorder s' = Some d" "a = foldl worker_step (ar_abort d) ios"
    using assms(4) b(3) by (auto simp: live_unwind_def live_work_def)
  ultimately have "unpublished fs path ?topic d" using live_body_Threw [OF b(2) _ assms(3)] by blast
  then show ?thesis unfolding d(2) by (intro unpublished_file unpublished_work unpublished_abort)
qed

section \<open>A sample session\<close>

definition sample_config :: config where
  "sample_config = default_config\<lparr>cf_max_frames := 1, cf_record_path := Some ''a''\<rparr>"

definition sample_incoming :: incoming where
  "sample_incoming = \<lparr>in_text = True, in_monotonic_ns = 1000, in_utc_ns = 5, in_payload = ''{}'', in_now_ns = 1009, in_work = []\<rparr>"

definition sample_network :: "incoming list \<Rightarrow> network" where
  "sample_network is = \<lparr>nw_connect = None, nw_work_at_start = [], nw_subscribe_monotonic_ns = 900, nw_subscribe_utc_ns = 4, nw_write = None,
     nw_reads = is, nw_read_error = Runtime_error ''closed'', nw_work_before_close = [],
     nw_work_after_close = replicate 8 Stored, nw_close = None\<rparr>"

lemma sample_config_simps [simp]: "cf_depth sample_config = 50" "cf_symbol sample_config = ''BTCUSDT''"
  "cf_max_frames sample_config = 1" "cf_record_path sample_config = Some ''a''"
  by (simp_all add: sample_config_def default_config_def)

lemma sample_session_run:
  "\<exists>p. consume_all (sample_ptree (\<lambda>_. Value sample_snapshot_tree)) (pr_new 50 ''orderbook.50.BTCUSDT'' True)
     (received 1 [sample_incoming]) = Done p \<and> vb_bids (pr_book p) = ms_bids sample_message \<and> exit_code p = 0"
  by (simp add: sample_incoming_def consume_def sample_decode pr_new_def sample_apply
      sample_message_fields Let_def count_frame_def exit_code_def)

lemma sample_recorder_new: "\<exists>a. ar_new (\<lambda>_. None) ''a'' ''1'' (to_bytes ''orderbook.50.BTCUSDT'') True Stored = Value a"
proof -
  have "\<exists>q. fq_new 4096 raw_frame_max_payload = Value q" by (simp add: fq_new_def raw_frame_max_payload_def)
  moreover have "\<exists>w. cw_open (\<lambda>_. None) ''a'' ''1'' (to_bytes ''orderbook.50.BTCUSDT'') True Stored = Done w"
    by (simp add: cw_open_def write_file_def raw_capture_max_metadata_def to_bytes_def Let_def)
  ultimately show ?thesis by (auto simp: ar_new_def)
qed

lemma sample_serves: "network_serves sample_config (sample_network [sample_incoming])"
  by (simp add: network_serves_def sample_network_def sample_incoming_def takes_def raw_frame_max_payload_def)

theorem live_session_returns_witness:
  "\<exists>s. live (sample_ptree (\<lambda>_. Value sample_snapshot_tree)) sample_config (\<lambda>_. None) ''1'' True Stored
     (sample_network [sample_incoming]) [] = Done s \<and> exit_code (ls_processor s) = 0"
proof -
  obtain a where a: "ar_new (\<lambda>_. None) ''a'' ''1'' (to_bytes ''orderbook.50.BTCUSDT'') True Stored = Value a"
    using sample_recorder_new by blast
  obtain p where p: "consume_all (sample_ptree (\<lambda>_. Value sample_snapshot_tree)) (pr_new 50 ''orderbook.50.BTCUSDT'' True)
     (received 1 [sample_incoming]) = Done p" "exit_code p = 0" using sample_session_run by blast
  from live_session_returns [OF sample_serves, of "''a''" "\<lambda>_. None" "''1''" True Stored a "sample_ptree (\<lambda>_. Value sample_snapshot_tree)" p 8 "[]"] a p
  show ?thesis by (auto simp: sample_live_topic sample_network_def)
qed

theorem live_session_replays_witness:
  "\<exists>s b p. live (sample_ptree (\<lambda>_. Value sample_snapshot_tree)) sample_config (\<lambda>_. None) ''1'' True Stored
       (sample_network [sample_incoming]) [] = Done s \<and>
     ls_recorder s = Some b \<and> fq_contents (ar_queue b) = [] \<and>
     replay 3 (sample_ptree (\<lambda>_. Value sample_snapshot_tree)) (cw_files (ar_writer b)) ''a'' = Exits 0 p \<and>
     pr_book p = pr_book (ls_processor s) \<and> vb_bids (pr_book p) = ms_bids sample_message"
proof -
  let ?pt = "sample_ptree (\<lambda>_. Value sample_snapshot_tree)"
  obtain a where a: "ar_new (\<lambda>_. None) ''a'' ''1'' (to_bytes ''orderbook.50.BTCUSDT'') True Stored = Value a"
    using sample_recorder_new by blast
  obtain p where p: "consume_all ?pt (pr_new 50 ''orderbook.50.BTCUSDT'' True) (received 1 [sample_incoming]) = Done p"
    "vb_bids (pr_book p) = ms_bids sample_message" "exit_code p = 0" using sample_session_run by blast
  from live_returns_ready [OF sample_serves, of "''a''" "\<lambda>_. None" "''1''" True Stored a ?pt p 8 "[]"] a p
  obtain s b where s: "live ?pt sample_config (\<lambda>_. None) ''1'' True Stored (sample_network [sample_incoming]) [] = Done s"
    "ls_processor s = p" "ls_recorder s = Some b" "fq_contents (ar_queue b) = []"
    by (auto simp: sample_live_topic sample_network_def sample_incoming_def)
  from live_session_replays [OF s(1) _ _ _ _ s(3,4), of "''a''" 3] p(2,3) s(2)
  obtain q where "replay 3 ?pt (cw_files (ar_writer b)) ''a'' = Exits 0 q" "pr_book q = pr_book p" by (auto simp: word_gt_0)
  with p(2) s show ?thesis by auto
qed

theorem live_failure_publishes_nothing_witness:
  "\<exists>s a. live (sample_ptree (\<lambda>_. Value sample_snapshot_tree)) sample_config (\<lambda>_. None) ''1'' True Stored (sample_network []) [] =
     Threw (Runtime_error ''closed'') s \<and> ls_recorder s = Some a \<and> cw_files (ar_writer a) ''a'' = None"
proof -
  let ?pt = "sample_ptree (\<lambda>_. Value sample_snapshot_tree)" and ?topic = "''orderbook.50.BTCUSDT''"
  obtain a where a: "ar_new (\<lambda>_. None) ''a'' ''1'' (to_bytes ?topic) True Stored = Value a"
    using sample_recorder_new by blast
  let ?s = "live_session sample_config (Some a)"
  have start: "session_ready (\<lambda>_. None) ''a'' (to_bytes ?topic) 0 Popping ?s"
    using ready_new [OF a] by (simp add: session_ready_def live_session_def)
  have "length (rf_payload (live_frame ?s Outbound Text 900 4 (subscription ?topic))) \<le> raw_frame_max_payload"
    by (simp add: live_frame_def subscription_def to_bytes_def raw_frame_max_payload_def Let_def)
  from live_record_ready [OF start _ this] obtain t b where t: "live_record ?s (live_frame ?s Outbound Text 900 4 (subscription ?topic)) = Done t"
      "ls_recorder t = Some b"
    by (auto simp: session_ready_def)
  let ?t = "live_unwind [] t"
  have "live ?pt sample_config (\<lambda>_. None) ''1'' True Stored (sample_network []) [] = Threw (Runtime_error ''closed'') ?t"
    using a t(1)
    by (simp add: live_def live_recorder_def live_body_def sample_network_def sample_live_topic raises_def Let_def)
  moreover have "ls_recorder ?t = Some (ar_abort b)" using t(2) by (simp add: live_unwind_def live_work_def)
  ultimately show ?thesis
    using live_failure_publishes_nothing [of ?pt sample_config "\<lambda>_. None" "''1''" True Stored "sample_network []" "[]" _ ?t "''a''"]
    by (auto simp: sample_network_def)
qed

end
