(* ===== verification/L2_Datasets.thy ===== *)
theory L2_Datasets
  imports Capture_Config L2_Labels
begin

text \<open>
  The two programs that turn a capture file into tables (\<open>cpp/benchmarks/bybit_l2_state_export.cpp\<close> and
  \<open>cpp/benchmarks/bybit_l2_feature_extract.cpp\<close>): both run the book over the recorded messages; the first
  writes its state after each, the second collects observations of the best prices and
  labels each with the price moves after it. The floating-point columns of the second (microprice and
  imbalances) are left out. What an output stream does is a parameter.
\<close>

section \<open>Reading a capture\<close>

text \<open>The loop \<open>while (const auto frame = reader.next())\<close> with a body that may throw, and with a bound on its rounds.\<close>

fun reader_loop :: "nat \<Rightarrow> ('s \<Rightarrow> raw_frame_record \<Rightarrow> 's result) \<Rightarrow> capture_reader \<Rightarrow> 's \<Rightarrow> 's result" where
  "reader_loop 0 f r s = Loops"
| "reader_loop (Suc n) f r s =
     (case cr_next r of
        (r', Value None) \<Rightarrow> Value s
      | (r', Value (Some x)) \<Rightarrow> and_then (f s x) (reader_loop n f r')
      | (r', Raise e) \<Rightarrow> Raise e
      | (r', Loops) \<Rightarrow> Loops)"

text \<open>The start of both bodies: the message of a frame, if it is one of the market, and the book after it.\<close>

definition market_message :: "'t ptree \<Rightarrow> string \<Rightarrow> string \<Rightarrow> vector_book \<Rightarrow> raw_frame_record \<Rightarrow> (message \<times> vector_book) option result" where
  "market_message pt topic error_text book frame =
     (if rf_direction frame \<noteq> Inbound \<or> rf_kind frame \<noteq> Text then Value None
      else and_then (decode pt (to_chars (rf_payload frame))) (\<lambda>message.
        case message of
          None \<Rightarrow> Value None
        | Some m \<Rightarrow>
            if ms_kind m = Control_message then Value None
            else if ms_topic m \<noteq> topic then Raise (Runtime_error error_text)
            else case apply_message m book of (accepted, book') \<Rightarrow>
              if \<not> accepted then Raise (Runtime_error error_text) else Value (Some (m, book'))))"

section \<open>State export\<close>

text \<open>The text between the first two points; \<open>std::string::npos + 1\<close> is 0, so that all of it counts where there is none.\<close>

definition depth_field :: "string \<Rightarrow> string" where
  "depth_field topic =
     (case find_point topic of
        None \<Rightarrow> topic
      | Some first \<Rightarrow>
          let left = drop (first + 1) topic
          in case find_point left of None \<Rightarrow> left | Some n \<Rightarrow> take n left)"

definition level_text :: "l2_level \<Rightarrow> string" where
  "level_text l = to_string (unat (l2_price l)) @ '':'' @ to_string (unat (l2_quantity l))"

definition levels_text :: "vector_book \<Rightarrow> side \<Rightarrow> string" where
  "levels_text book s =
     foldl (\<lambda>value l. (if value \<noteq> [] then value @ '';'' else value) @ level_text l) [] (vb_top_levels book s 10)"

definition state_row :: "message \<Rightarrow> vector_book \<Rightarrow> l2_level \<Rightarrow> l2_level \<Rightarrow> string" where
  "state_row m book bid ask =
     to_string (unat (ms_exchange_timestamp_ms m)) @ '','' @ to_string (unat (ms_update_id m)) @ '','' @
     to_string (unat (l2_price bid)) @ '','' @ to_string (unat (l2_price ask)) @ '','' @
     to_string (unat (vb_state_digest book)) @ '','' @ levels_text book Bid @ '','' @ levels_text book Ask @ [CHR 0x0A]"

text \<open>One round: the book and the rows written so far.\<close>

definition export_frame :: "'t ptree \<Rightarrow> string \<Rightarrow> vector_book \<times> string list \<Rightarrow> raw_frame_record \<Rightarrow> (vector_book \<times> string list) result" where
  "export_frame pt topic s frame =
     (case s of (book, rows) \<Rightarrow>
        and_then (market_message pt topic ''invalid state transition'' book frame) (\<lambda>applied.
          case applied of
            None \<Rightarrow> Value (book, rows)
          | Some (m, book) \<Rightarrow>
              (case (vb_best_bid book, vb_best_ask book) of
                 (Some bid, Some ask) \<Rightarrow> Value (book, rows @ [state_row m book bid ask])
               | _ \<Rightarrow> Value (book, rows))))"

definition state_header :: string where
  "state_header = ''cts_ms,update_id,best_bid_1e8,best_ask_1e8,state_digest,top10_bids,top10_asks'' @ [CHR 0x0A]"

definition state_manifest :: "path \<Rightarrow> string \<Rightarrow> nat \<Rightarrow> string" where
  "state_manifest source topic rows =
     ''schema=bybit_l2_state_export_v1'' @ [CHR 0x0A] @ ''source='' @ source @ [CHR 0x0A] @ ''topic='' @ topic @ [CHR 0x0A] @
     ''rows='' @ to_string rows @ [CHR 0x0A]"

text \<open>What is left of an output file whose stream was closed: all that was written, or, after a failure, any bytes.\<close>

definition closed_stream :: "files \<Rightarrow> path \<Rightarrow> string \<Rightarrow> io \<Rightarrow> files" where
  "closed_stream fs path contents io = fs(path \<mapsto> (case io of Stored \<Rightarrow> to_bytes contents | Failed left \<Rightarrow> left))"

text \<open>
  The program. \<open>opened\<close> tells whether the partial file could be opened, \<open>left\<close> what is in it if an exception
  ends the loop, \<open>io\<close> and \<open>io'\<close> how the table and the manifest were written, and \<open>good'\<close> whether the stream of the
  manifest was good when it was tested, before its destructor flushed it. Opening the partial file
  truncates it: if it is the capture itself, \<open>seen\<close> is what the reader then finds there.
\<close>

definition state_export :: "nat \<Rightarrow> 't ptree \<Rightarrow> files \<Rightarrow> string list \<Rightarrow> bool \<Rightarrow> u8 list \<Rightarrow> u8 list \<Rightarrow> io \<Rightarrow> io \<Rightarrow> bool \<Rightarrow> files outcome" where
  "state_export n pt fs args opened seen left io io' good' =
     (if length args \<noteq> 2 then Threw (Runtime_error ''usage: bybit_l2_state_export CAPTURE.llfr OUTPUT.csv'') fs
      else with_value fs (cr_open fs (args ! 0)) (\<lambda>reader.
        let topic = to_chars (cr_topic reader) in
        with_value fs (stoull (depth_field topic)) (\<lambda>depth.
        let output = args ! 1; partial = output @ ''.partial'' in
        if fs output \<noteq> None then Threw (Runtime_error ''refusing to overwrite state export'') fs
        else if \<not> opened then Threw (Runtime_error ''cannot open state export'') fs
        else let reader = (if args ! 0 = partial then reader\<lparr>cr_file := seen\<rparr> else reader)
        in with_value (fs(partial \<mapsto> left)) (reader_loop n (export_frame pt topic) reader (vb_new (unat depth), [])) (\<lambda>(book, rows).
          let fs = closed_stream fs partial (state_header @ concat rows) io in
          if io \<noteq> Stored then Threw (Runtime_error ''cannot finalize state export'') fs
          else let fs = closed_stream (fs(output := fs partial, partial := None)) (output @ ''.meta'') (state_manifest (args ! 0) topic (length rows)) io'
               in if \<not> good' then Threw (Runtime_error ''cannot write state export manifest'') fs else Done fs))))"

section \<open>Feature extraction\<close>

record observation =
  os_timestamp_ms :: u64
  os_bid :: price
  os_ask :: price
  os_bid_size :: quantity
  os_ask_size :: quantity
  os_bid_depth :: "quantity list"
  os_ask_depth :: "quantity list"

definition topic_depth :: "string \<Rightarrow> u64 result" where
  "topic_depth topic =
     (case find_point topic of
        None \<Rightarrow> Raise (Runtime_error ''invalid capture topic'')
      | Some first \<Rightarrow>
          let left = drop (first + 1) topic
          in case find_point left of None \<Rightarrow> Raise (Runtime_error ''invalid capture topic'') | Some n \<Rightarrow> stoull (take n left))"

definition observe :: "message \<Rightarrow> vector_book \<Rightarrow> l2_level \<Rightarrow> l2_level \<Rightarrow> observation" where
  "observe m book bid ask =
     \<lparr>os_timestamp_ms = ms_exchange_timestamp_ms m, os_bid = l2_price bid, os_ask = l2_price ask,
      os_bid_size = l2_quantity bid, os_ask_size = l2_quantity ask,
      os_bid_depth = map (vb_depth_quantity book Bid) [1, 5, 25], os_ask_depth = map (vb_depth_quantity book Ask) [1, 5, 25]\<rparr>"

definition observe_frame :: "'t ptree \<Rightarrow> string \<Rightarrow> vector_book \<times> observation list \<Rightarrow> raw_frame_record \<Rightarrow>
    (vector_book \<times> observation list) result" where
  "observe_frame pt topic s frame =
     (case s of (book, observations) \<Rightarrow>
        and_then (market_message pt topic ''capture contains invalid Bybit book transition'' book frame) (\<lambda>applied.
          case applied of
            None \<Rightarrow> Value (book, observations)
          | Some (m, book) \<Rightarrow>
              (case (vb_best_bid book, vb_best_ask book) of
                 (Some bid, Some ask) \<Rightarrow>
                   if ms_exchange_timestamp_ms m = 0 then Value (book, observations)
                   else if l2_price bid \<ge> l2_price ask then Raise (Runtime_error ''crossed or locked BBO in capture'')
                   else if observations \<noteq> [] \<and> ms_exchange_timestamp_ms m < os_timestamp_ms (last observations)
                   then Raise (Runtime_error ''capture exchange timestamps are not monotonic'')
                   else Value (book, observations @ [observe m book bid ask])
               | _ \<Rightarrow> Value (book, observations))))"

definition horizons :: "u64 list" where
  "horizons = [100, 500, 1000]"

definition mid :: "observation \<Rightarrow> u64" where
  "mid x = (os_bid x + os_ask x) div 2"

text \<open>The pointers of the horizons after the inner loops of round \<open>i\<close>.\<close>

definition advance_all :: "u64 list \<Rightarrow> nat \<Rightarrow> nat list \<Rightarrow> nat list" where
  "advance_all ts i future = map (\<lambda>(h, f). advance ts (ts ! i + h) (max f (i + 1))) (zip horizons future)"

record feature_row =
  fr_cts_ms :: u64
  fr_mid :: u64
  fr_spread :: u64
  fr_labels :: "int list"

text \<open>An access beyond the vector is undefined in C++; here it is an exception of its own.\<close>

definition label_at :: "observation list \<Rightarrow> u64 \<Rightarrow> u64 \<Rightarrow> nat \<Rightarrow> int result" where
  "label_at observations threshold current_mid future =
     (if future < length observations then direction_label current_mid (mid (observations ! future)) threshold
      else Raise (Out_of_range ''observations''))"

function feature_rows :: "observation list \<Rightarrow> u64 \<Rightarrow> nat \<Rightarrow> nat list \<Rightarrow> feature_row list result" where
  "feature_rows observations threshold i future =
     (if i < length observations
      then let future = advance_all (map os_timestamp_ms observations) i future
           in if last future = length observations then Value []
              else let x = observations ! i
                   in and_then (for_each_value (label_at observations threshold (mid x)) future) (\<lambda>labels.
                      map_value (\<lambda>rows. \<lparr>fr_cts_ms = os_timestamp_ms x, fr_mid = mid x, fr_spread = os_ask x - os_bid x,
                          fr_labels = labels\<rparr> # rows)
                        (feature_rows observations threshold (i + 1) future))
      else Value [])"
  by pat_completeness auto
termination
  by (relation "measure (\<lambda>(observations, threshold, i, future). length observations - i)") auto

declare feature_rows.simps [simp del]

text \<open>The program up to its output: the arguments, the capture, and the rows it emits.\<close>

definition feature_extract :: "nat \<Rightarrow> 't ptree \<Rightarrow> files \<Rightarrow> string list \<Rightarrow> feature_row list result" where
  "feature_extract n pt fs args =
     (if length args \<noteq> 2 \<and> length args \<noteq> 3
      then Raise (Runtime_error ''usage: bybit_l2_feature_extract CAPTURE.llfr OUTPUT.csv [MOVE_THRESHOLD_1E8]'')
      else and_then (if length args = 3 then stoull (args ! 2) else Value 10000000) (\<lambda>move_threshold.
        if move_threshold = 0 then Raise (Runtime_error ''move threshold must be positive'')
        else and_then (cr_open fs (args ! 0)) (\<lambda>reader.
          let topic = to_chars (cr_topic reader) in
          and_then (topic_depth topic) (\<lambda>depth.
          and_then (reader_loop n (observe_frame pt topic) reader (vb_new (unat depth), [])) (\<lambda>(book, observations).
          if fs (args ! 1) \<noteq> None then Raise (Runtime_error ''refusing to overwrite dataset'')
          else feature_rows observations move_threshold 0 [0, 0, 0])))))"

section \<open>Reading a complete capture\<close>

fun run_frames :: "('s \<Rightarrow> raw_frame_record \<Rightarrow> 's result) \<Rightarrow> 's \<Rightarrow> raw_frame_record list \<Rightarrow> 's result" where
  "run_frames f s [] = Value s"
| "run_frames f s (x # xs) = and_then (f s x) (\<lambda>s. run_frames f s xs)"

lemma reader_loop_records:
  "cr_ok r \<Longrightarrow> cr_data r = capture_records rs \<Longrightarrow> numbered_from (cr_next_capture_index r) rs \<Longrightarrow>
     list_all (\<lambda>x. length (rf_payload x) \<le> raw_frame_max_payload) rs \<Longrightarrow> length rs < n \<Longrightarrow> reader_loop n f r s = run_frames f s rs"
proof (induction rs arbitrary: r s n)
  case Nil
  then have "cr_next r = (r, Value None)" by (auto simp: cr_next_def cr_data_def cr_ok_def)
  with Nil show ?case by (cases n) auto
next
  case (Cons x rs)
  obtain m where n: "n = Suc m" "length rs < m" using Cons.prems(5) by (cases n) auto
  obtain r' where r': "cr_next r = (r', Value (Some x))" "cr_ok r'" "cr_data r' = capture_records rs"
    "cr_next_capture_index r' = cr_next_capture_index r + 1"
    using cr_next_encoded [OF Cons.prems(1), of x "capture_records rs"] Cons.prems(2-4) by (auto simp: numbered_from_Cons)
  have "reader_loop m f r' t = run_frames f t rs" for t
    using Cons.IH [OF r'(2,3)] Cons.prems(3,4) r'(4) n(2) by (simp add: numbered_from_Cons)
  with n(1) r'(1) show ?case by (cases "f s x") simp_all
qed

lemma reader_of_capture:
  assumes "valid_topic topic" "recordable rs" "fs path = Some (capture_bytes topic rs)" "length rs < n"
  shows "\<exists>r. cr_open fs path = Value r \<and> cr_topic r = topic \<and> reader_loop n f r s = run_frames f s rs"
proof -
  obtain r where r: "cr_open fs path = Value r" "cr_ok r" "cr_data r = capture_records rs" "cr_topic r = topic"
      "cr_next_capture_index r = 0"
    using cr_open_complete [of topic fs path "capture_records rs"] assms(1,3) by (auto simp: capture_bytes_def)
  with reader_loop_records [OF r(2,3)] assms(2,4) show ?thesis by (auto simp: recordable_def)
qed

text \<open>The fields of a topic that the live program makes.\<close>

lemma find_point_append:
  "list_all (\<lambda>c. c \<noteq> CHR ''.'') xs \<Longrightarrow> find_point (xs @ CHR ''.'' # ys) = Some (length xs)"
  by (auto simp: find_point_def list_all_iff takeWhile_append2)

lemma live_topic_fields:
  "find_point (live_topic depth symbol) = Some 9"
  "find_point (drop (9 + 1) (live_topic depth symbol)) = Some (length (to_string depth))"
  "take (length (to_string depth)) (drop (9 + 1) (live_topic depth symbol)) = to_string depth"
proof -
  have "live_topic depth symbol = ''orderbook'' @ CHR ''.'' # to_string depth @ CHR ''.'' # symbol"
    by (simp add: live_topic_def)
  moreover have "list_all (\<lambda>c. c \<noteq> CHR ''.'') (to_string depth)"
    using to_string_digits [of depth] by (auto simp: list_all_iff isdigit_def)
  ultimately show "find_point (live_topic depth symbol) = Some 9"
    "find_point (drop (9 + 1) (live_topic depth symbol)) = Some (length (to_string depth))"
    "take (length (to_string depth)) (drop (9 + 1) (live_topic depth symbol)) = to_string depth"
    using find_point_append [of "''orderbook''"] find_point_append [of "to_string depth" symbol] by simp_all
qed

lemma depth_of_topic:
  assumes "depth < 2 ^ 64"
  shows "stoull (depth_field (live_topic depth symbol)) = Value (of_nat depth)" "topic_depth (live_topic depth symbol) = Value (of_nat depth)"
  using stoull_to_string [OF assms] live_topic_fields [of depth symbol]
  by (simp_all only: depth_field_def topic_depth_def option.case Let_def)

section \<open>The market messages of a run\<close>

definition market_of :: "'t ptree \<Rightarrow> raw_frame_record \<Rightarrow> message option" where
  "market_of pt r =
     (if rf_direction r \<noteq> Inbound \<or> rf_kind r \<noteq> Text then None
      else case decode pt (to_chars (rf_payload r)) of
        Value (Some m) \<Rightarrow> if ms_kind m = Control_message then None else Some m | _ \<Rightarrow> None)"

text \<open>Each market message of the frames with the book after it.\<close>

fun history :: "'t ptree \<Rightarrow> vector_book \<Rightarrow> raw_frame_record list \<Rightarrow> (message \<times> vector_book) list" where
  "history pt b [] = []"
| "history pt b (r # rs) =
     (case market_of pt r of
        None \<Rightarrow> history pt b rs
      | Some m \<Rightarrow> (m, snd (apply_message m b)) # history pt (snd (apply_message m b)) rs)"

lemma consume_market:
  assumes "consume pt p now r = Done q"
  shows "market_message pt (pr_expected_topic p) e (pr_book p) r =
      Value (map_option (\<lambda>m. (m, pr_book q)) (market_of pt r)) \<and> pr_expected_topic q = pr_expected_topic p \<and>
    pr_book q = (case market_of pt r of None \<Rightarrow> pr_book p | Some m \<Rightarrow> snd (apply_message m (pr_book p)))"
  using assms
  by (auto simp: consume_def market_message_def market_of_def count_frame_def Let_def
      split: if_splits result.splits option.splits prod.splits)

definition state_rows :: "(message \<times> vector_book) list \<Rightarrow> string list" where
  "state_rows hist =
     concat (map (\<lambda>(m, b). case (vb_best_bid b, vb_best_ask b) of (Some bid, Some ask) \<Rightarrow> [state_row m b bid ask] | _ \<Rightarrow> []) hist)"

lemma state_rows_append: "state_rows (xs @ ys) = state_rows xs @ state_rows ys"
  by (simp add: state_rows_def)

lemma length_state_rows:
  "length (state_rows hist) = length (filter (\<lambda>(m, b). vb_best_bid b \<noteq> None \<and> vb_best_ask b \<noteq> None) hist)"
  by (induction hist) (auto simp: state_rows_def split: option.splits)

lemma export_run:
  "consume_all pt p xs = Done p' \<Longrightarrow>
     run_frames (export_frame pt (pr_expected_topic p)) (pr_book p, rows) (map snd xs) =
       Value (pr_book p', rows @ state_rows (history pt (pr_book p) (map snd xs)))"
proof (induction xs arbitrary: p rows)
  case Nil
  then show ?case by (simp add: state_rows_def)
next
  case (Cons x xs)
  obtain now r where x: "x = (now, r)" by force
  obtain q where q: "consume pt p now r = Done q" "consume_all pt q xs = Done p'"
    using Cons.prems unfolding x consume_all_Cons by blast
  note c = consume_market [OF q(1), of "''invalid state transition''"]
  have step: "export_frame pt (pr_expected_topic p) (pr_book p, rows) r =
      Value (pr_book q, rows @ state_rows (case market_of pt r of None \<Rightarrow> [] | Some m \<Rightarrow> [(m, pr_book q)]))"
    using c by (auto simp: export_frame_def state_rows_def split: option.splits)
  have "history pt (pr_book p) (map snd (x # xs)) =
      (case market_of pt r of None \<Rightarrow> [] | Some m \<Rightarrow> [(m, pr_book q)]) @ history pt (pr_book q) (map snd xs)"
    using c by (simp add: x split: option.splits)
  then show ?case using Cons.IH [OF q(2)] step c by (simp add: x state_rows_append)
qed

text \<open>
  C21. The state export of a live capture: if the program consumed frames without an exception and
  captured them, and if the output path is free, the capture is not the partial file of the output and no write fails,
  then the export of the file ends without an exception, the table has the header and
  one row for each market message after which both sides have levels (and none for the others), with the state of the book at that message,
  the partial file is gone, and the manifest names the number of rows.
\<close>

theorem state_export_of_capture:
  assumes "0 < depth" "depth < 2 ^ 64" "length (live_topic depth symbol) \<le> raw_capture_max_metadata"
    and run: "consume_all pt (pr_new depth (live_topic depth symbol) True) xs = Done p"
    and captured: "recordable (map snd xs)" "fs path = Some (capture_bytes (to_bytes (live_topic depth symbol)) (map snd xs))"
    and n: "length xs < n" and paths: "fs output = None" "path \<noteq> output @ ''.partial''"
    and rows: "rows = state_rows (history pt (vb_new depth) (map snd xs))"
  shows "\<exists>fs'. state_export n pt fs [path, output] True seen left Stored Stored True = Done fs' \<and>
    fs' output = Some (to_bytes (state_header @ concat rows)) \<and> fs' (output @ ''.partial'') = None \<and>
    fs' (output @ ''.meta'') = Some (to_bytes (state_manifest path (live_topic depth symbol) (length rows)))"
proof -
  let ?topic = "live_topic depth symbol"
  have "valid_topic (to_bytes ?topic)" using assms(3) by (simp add: valid_topic_def to_bytes_def live_topic_def)
  with reader_of_capture [of "to_bytes ?topic" "map snd xs" fs path n "export_frame pt ?topic" "(vb_new depth, [])"] captured n
  obtain r where r: "cr_open fs path = Value r" "cr_topic r = to_bytes ?topic"
      "reader_loop n (export_frame pt ?topic) r (vb_new depth, []) = run_frames (export_frame pt ?topic) (vb_new depth, []) (map snd xs)"
    by auto
  have "run_frames (export_frame pt ?topic) (vb_new depth, []) (map snd xs) = Value (pr_book p, rows)"
    using export_run [OF run, of "[]"] by (simp add: pr_new_def rows)
  moreover have "unat (of_nat depth :: u64) = depth" using assms(2) by (simp add: unat_of_nat)
  ultimately show ?thesis
    using r paths depth_of_topic(1) [OF assms(2), of symbol]
    by (simp add: state_export_def closed_stream_def to_chars_to_bytes Let_def)
qed

section \<open>Observations\<close>

text \<open>The observations collected so far are ordered in time and none is crossed.\<close>

definition observations_ok :: "observation list \<Rightarrow> bool" where
  "observations_ok obs \<longleftrightarrow> sorted (map os_timestamp_ms obs) \<and> list_all (\<lambda>x. os_bid x < os_ask x \<and> os_timestamp_ms x \<noteq> 0) obs"

lemma observe_frame_ok:
  assumes "observe_frame pt topic (b, obs) r = Value (b', obs')" "observations_ok obs"
  shows "observations_ok obs'"
proof -
  have "sorted (map os_timestamp_ms obs @ [t])" if "obs = [] \<or> os_timestamp_ms (last obs) \<le> t" for t
    using that assms(2) by (cases obs rule: rev_cases) (auto simp: observations_ok_def sorted_append intro: order_trans)
  then show ?thesis
    using assms by (auto simp: observe_frame_def observe_def observations_ok_def not_less not_le
        elim!: and_then_ValueE split: option.splits if_splits)
qed

lemma run_frames_ok: "run_frames (observe_frame pt topic) (b, obs) rs = Value (b', obs') \<Longrightarrow> observations_ok obs \<Longrightarrow> observations_ok obs'"
proof (induction rs arbitrary: b obs)
  case (Cons r rs)
  then obtain s where s: "observe_frame pt topic (b, obs) r = Value s" "run_frames (observe_frame pt topic) s rs = Value (b', obs')"
    by (auto elim: and_then_ValueE)
  obtain c obs1 where "s = (c, obs1)" by force
  with s Cons observe_frame_ok show ?case by blast
qed simp

lemma reader_loop_ok:
  "reader_loop n (observe_frame pt topic) r (b, obs) = Value (b', obs') \<Longrightarrow> observations_ok obs \<Longrightarrow> observations_ok obs'"
proof (induction n arbitrary: r b obs)
  case (Suc n)
  show ?case
  proof (cases "\<exists>r' x. cr_next r = (r', Value (Some x))")
    case True
    then obtain r' x where "cr_next r = (r', Value (Some x))" by blast
    with Suc.prems(1) obtain s where s: "observe_frame pt topic (b, obs) x = Value s" "reader_loop n (observe_frame pt topic) r' s = Value (b', obs')"
      by (auto elim: and_then_ValueE)
    obtain c obs1 where "s = (c, obs1)" by force
    with s Suc observe_frame_ok show ?thesis by blast
  next
    case False
    with Suc.prems show ?thesis by (auto split: prod.splits result.splits option.splits)
  qed
qed simp

section \<open>The rows and their labels\<close>

lemma first_in_upt:
  fixes P :: "nat \<Rightarrow> bool"
  assumes "a \<le> n" "k = (case filter P [a..<n] of [] \<Rightarrow> n | j # _ \<Rightarrow> j)"
  shows "a \<le> k" "k \<le> n" "k < n \<Longrightarrow> P k" "\<And>j. a \<le> j \<Longrightarrow> j < k \<Longrightarrow> \<not> P j"
proof -
  have "a \<le> k \<and> k \<le> n \<and> (k < n \<longrightarrow> P k) \<and> (\<forall>j. a \<le> j \<and> j < k \<longrightarrow> \<not> P j)"
    using assms
  proof (induction "n - a" arbitrary: a)
    case (Suc d)
    then have upt: "[a..<n] = a # [a + 1..<n]" by (simp add: upt_conv_Cons)
    show ?case
    proof (cases "P a")
      case True
      with upt Suc.prems(2) have "k = a" by simp
      with True Suc.prems(1) show ?thesis by auto
    next
      case False
      with upt Suc.prems(2) have k: "k = (case filter P [a + 1..<n] of [] \<Rightarrow> n | j # _ \<Rightarrow> j)" by simp
      have d: "d = n - (a + 1)" "a + 1 \<le> n" using Suc.hyps(2) by simp_all
      note ih = Suc.hyps(1) [OF d k]
      have "\<not> P j" if "a \<le> j" "j < k" for j using ih False that by (cases "j = a") simp_all
      moreover have "a \<le> k" "k \<le> n" "k < n \<longrightarrow> P k" using ih by simp_all
      ultimately show ?thesis by blast
    qed
  qed auto
  then show "a \<le> k" "k \<le> n" "k < n \<Longrightarrow> P k" "\<And>j. a \<le> j \<Longrightarrow> j < k \<Longrightarrow> \<not> P j" by blast+
qed

lemma first_futureD:
  assumes "i < length ts"
  shows "i < first_future ts h i" "first_future ts h i \<le> length ts"
    "first_future ts h i < length ts \<Longrightarrow> uint (ts ! i) + uint h \<le> uint (ts ! first_future ts h i)"
    "\<And>j. i < j \<Longrightarrow> j < first_future ts h i \<Longrightarrow> uint (ts ! j) < uint (ts ! i) + uint h"
proof -
  have "i + 1 \<le> length ts" using assms by simp
  note first = first_in_upt [OF this first_future_def [of ts h i]]
  show "i < first_future ts h i" "first_future ts h i \<le> length ts"
    "first_future ts h i < length ts \<Longrightarrow> uint (ts ! i) + uint h \<le> uint (ts ! first_future ts h i)"
    using first(1-3) by simp_all
  show "\<And>j. i < j \<Longrightarrow> j < first_future ts h i \<Longrightarrow> uint (ts ! j) < uint (ts ! i) + uint h"
    using first(4) by (simp add: not_le Suc_le_eq)
qed

lemma first_future_mono:
  assumes "i < length ts" "uint h \<le> uint h'"
  shows "first_future ts h i \<le> first_future ts h' i"
proof (rule ccontr)
  assume less: "\<not> ?thesis"
  then have "first_future ts h' i < length ts" using first_futureD(2) [OF assms(1), of h] by simp
  with less first_futureD [OF assms(1)] assms(2) show False by (smt (verit) not_le)
qed

lemma first_future_end:
  assumes "sorted ts" "i \<le> k" "k < length ts" "first_future ts h i = length ts"
  shows "first_future ts h k = length ts"
proof (rule ccontr)
  assume "first_future ts h k \<noteq> length ts"
  then have f: "first_future ts h k < length ts" using first_futureD(2) [OF assms(3), of h] by simp
  have "uint (ts ! i) \<le> uint (ts ! k)" using sorted_nth_mono [OF assms(1), of i k] assms(2,3) by (simp add: word_le_def)
  moreover have "i < first_future ts h k" using first_futureD(1) [OF assms(3), of h] assms(2) by simp
  ultimately show False
    using first_futureD(3) [OF assms(3) f] first_futureD(4) [of i ts "first_future ts h k" h] assms f by force
qed

text \<open>The row of an observation: its labels compare it with the first observation at least the horizon later.\<close>

definition labelled_row :: "observation list \<Rightarrow> u64 \<Rightarrow> nat \<Rightarrow> feature_row" where
  "labelled_row obs threshold i =
     (let x = obs ! i; label = (\<lambda>h. let d = uint (mid (obs ! first_future (map os_timestamp_ms obs) h i)) - uint (mid x)
                                     in if \<bar>d\<bar> \<ge> uint threshold then sgn d else 0)
      in \<lparr>fr_cts_ms = os_timestamp_ms x, fr_mid = mid x, fr_spread = os_ask x - os_bid x, fr_labels = map label horizons\<rparr>)"

text \<open>The pointers before round \<open>i\<close>: what they passed was too early for the round before.\<close>

definition pointers_ok :: "u64 list \<Rightarrow> nat \<Rightarrow> nat list \<Rightarrow> bool" where
  "pointers_ok ts i future \<longleftrightarrow> list_all2 (\<lambda>h f. f \<le> length ts \<and>
     (\<forall>j. i \<le> j \<and> j < f \<longrightarrow> 0 < i \<and> uint (ts ! j) < uint (ts ! (i - 1)) + uint h)) horizons future"

lemma horizons_nth: "h \<in> set horizons \<Longrightarrow> uint h \<le> 1000" "last horizons = 1000" "horizons \<noteq> []"
  by (auto simp: horizons_def)

lemma advance_all_first:
  assumes sorted: "sorted ts" and wrap: "no_wrap ts 1000" and i: "i < length ts" and ok: "pointers_ok ts i future"
  shows "advance_all ts i future = map (\<lambda>h. first_future ts h i) horizons"
proof (rule nth_equalityI)
  have len: "length future = length horizons" using ok by (auto simp: pointers_ok_def dest: list_all2_lengthD)
  then show "length (advance_all ts i future) = length (map (\<lambda>h. first_future ts h i) horizons)" by (simp add: advance_all_def)
  fix k assume "k < length (advance_all ts i future)"
  then have k: "k < length horizons" using len by (simp add: advance_all_def)
  let ?h = "horizons ! k" and ?f = "future ! k"
  have f: "?f \<le> length ts" "\<And>j. i \<le> j \<Longrightarrow> j < ?f \<Longrightarrow> 0 < i \<and> uint (ts ! j) < uint (ts ! (i - 1)) + uint ?h"
    using ok k by (auto simp: pointers_ok_def list_all2_conv_all_nth)
  have "uint (ts ! i) + uint ?h < 2 ^ 64"
    using wrap i horizons_nth(1) [OF nth_mem [OF k]] by (auto simp: no_wrap_def list_all_length)
  moreover have "uint (ts ! j) < uint (ts ! i) + uint ?h" if "i < j" "j < ?f" for j
  proof -
    have "0 < i" "uint (ts ! j) < uint (ts ! (i - 1)) + uint ?h" using f(2) [of j] that by auto
    moreover have "uint (ts ! (i - 1)) \<le> uint (ts ! i)" using sorted_nth_mono [OF sorted, of "i - 1" i] i by (simp add: word_le_def)
    ultimately show ?thesis by simp
  qed
  ultimately have "advance ts (ts ! i + ?h) (if ?f < i + 1 then i + 1 else ?f) = first_future ts ?h i"
    using first_future_step [OF i f(1)] by blast
  moreover have "max ?f (i + 1) = (if ?f < i + 1 then i + 1 else ?f)" by simp
  ultimately show "advance_all ts i future ! k = map (\<lambda>h. first_future ts h i) horizons ! k"
    using k len by (simp add: advance_all_def)
qed

lemma pointers_next: "i < length ts \<Longrightarrow> pointers_ok ts (i + 1) (map (\<lambda>h. first_future ts h i) horizons)"
  using first_futureD by (auto simp: pointers_ok_def list_all2_conv_all_nth Suc_le_eq)

lemma labels_of_row:
  assumes "threshold \<noteq> 0" "i < length obs" "first_future (map os_timestamp_ms obs) 1000 i < length obs"
  shows "for_each_value (label_at obs threshold (mid (obs ! i))) (map (\<lambda>h. first_future (map os_timestamp_ms obs) h i) horizons) =
    Value (fr_labels (labelled_row obs threshold i))"
proof -
  let ?ts = "map os_timestamp_ms obs"
  have "first_future ?ts h i < length obs" if "h \<in> set horizons" for h
    using first_future_mono [of i ?ts h 1000] horizons_nth(1) [OF that] assms(2,3) by simp
  then have "for_each_value (label_at obs threshold (mid (obs ! i))) (map (\<lambda>h. first_future ?ts h i) horizons) =
    Value (map (\<lambda>k. let d = uint (mid (obs ! k)) - uint (mid (obs ! i)) in if \<bar>d\<bar> \<ge> uint threshold then sgn d else 0)
      (map (\<lambda>h. first_future ?ts h i) horizons))"
    using assms(1) by (intro for_each_value_all) (auto simp: label_at_def direction_label_is_sign Let_def)
  then show ?thesis by (simp add: labelled_row_def Let_def)
qed

lemma feature_rows_from:
  assumes sorted: "sorted (map os_timestamp_ms obs)" and wrap: "no_wrap (map os_timestamp_ms obs) 1000" and t: "threshold \<noteq> 0"
  shows "i \<le> length obs \<Longrightarrow> pointers_ok (map os_timestamp_ms obs) i future \<Longrightarrow>
    feature_rows obs threshold i future =
      Value (map (labelled_row obs threshold) (filter (\<lambda>i. first_future (map os_timestamp_ms obs) 1000 i < length obs) [i..<length obs]))"
proof (induction "length obs - i" arbitrary: i future)
  case 0
  then show ?case by (simp add: feature_rows.simps)
next
  case (Suc n)
  let ?ts = "map os_timestamp_ms obs"
  let ?later = "\<lambda>i. first_future ?ts 1000 i < length obs"
  have i: "i < length obs" using Suc.hyps(2) by simp
  have adv: "advance_all ?ts i future = map (\<lambda>h. first_future ?ts h i) horizons"
    using advance_all_first [OF sorted wrap _ Suc.prems(2)] i by simp
  have last: "last (map (\<lambda>h. first_future ?ts h i) horizons) = first_future ?ts 1000 i" by (simp add: horizons_def)
  show ?case
  proof (cases "?later i")
    case False
    then have "first_future ?ts 1000 i = length obs" using first_futureD(2) [of i ?ts 1000] i by simp
    moreover from this have "\<not> ?later k" if "i \<le> k" "k < length obs" for k
      using first_future_end [OF sorted, of i k 1000] that by simp
    then have "filter ?later [i..<length obs] = []" by (auto simp: filter_empty_conv)
    ultimately show ?thesis using i by (simp add: feature_rows.simps [of obs threshold i] adv last Let_def)
  next
    case True
    have "feature_rows obs threshold (i + 1) (map (\<lambda>h. first_future ?ts h i) horizons) =
      Value (map (labelled_row obs threshold) (filter ?later [i + 1..<length obs]))"
      using Suc.hyps i pointers_next [of i ?ts] by (intro Suc.hyps(1)) simp_all
    moreover have "[i..<length obs] = i # [i + 1..<length obs]" using i by (simp add: upt_conv_Cons)
    ultimately show ?thesis
      using i True labels_of_row [OF t i True]
      by (simp add: feature_rows.simps [of obs threshold i] adv last Let_def) (simp add: labelled_row_def Let_def)
  qed
qed

text \<open>
  C20. The features of a capture, with the default threshold: if the book follows the captured frames without an exception, no timestamp plus a
  second passes \<open>UINT64_MAX\<close> and the output path is free, the observations are ordered in time and never crossed, and the program
  emits a row for exactly the observations that have another at least a second later, where each label is the
  sign of the move of the mid price to the first observation at least its horizon later, or 0 for a move below 10000000.
\<close>

theorem feature_extract_labels:
  assumes "depth < 2 ^ 64" "length (live_topic depth symbol) \<le> raw_capture_max_metadata"
    and captured: "recordable frames" "fs path = Some (capture_bytes (to_bytes (live_topic depth symbol)) frames)"
    and n: "length frames < n" and "fs output = None"
    and run: "run_frames (observe_frame pt (live_topic depth symbol)) (vb_new depth, []) frames = Value (book, obs)"
    and wrap: "no_wrap (map os_timestamp_ms obs) 1000"
  shows "observations_ok obs \<and> feature_extract n pt fs [path, output] = Value (map (labelled_row obs 10000000)
    (filter (\<lambda>i. first_future (map os_timestamp_ms obs) 1000 i < length obs) [0..<length obs]))"
proof
  let ?topic = "live_topic depth symbol"
  show ok: "observations_ok obs" using run_frames_ok [OF run] by (simp add: observations_ok_def)
  have "valid_topic (to_bytes ?topic)" using assms(2) by (simp add: valid_topic_def to_bytes_def live_topic_def)
  with reader_of_capture [of "to_bytes ?topic" frames fs path n "observe_frame pt ?topic" "(vb_new depth, [])"] captured n
  obtain r where r: "cr_open fs path = Value r" "cr_topic r = to_bytes ?topic"
      "reader_loop n (observe_frame pt ?topic) r (vb_new depth, []) = run_frames (observe_frame pt ?topic) (vb_new depth, []) frames"
    by auto
  have "pointers_ok (map os_timestamp_ms obs) 0 [0, 0, 0]" by (simp add: pointers_ok_def horizons_def)
  with feature_rows_from [of obs 10000000 0 "[0, 0, 0]"] ok wrap
  have "feature_rows obs 10000000 0 [0, 0, 0] = Value (map (labelled_row obs 10000000)
    (filter (\<lambda>i. first_future (map os_timestamp_ms obs) 1000 i < length obs) [0..<length obs]))"
    by (simp add: observations_ok_def)
  moreover have "unat (of_nat depth :: u64) = depth" using assms(1) by (simp add: unat_of_nat)
  ultimately show "feature_extract n pt fs [path, output] = Value (map (labelled_row obs 10000000)
    (filter (\<lambda>i. first_future (map os_timestamp_ms obs) 1000 i < length obs) [0..<length obs]))"
    using r run assms(6) depth_of_topic(2) [OF assms(1), of symbol]
    by (simp add: feature_extract_def to_chars_to_bytes Let_def)
qed

section \<open>A sample capture\<close>

text \<open>Two snapshots a second apart; the second has higher prices.\<close>

definition later_tree :: tree where
  "later_tree = Tree [] [(''topic'', leaf ''orderbook.50.BTCUSDT''), (''type'', leaf ''snapshot''), (''cts'', leaf ''1005''),
     (''data'', Tree [] [(''u'', leaf ''8''), (''b'', Tree [] [row ''102'' ''2'']), (''a'', Tree [] [row ''103'' ''0.25''])])]"

definition two_ptree :: "tree ptree" where
  "two_ptree = sample_ptree (\<lambda>text. Value (if text = ''{}'' then sample_snapshot_tree else later_tree))"

definition later_frame :: raw_frame_record where
  "later_frame = sample_text_frame\<lparr>rf_capture_index := 1, rf_payload := [123]\<rparr>"

definition later_message :: message where
  "later_message = \<lparr>ms_kind = Snapshot_message, ms_update_id = 8, ms_sequence = 0, ms_exchange_timestamp_ms = 1005,
     ms_topic = ''orderbook.50.BTCUSDT'', ms_bids = [\<lparr>l2_price = 10200000000, l2_quantity = 200000000\<rparr>],
     ms_asks = [\<lparr>l2_price = 10300000000, l2_quantity = 25000000\<rparr>], ms_changes = []\<rparr>"

definition sample_observations :: "observation list" where
  "sample_observations =
     [\<lparr>os_timestamp_ms = 5, os_bid = 10050000000, os_ask = 10100000000, os_bid_size = 200000000, os_ask_size = 25000000,
       os_bid_depth = [200000000, 200000000, 200000000], os_ask_depth = [25000000, 25000000, 25000000]\<rparr>,
      \<lparr>os_timestamp_ms = 1005, os_bid = 10200000000, os_ask = 10300000000, os_bid_size = 200000000, os_ask_size = 25000000,
       os_bid_depth = [200000000, 200000000, 200000000], os_ask_depth = [25000000, 25000000, 25000000]\<rparr>]"

lemma two_decode: "decode two_ptree (to_chars (rf_payload sample_text_frame)) = Value (Some sample_message)"
  "decode two_ptree (to_chars (rf_payload later_frame)) = Value (Some later_message)"
  by code_simp+

lemma sample_observed:
  "\<exists>book. run_frames (observe_frame two_ptree ''orderbook.50.BTCUSDT'') (vb_new 50, []) [sample_text_frame, later_frame] =
     Value (book, sample_observations)"
  by (rule exI [of _ "snd (apply_message later_message (vb_new 50))"]) code_simp

lemma sample_capture_recordable: "recordable [sample_text_frame, later_frame]"
  by (simp add: recordable_def numbered_from_def less_Suc_eq nth_Cons' sample_text_frame_def later_frame_def sample_frame_def raw_frame_max_payload_def)

definition sample_files :: files where
  "sample_files = [''a'' \<mapsto> capture_bytes (to_bytes ''orderbook.50.BTCUSDT'') [sample_text_frame, later_frame]]"

theorem feature_extract_labels_witness:
  "\<exists>rows. feature_extract 3 two_ptree sample_files [''a'', ''b''] = Value rows \<and>
     map fr_mid rows = [10075000000] \<and> map fr_labels rows = [[1, 1, 1]]"
proof -
  obtain book where run: "run_frames (observe_frame two_ptree (live_topic 50 ''BTCUSDT'')) (vb_new 50, []) [sample_text_frame, later_frame] =
     Value (book, sample_observations)" using sample_observed unfolding sample_live_topic by blast
  have "no_wrap (map os_timestamp_ms sample_observations) 1000" by (simp add: no_wrap_def sample_observations_def)
  from feature_extract_labels [OF _ _ sample_capture_recordable _ _ _ run this, of sample_files "''a''" 3 "''b''"]
  have "feature_extract 3 two_ptree sample_files [''a'', ''b''] = Value (map (labelled_row sample_observations 10000000)
    (filter (\<lambda>i. first_future (map os_timestamp_ms sample_observations) 1000 i < length sample_observations) [0..<length sample_observations]))"
    by (simp add: sample_live_topic raw_capture_max_metadata_def sample_files_def)
  moreover have "filter (\<lambda>i. first_future (map os_timestamp_ms sample_observations) 1000 i < length sample_observations)
      [0..<length sample_observations] = [0]"
    by code_simp
  moreover have "map (\<lambda>h. first_future (map os_timestamp_ms sample_observations) h 0) horizons = [1, 1, 1]" by code_simp
  then have "labelled_row sample_observations 10000000 0 =
      \<lparr>fr_cts_ms = 5, fr_mid = 10075000000, fr_spread = 50000000, fr_labels = [1, 1, 1]\<rparr>"
    by (simp add: labelled_row_def sample_observations_def mid_def horizons_def Let_def)
  ultimately show ?thesis by simp
qed

theorem state_export_of_capture_witness:
  "\<exists>fs'. state_export 3 two_ptree sample_files [''a'', ''b''] True [] [] Stored Stored True = Done fs' \<and>
     fs' ''b.meta'' = Some (to_bytes (state_manifest ''a'' ''orderbook.50.BTCUSDT'' 2))"
proof -
  let ?xs = "[(9, sample_text_frame), (1009, later_frame)]"
  have "\<exists>p. consume_all two_ptree (pr_new 50 ''orderbook.50.BTCUSDT'' True) ?xs = Done p"
  proof -
    have "case consume_all two_ptree (pr_new 50 ''orderbook.50.BTCUSDT'' True) ?xs of Done p \<Rightarrow> True | _ \<Rightarrow> False" by code_simp
    then show ?thesis by (auto split: outcome.splits)
  qed
  then obtain p where p: "consume_all two_ptree (pr_new 50 (live_topic 50 ''BTCUSDT'') True) ?xs = Done p"
    unfolding sample_live_topic by blast
  have "length (state_rows (history two_ptree (vb_new 50) (map snd ?xs))) = 2" unfolding length_state_rows by code_simp
  with state_export_of_capture [OF _ _ _ p, of sample_files "''a''" 3 "''b''" _ "[]" "[]"] sample_capture_recordable show ?thesis
    by (auto simp: sample_live_topic raw_capture_max_metadata_def sample_files_def)
qed

text \<open>
  Near \<open>UINT64_MAX\<close> the sums of the bounds wrap, some horizons but not others: the loop takes a
  pointer that ran to the end for a valid index, since it tests the last pointer only.
\<close>

definition late_observation :: "u64 \<Rightarrow> observation" where
  "late_observation t = \<lparr>os_timestamp_ms = t, os_bid = 100, os_ask = 101, os_bid_size = 1, os_ask_size = 1,
     os_bid_depth = [1, 1, 1], os_ask_depth = [1, 1, 1]\<rparr>"

lemma feature_rows_out_of_range:
  "feature_rows [late_observation (uint64_max - 600), late_observation (uint64_max - 590)] 10000000 0 [0, 0, 0] =
     Raise (Out_of_range ''observations'')"
  by code_simp

end
