(* ===== verification/Benchmark_Traces.thy ===== *)
theory Benchmark_Traces
  imports Bitmap_Levels
begin

text \<open>
  The traces that the order-book benchmarks generate (\<open>cpp/benchmarks/mixed_lifecycle.cpp\<close>, \<open>order_book_lifecycle.cpp\<close> and its
  copies for versions 2 and 3, \<open>dense_ladder_best_level_churn.cpp\<close>) and the sample that each of them runs, except the clock: a new
  book, every event of the trace, a running digest of the best levels, and the check that the book is empty again.
\<close>

section \<open>Traces\<close>

definition kMinimumPrice :: price where
  "kMinimumPrice = 99873"

definition kOrderCount :: nat where
  "kOrderCount = 32768"

definition kCycles :: nat where
  "kCycles = 8192"

definition bench_event :: "event_type \<Rightarrow> order_id \<Rightarrow> order_id \<Rightarrow> side \<Rightarrow> price \<Rightarrow> quantity \<Rightarrow> event" where
  "bench_event t i j s p q =
     \<lparr>ev_type = t, ev_order_id = i, ev_replacement_order_id = j, ev_side = s, ev_price_ticks = p, ev_quantity = q\<rparr>"

definition bench_price :: "side \<Rightarrow> nat \<Rightarrow> price" where
  "bench_price s offset = (if s = Bid then 100000 - of_nat offset else 100001 + of_nat offset)"

definition mixed_cycle :: "nat \<Rightarrow> event list" where
  "mixed_cycle cycle =
     (let a = of_nat (cycle * 3 + 1); b = of_nat (cycle * 3 + 2); c = of_nat (cycle * 3 + 3);
          offset = cycle mod 128;
          a_side = (if cycle mod 2 = 0 then Bid else Ask);
          b_side = (if a_side = Bid then Ask else Bid);
          a_price = bench_price a_side offset;
          b_price = bench_price b_side offset
      in [bench_event Add a 0 a_side a_price 10,
          bench_event Add b 0 b_side b_price 20,
          bench_event Cancel a 0 a_side 0 3,
          bench_event OrderUpsert b 0 b_side b_price 15,
          bench_event Replace a c a_side a_price 7,
          bench_event Execute c 0 a_side 0 7,
          bench_event (if cycle mod 2 = 0 then Delete else OrderDelete) b 0 Bid 0 0])"

definition mixed_trace :: "event list" where
  "mixed_trace = concat (map mixed_cycle [0..<kCycles])"

definition churn_quantity :: "nat \<Rightarrow> quantity" where
  "churn_quantity index = 1 + of_nat (index mod 97)"

definition churn_add :: "nat \<Rightarrow> event" where
  "churn_add index =
     (let side = (if index mod 2 = 0 then Bid else Ask)
      in bench_event Add (of_nat (index + 1)) 0 side (bench_price side (index mod 128)) (churn_quantity index))"

definition churn_execute :: "nat \<Rightarrow> event" where
  "churn_execute index = bench_event Execute (of_nat (index + 1)) 0 Bid 0 (churn_quantity index)"

definition lifecycle_churn_trace :: "event list" where
  "lifecycle_churn_trace = map churn_add [0..<kOrderCount] @ map churn_execute [0..<kOrderCount]"

definition best_level_pair :: "nat \<Rightarrow> event list" where
  "best_level_pair index =
     (let side = (if index mod 2 = 0 then Bid else Ask);
          price = (if side = Bid then 100128 else 99873)
      in [bench_event Add (of_nat (index + 1)) 0 side price (churn_quantity index),
          bench_event Execute (of_nat (index + 1)) 0 side price (churn_quantity index)])"

definition best_level_churn_trace :: "event list" where
  "best_level_churn_trace = concat (map best_level_pair [0..<kOrderCount])"

section \<open>One sample\<close>

definition fold_bbo :: "level option \<Rightarrow> level option \<Rightarrow> u64" where
  "fold_bbo bid ask =
     (let acc = 0x9E3779B97F4A7C15;
          acc = (case bid of None \<Rightarrow> acc
                    | Some l \<Rightarrow> acc XOR (lvl_price_ticks l XOR push_bit 1 (lvl_quantity l)))
      in case ask of None \<Rightarrow> acc
         | Some l \<Rightarrow> acc XOR (push_bit 7 (lvl_price_ticks l) XOR push_bit 3 (lvl_quantity l)))"

definition mix_digest :: "u64 \<Rightarrow> u64 \<Rightarrow> u64" where
  "mix_digest acc bbo = acc XOR (bbo + 0x9E3779B97F4A7C15 + push_bit 6 acc + drop_bit 2 acc)"

definition read_digest :: "('b \<Rightarrow> level option result) \<Rightarrow> ('b \<Rightarrow> level option result) \<Rightarrow> bool \<Rightarrow> 'b \<Rightarrow> u64 \<Rightarrow> u64 result" where
  "read_digest best_bid best_ask read b acc =
     (if \<not> read then Value acc
      else and_then (best_bid b) (\<lambda>bid. and_then (best_ask b) (\<lambda>ask. Value (mix_digest acc (fold_bbo bid ask)))))"

text \<open>The loop over the events; \<open>read\<close> is the build option \<open>LLAB_READ_BBO\<close>.\<close>

fun sample_events :: "('b \<Rightarrow> event \<Rightarrow> 'b outcome) \<Rightarrow> ('b \<Rightarrow> level option result) \<Rightarrow> ('b \<Rightarrow> level option result) \<Rightarrow> bool \<Rightarrow>
    'b \<Rightarrow> event list \<Rightarrow> u64 \<Rightarrow> ('b \<times> u64) result" where
  "sample_events apply_ev best_bid best_ask read b [] acc = Value (b, acc)"
| "sample_events apply_ev best_bid best_ask read b (e # es) acc =
     (case apply_ev b e of
        Done b' \<Rightarrow> and_then (read_digest best_bid best_ask read b' acc) (sample_events apply_ev best_bid best_ask read b' es)
      | Threw x b' \<Rightarrow> Raise x
      | Diverges \<Rightarrow> Loops)"

text \<open>One sample, with the check of the empty book after it; \<open>not_empty\<close> is the text of the benchmark's exception.\<close>

definition run_sample :: "string \<Rightarrow> ('b \<Rightarrow> event \<Rightarrow> 'b outcome) \<Rightarrow> ('b \<Rightarrow> level option result) \<Rightarrow> ('b \<Rightarrow> level option result) \<Rightarrow> ('b \<Rightarrow> u64) \<Rightarrow>
    bool \<Rightarrow> 'b result \<Rightarrow> event list \<Rightarrow> u64 \<Rightarrow> u64 result" where
  "run_sample not_empty apply_ev best_bid best_ask live_order_count read new events acc =
     and_then new (\<lambda>b.
     and_then (sample_events apply_ev best_bid best_ask read b events acc) (\<lambda>(b, acc).
     let failed = Raise (Runtime_error not_empty)
     in if live_order_count b \<noteq> 0 then failed
        else and_then (best_bid b) (\<lambda>bid.
          if bid \<noteq> None then failed
          else and_then (best_ask b) (\<lambda>ask. if ask \<noteq> None then failed else Value acc))))"

section \<open>The specification of a sample\<close>

fun spec_sample :: "bool \<Rightarrow> orders \<Rightarrow> event list \<Rightarrow> u64 \<Rightarrow> u64" where
  "spec_sample read m [] acc = acc"
| "spec_sample read m (e # es) acc =
     (case l3_step m e of
        None \<Rightarrow> acc
      | Some m' \<Rightarrow> spec_sample read m' es (if read then mix_digest acc (fold_bbo (spec_best m' Bid) (spec_best m' Ask)) else acc))"

lemma spec_best_empty: "spec_best Map.empty s = None"
  by (simp add: spec_best_def spec_prices_def)

lemma admitted_step: "admitted cap rng m e = Some m' \<Longrightarrow> l3_step m e = Some m'"
  by (simp add: admitted_def split: if_splits)

context l3_book
begin

lemma sample_events_spec:
  "ok b \<Longrightarrow> l3_run cap rng (view b) es = Some m \<Longrightarrow>
     \<exists>b'. sample_events apply_ev best_bid best_ask read b es acc = Value (b', spec_sample read (view b) es acc) \<and> ok b' \<and> view b' = m"
proof (induction es arbitrary: b acc)
  case (Cons e es)
  then obtain m1 where m1: "admitted cap rng (view b) e = Some m1" "l3_run cap rng m1 es = Some m"
    by (auto simp: bind_eq_Some_conv)
  obtain b1 where b1: "apply_ev b e = Done b1" "ok b1" "view b1 = m1"
    using Cons.prems(1) m1(1) by (rule apply_admitted)
  define acc' where "acc' = (if read then mix_digest acc (fold_bbo (spec_best m1 Bid) (spec_best m1 Ask)) else acc)"
  have "read_digest best_bid best_ask read b1 acc = Value acc'"
    using b1(2,3) by (simp add: read_digest_def best_bid_spec best_ask_spec acc'_def)
  moreover have "spec_sample read (view b) (e # es) acc = spec_sample read m1 es acc'"
    using admitted_step [OF m1(1)] by (simp add: acc'_def)
  ultimately show ?case using Cons.IH [OF b1(2), of acc'] m1(2) b1 by simp
qed simp

text \<open>On a trace that leads back to the empty book the final check passes.\<close>

lemma run_sample_spec:
  assumes "new = Value b" "ok b" "view b = Map.empty" "l3_run cap rng Map.empty es = Some Map.empty"
  shows "run_sample not_empty apply_ev best_bid best_ask live_order_count read new es acc = Value (spec_sample read Map.empty es acc)"
proof -
  obtain b' where b': "sample_events apply_ev best_bid best_ask read b es acc = Value (b', spec_sample read Map.empty es acc)"
      "ok b'" "view b' = Map.empty"
    using sample_events_spec [of b es Map.empty read acc] assms by auto
  then show ?thesis using assms(1) by (simp add: run_sample_def best_bid_spec best_ask_spec live_spec spec_best_empty)
qed

end

section \<open>The traces lead back to the empty book\<close>

lemma l3_run_append: "l3_run cap rng m (xs @ ys) = Option.bind (l3_run cap rng m xs) (\<lambda>m'. l3_run cap rng m' ys)"
proof (induction xs arbitrary: m)
  case (Cons e xs)
  then show ?case by (cases "admitted cap rng m e") simp_all
qed simp

lemma l3_run_cycles:
  "(\<And>k. k < n \<Longrightarrow> l3_run cap rng Map.empty (f k) = Some Map.empty) \<Longrightarrow>
     l3_run cap rng Map.empty (concat (map f [0..<n])) = Some Map.empty"
  by (induction n) (simp_all add: l3_run_append)

lemma bench_price_in_range: "offset < 128 \<Longrightarrow> in_ladder kMinimumPrice kPriceCount (bench_price s offset)"
proof -
  assume o: "offset < 128"
  then have u: "unat (of_nat offset :: u64) = offset" by (simp add: unat_of_nat_u64)
  have lo: "unat (100000 - of_nat offset :: u64) = 100000 - offset" using o u by (simp add: unat_minus_u64)
  have hi: "unat (100001 + of_nat offset :: u64) = 100001 + offset" using o u by (simp add: unat_plus_u64)
  have "unat (127 - of_nat offset :: u64) = 127 - offset" "unat (128 + of_nat offset :: u64) = 128 + offset"
    using o u by (simp_all add: unat_minus_u64 unat_plus_u64)
  then show ?thesis
    using o lo hi by (cases s) (auto simp: in_ladder_def kMinimumPrice_def kPriceCount_def bench_price_def word_less_nat_alt)
qed

lemma small_ids:
  assumes "i < 2 ^ 64" "j < 2 ^ 64"
  shows "(of_nat i :: u64) = of_nat j \<longleftrightarrow> i = j" "(of_nat i :: u64) = 0 \<longleftrightarrow> i = 0"
  using assms unat_of_nat_u64 [of i] unat_of_nat_u64 [of j] by (metis unat_zero_iff)+

lemmas event_steps = admitted_def fits_def l3_step_def l3_add_def l3_remove_def l3_reduce_def l3_upsert_def ev_order_def bench_event_def

text \<open>The seven events of a cycle, for any three different identifiers and any prices in range.\<close>

lemma cycle_restores_empty:
  assumes ids: "a \<noteq> 0" "b \<noteq> 0" "c \<noteq> 0" "a \<noteq> b" "a \<noteq> c" "b \<noteq> c" and rng: "rng p" "rng q" and cap: "2 \<le> cap"
    and last: "t = Delete \<or> t = OrderDelete"
  shows "l3_run cap rng Map.empty
    [bench_event Add a 0 s p 10, bench_event Add b 0 s' q 20, bench_event Cancel a 0 s 0 3, bench_event OrderUpsert b 0 s' q 15,
     bench_event Replace a c s p 7, bench_event Execute c 0 s 0 7, bench_event t b 0 Bid 0 0] = Some Map.empty"
proof -
  let ?o = "\<lambda>s p n. \<lparr>ord_side = s, ord_price_ticks = p, ord_remaining_quantity = n\<rparr>"
  have 1: "admitted cap rng Map.empty (bench_event Add a 0 s p 10) = Some [a \<mapsto> ?o s p 10]"
    using ids rng cap by (simp add: event_steps level_total_new contrib_def)
  have 2: "admitted cap rng [a \<mapsto> ?o s p 10] (bench_event Add b 0 s' q 20) = Some [a \<mapsto> ?o s p 10, b \<mapsto> ?o s' q 20]"
    using ids rng cap by (simp add: event_steps level_total_new contrib_def)
  have 3: "admitted cap rng [a \<mapsto> ?o s p 10, b \<mapsto> ?o s' q 20] (bench_event Cancel a 0 s 0 3) = Some [a \<mapsto> ?o s p 7, b \<mapsto> ?o s' q 20]"
    using ids by (simp add: event_steps fun_upd_twist)
  have 4: "admitted cap rng [a \<mapsto> ?o s p 7, b \<mapsto> ?o s' q 20] (bench_event OrderUpsert b 0 s' q 15) = Some [a \<mapsto> ?o s p 7, b \<mapsto> ?o s' q 15]"
    using ids rng by (simp add: event_steps level_total_upd contrib_def)
  have 5: "admitted cap rng [a \<mapsto> ?o s p 7, b \<mapsto> ?o s' q 15] (bench_event Replace a c s p 7) = Some [b \<mapsto> ?o s' q 15, c \<mapsto> ?o s p 7]"
    using ids rng by (simp add: event_steps level_total_upd contrib_def fun_upd_twist)
  have 6: "admitted cap rng [b \<mapsto> ?o s' q 15, c \<mapsto> ?o s p 7] (bench_event Execute c 0 s 0 7) = Some [b \<mapsto> ?o s' q 15]"
    using ids by (simp add: event_steps fun_upd_twist)
  have 7: "admitted cap rng [b \<mapsto> ?o s' q 15] (bench_event t b 0 Bid 0 0) = Some Map.empty"
    using last by (auto simp: event_steps)
  show ?thesis by (simp add: 1 2 3 4 5 6 7)
qed

lemma mixed_trace_restores_empty: "l3_run kOrderCount (in_ladder kMinimumPrice kPriceCount) Map.empty mixed_trace = Some Map.empty"
  unfolding mixed_trace_def
proof (rule l3_run_cycles)
  fix k assume k: "k < kCycles"
  then have small: "k * 3 + 1 < 2 ^ 64" "k * 3 + 2 < 2 ^ 64" "k * 3 + 3 < 2 ^ 64" by (simp_all add: kCycles_def)
  show "l3_run kOrderCount (in_ladder kMinimumPrice kPriceCount) Map.empty (mixed_cycle k) = Some Map.empty"
    unfolding mixed_cycle_def Let_def
    by (rule cycle_restores_empty)
      (use small in \<open>simp_all only: small_ids, simp_all add: bench_price_in_range kOrderCount_def\<close>)
qed

lemma churn_quantity_bounds: "churn_quantity i \<noteq> 0" "unat (churn_quantity i) \<le> 97"
proof -
  have "unat (of_nat (i mod 97) :: u64) = i mod 97" using unat_of_nat_u64 [of "i mod 97"] by (simp add: less_trans [of _ 97])
  then have "unat (churn_quantity i) = 1 + i mod 97" using unat_plus_u64 [of 1 "of_nat (i mod 97)"]
    by (simp add: churn_quantity_def less_trans [of _ 97])
  then show "churn_quantity i \<noteq> 0" "unat (churn_quantity i) \<le> 97" by (auto simp: Suc_le_eq)
qed

lemma best_level_trace_restores_empty:
  "l3_run kOrderCount (in_ladder kMinimumPrice kPriceCount) Map.empty best_level_churn_trace = Some Map.empty"
  unfolding best_level_churn_trace_def
proof (rule l3_run_cycles)
  fix k assume "k < kOrderCount"
  then have "(of_nat (k + 1) :: u64) \<noteq> 0" using small_ids(2) [of "k + 1" 0] by (simp add: kOrderCount_def)
  moreover have "in_ladder kMinimumPrice kPriceCount 100128" "in_ladder kMinimumPrice kPriceCount 99873"
    by (simp_all add: in_ladder_def kMinimumPrice_def kPriceCount_def)
  moreover have "unat (churn_quantity k) < 2 ^ 64" using churn_quantity_bounds(2) [of k] by simp
  ultimately show "l3_run kOrderCount (in_ladder kMinimumPrice kPriceCount) Map.empty (best_level_pair k) = Some Map.empty"
    using churn_quantity_bounds(1) [of k]
    by (simp add: best_level_pair_def event_steps level_total_new contrib_def kOrderCount_def)
qed

text \<open>
  A trace that adds the orders 1, 2, ... with small quantities, and its orders with identifiers above \<open>j\<close> and up to
  \<open>n\<close>.
\<close>

definition numbered_adds :: "(nat \<Rightarrow> event) \<Rightarrow> bool" where
  "numbered_adds f \<longleftrightarrow> (\<forall>k. ev_order_id (f k) = of_nat (k + 1) \<and> ev_type (f k) = Add \<and> ev_quantity (f k) \<noteq> 0 \<and>
     unat (ev_quantity (f k)) \<le> 97 \<and> in_ladder kMinimumPrice kPriceCount (ev_price_ticks (f k)))"

definition numbered_live :: "(nat \<Rightarrow> event) \<Rightarrow> nat \<Rightarrow> nat \<Rightarrow> orders" where
  "numbered_live f j n = (\<lambda>i. if j < unat i \<and> unat i \<le> n then Some (ev_order (f (unat i - 1))) else None)"

lemma churn_add_simps:
  "ev_order_id (churn_add k) = of_nat (k + 1)" "ev_type (churn_add k) = Add" "ev_quantity (churn_add k) = churn_quantity k"
  "in_ladder kMinimumPrice kPriceCount (ev_price_ticks (churn_add k))"
  by (simp_all add: churn_add_def bench_event_def bench_price_in_range Let_def)

lemma numbered_churn_adds: "numbered_adds churn_add"
  using churn_quantity_bounds by (simp add: numbered_adds_def churn_add_simps)

lemma churn_id: "k + 1 < 2 ^ 64 \<Longrightarrow> unat (of_nat (k + 1) :: u64) = Suc k"
  using unat_of_nat_u64 [of "k + 1"] by simp

lemma numbered_live_add:
  assumes "unat i = Suc k"
  shows "(numbered_live f 0 k)(i \<mapsto> ev_order (f k)) = numbered_live f 0 (Suc k)" "numbered_live f 0 k i = None"
proof -
  have "((numbered_live f 0 k)(i \<mapsto> ev_order (f k))) w = numbered_live f 0 (Suc k) w" for w
  proof (cases "w = i")
    case False
    then have "unat w \<noteq> Suc k" using assms by (metis word_unat_eq_iff)
    with False show ?thesis by (simp add: numbered_live_def le_Suc_eq)
  qed (use assms in \<open>auto simp: numbered_live_def\<close>)
  then show "(numbered_live f 0 k)(i \<mapsto> ev_order (f k)) = numbered_live f 0 (Suc k)" by (rule ext)
  show "numbered_live f 0 k i = None" using assms by (simp add: numbered_live_def)
qed

lemma numbered_live_drop:
  assumes "unat i = Suc j"
  shows "(numbered_live f j n)(i := None) = numbered_live f (Suc j) n"
proof (rule ext)
  fix w
  show "((numbered_live f j n)(i := None)) w = numbered_live f (Suc j) n w"
  proof (cases "w = i")
    case False
    then have "unat w \<noteq> Suc j" using assms by (metis word_unat_eq_iff)
    with False show ?thesis by (auto simp: numbered_live_def)
  qed (use assms in \<open>simp add: numbered_live_def\<close>)
qed

lemma numbered_live_empty: "n \<le> j \<Longrightarrow> numbered_live f j n = Map.empty"
  by (auto simp: numbered_live_def)

lemma numbered_live_dom: "n < 2 ^ 64 \<Longrightarrow> card (dom (numbered_live f 0 n)) = n"
proof (induction n)
  case 0
  then show ?case by (simp add: numbered_live_empty)
next
  case (Suc n)
  note add = numbered_live_add [OF churn_id [of n]]
  have "finite (dom (numbered_live f 0 n))" by simp
  with Suc add(2) show ?case by (subst add(1) [symmetric]) (simp_all add: domIff)
qed

lemma numbered_live_total:
  assumes "numbered_adds f"
  shows "n < 2 ^ 64 \<Longrightarrow> level_total (numbered_live f 0 n) s p \<le> 97 * n"
proof (induction n)
  case 0
  then show ?case by (simp add: numbered_live_empty)
next
  case (Suc n)
  from Suc.prems have "n + 1 < 2 ^ 64" by simp
  note add = numbered_live_add [OF churn_id [OF this]]
  have "contrib s p (ev_order (f n)) \<le> 97"
    using assms by (simp add: contrib_def ev_order_def numbered_adds_def)
  moreover have "level_total (numbered_live f 0 (Suc n)) s p = contrib s p (ev_order (f n)) + level_total (numbered_live f 0 n) s p"
    unfolding add(1) [symmetric] by (rule level_total_new) (rule add(2))
  ultimately show ?case using Suc by simp
qed

lemma numbered_adds_run:
  assumes f: "numbered_adds f"
  shows "n \<le> kOrderCount \<Longrightarrow>
    l3_run kOrderCount (in_ladder kMinimumPrice kPriceCount) Map.empty (map f [0..<n]) = Some (numbered_live f 0 n)"
proof (induction n)
  case 0
  then show ?case by (simp add: numbered_live_empty)
next
  case (Suc n)
  then have n: "n + 1 < 2 ^ 64" "Suc n < 2 ^ 64" by (simp_all add: kOrderCount_def)
  note add = numbered_live_add [OF churn_id [OF n(1)]]
  have "level_total (numbered_live f 0 (Suc n)) s p < 2 ^ 64" for s p
    using numbered_live_total [OF f n(2), of s p] Suc.prems by (simp add: kOrderCount_def)
  moreover have "(of_nat (n + 1) :: u64) \<noteq> 0" using small_ids(2) [of "n + 1" 0] n(1) by simp
  moreover have "card (dom (numbered_live f 0 n)) < kOrderCount" using numbered_live_dom [of n] n Suc.prems by simp
  moreover have fn: "ev_order_id (f n) = of_nat (n + 1)" "ev_type (f n) = Add" "ev_quantity (f n) \<noteq> 0"
    "in_ladder kMinimumPrice kPriceCount (ev_price_ticks (f n))" using f by (simp_all add: numbered_adds_def)
  ultimately have "admitted kOrderCount (in_ladder kMinimumPrice kPriceCount) (numbered_live f 0 n) (f n) = Some (numbered_live f 0 (Suc n))"
    using add [of f]
    by (simp add: admitted_def fits_def l3_step_def l3_add_def ev_order_def [of "f n"] del: of_nat_Suc of_nat_add)
  with Suc show ?case by (simp add: l3_run_append)
qed

lemma churn_executes:
  "j \<le> n \<Longrightarrow> n < 2 ^ 64 \<Longrightarrow> l3_run cap rng (numbered_live churn_add j n) (map churn_execute [j..<n]) = Some Map.empty"
proof (induction "n - j" arbitrary: j)
  case 0
  then show ?case by (simp add: numbered_live_empty)
next
  case (Suc d)
  then have j: "j + 1 < 2 ^ 64" "j < n" by simp_all
  have live: "numbered_live churn_add j n (of_nat (j + 1)) = Some (ev_order (churn_add j))"
    using churn_id [OF j(1)] j(2) by (simp add: numbered_live_def)
  have "admitted cap rng (numbered_live churn_add j n) (churn_execute j) = Some ((numbered_live churn_add j n)(of_nat (j + 1) := None))"
    using live churn_quantity_bounds(1) [of j]
    by (simp add: event_steps churn_execute_def ev_order_def churn_add_simps del: of_nat_Suc of_nat_add)
  moreover have "[j..<n] = j # [Suc j..<n]" using j(2) by (simp add: upt_conv_Cons)
  ultimately show ?case
    using Suc.hyps(1) [of "Suc j"] Suc.hyps(2) Suc.prems(2) j numbered_live_drop [OF churn_id [OF j(1)]] by simp
qed

lemma lifecycle_trace_restores_empty:
  "l3_run kOrderCount (in_ladder kMinimumPrice kPriceCount) Map.empty lifecycle_churn_trace = Some Map.empty"
  unfolding lifecycle_churn_trace_def l3_run_append
  using numbered_adds_run [OF numbered_churn_adds, of kOrderCount] churn_executes [of 0 kOrderCount] by (simp add: kOrderCount_def)

end
