(* ===== verification/Queue_Benchmark.thy ===== *)
theory Queue_Benchmark
  imports Raw_Frame_Queue
begin

text \<open>
  One sample of \<open>cpp/benchmarks/raw_frame_queue_benchmark.cpp\<close>: a producer thread sends a million numbered frames through the ring, a
  consumer thread takes them out and terminates the program at the first one out of order, and the main thread starts both at once and joins
  them. The threads interleave at each access to the ring, with the loads of \<open>Raw_Frame_Queue\<close>; whether a thread can be pinned to its
  processor is an argument.
\<close>

section \<open>Frames\<close>

definition kQueueEvents :: nat where
  "kQueueEvents = 1000000"

definition kQueueSlots :: nat where
  "kQueueSlots = 1024"

definition kPayloadCapacity :: nat where
  "kPayloadCapacity = 4096"

definition bench_payload :: "nat \<Rightarrow> u8 list" where
  "bench_payload index = (if index mod 16 = 0 then replicate 2048 0 else replicate 64 0)"

definition bench_header :: "nat \<Rightarrow> raw_frame_header" where
  "bench_header index = \<lparr>hd_capture_index = of_nat index, hd_monotonic_ns = of_nat index, hd_utc_ns = 0, hd_connection_id = 1,
     hd_direction = Inbound, hd_kind = Text\<rparr>"

definition bench_frame :: "nat \<Rightarrow> raw_frame_record" where
  "bench_frame index = frame_of (bench_header index) (bench_payload index)"

section \<open>Threads\<close>

text \<open>A thread is new, waits for \<open>start\<close>, is in its loop, or has ended.\<close>

datatype bench_thread = T_new | T_wait | T_run | T_done

text \<open>The main thread waits for \<open>ready\<close>, joins, or has passed the check of \<open>consumed\<close>.\<close>

datatype bench_main = M_wait | M_join | M_done

record queue_bench =
  qb_spsc :: spsc
  qb_producer :: bench_thread
  qb_consumer :: bench_thread
  qb_main :: bench_main
  qb_ready :: nat
  qb_start :: bool
  qb_consumed :: nat
  qb_index :: nat
  qb_expected :: nat
  qb_terminated :: bool

definition qb_new :: "frame_queue \<Rightarrow> queue_bench" where
  "qb_new q = \<lparr>qb_spsc = spsc_new q, qb_producer = T_new, qb_consumer = T_new, qb_main = M_wait, qb_ready = 0, qb_start = False,
     qb_consumed = 0, qb_index = 0, qb_expected = 0, qb_terminated = False\<rparr>"

inductive producer_step :: "bool \<Rightarrow> queue_bench \<Rightarrow> queue_bench \<Rightarrow> bool" for pinned where
  p_pin: "qb_producer b = T_new \<Longrightarrow>
    producer_step pinned b (if pinned then b\<lparr>qb_producer := T_wait, qb_ready := qb_ready b + 1\<rparr> else b\<lparr>qb_terminated := True\<rparr>)"
| p_go: "qb_producer b = T_wait \<Longrightarrow> qb_start b \<Longrightarrow> producer_step pinned b (b\<lparr>qb_producer := T_run\<rparr>)"
| p_too_large: "qb_producer b = T_run \<Longrightarrow> qb_index b < kQueueEvents \<Longrightarrow> sp_producer (qb_spsc b) = P_idle \<Longrightarrow>
    length (bench_payload (qb_index b)) > fq_payload_capacity (sp_queue (qb_spsc b)) \<Longrightarrow> producer_step pinned b b"
| p_full: "qb_producer b = T_run \<Longrightarrow> qb_index b < kQueueEvents \<Longrightarrow> s = qb_spsc b \<Longrightarrow> sp_producer s = P_idle \<Longrightarrow>
    length (bench_payload (qb_index b)) \<le> fq_payload_capacity (sp_queue s) \<Longrightarrow>
    sp_seen_reads s \<le> k \<Longrightarrow> k < length (sp_reads s) \<Longrightarrow> increment (sp_queue s) (fq_write_index (sp_queue s)) = sp_reads s ! k \<Longrightarrow>
    producer_step pinned b (b\<lparr>qb_spsc := s\<lparr>sp_seen_reads := k\<rparr>\<rparr>)"
| p_room: "qb_producer b = T_run \<Longrightarrow> qb_index b < kQueueEvents \<Longrightarrow> s = qb_spsc b \<Longrightarrow> sp_producer s = P_idle \<Longrightarrow>
    length (bench_payload (qb_index b)) \<le> fq_payload_capacity (sp_queue s) \<Longrightarrow>
    sp_seen_reads s \<le> k \<Longrightarrow> k < length (sp_reads s) \<Longrightarrow> write = fq_write_index (sp_queue s) \<Longrightarrow>
    nxt = increment (sp_queue s) write \<Longrightarrow> nxt \<noteq> sp_reads s ! k \<Longrightarrow>
    producer_step pinned b (b\<lparr>qb_spsc := s\<lparr>sp_seen_reads := k,
      sp_producer := P_fill write nxt (bench_header (qb_index b)) (bench_payload (qb_index b))\<rparr>\<rparr>)"
| p_fill: "s = qb_spsc b \<Longrightarrow> sp_producer s = P_fill write nxt header payload \<Longrightarrow>
    producer_step pinned b (b\<lparr>qb_spsc := s\<lparr>sp_queue := fill_slot (sp_queue s) write header payload,
      sp_producer := P_publish nxt (frame_of header payload)\<rparr>\<rparr>)"
| p_publish: "s = qb_spsc b \<Longrightarrow> sp_producer s = P_publish nxt r \<Longrightarrow>
    producer_step pinned b (b\<lparr>qb_spsc := s\<lparr>sp_queue := (sp_queue s)\<lparr>fq_write_index := nxt\<rparr>, sp_producer := P_idle,
      sp_writes := sp_writes s @ [nxt], sp_pushed := sp_pushed s @ [r]\<rparr>, qb_index := qb_index b + 1\<rparr>)"
| p_end: "qb_producer b = T_run \<Longrightarrow> sp_producer (qb_spsc b) = P_idle \<Longrightarrow> \<not> qb_index b < kQueueEvents \<Longrightarrow>
    producer_step pinned b (b\<lparr>qb_producer := T_done\<rparr>)"

inductive consumer_step :: "bool \<Rightarrow> queue_bench \<Rightarrow> queue_bench \<Rightarrow> bool" for pinned where
  c_pin: "qb_consumer b = T_new \<Longrightarrow>
    consumer_step pinned b (if pinned then b\<lparr>qb_consumer := T_wait, qb_ready := qb_ready b + 1\<rparr> else b\<lparr>qb_terminated := True\<rparr>)"
| c_go: "qb_consumer b = T_wait \<Longrightarrow> qb_start b \<Longrightarrow> consumer_step pinned b (b\<lparr>qb_consumer := T_run\<rparr>)"
| c_empty: "qb_consumer b = T_run \<Longrightarrow> qb_expected b < kQueueEvents \<Longrightarrow> s = qb_spsc b \<Longrightarrow> sp_consumer s = C_idle \<Longrightarrow>
    sp_seen_writes s \<le> k \<Longrightarrow> k < length (sp_writes s) \<Longrightarrow> fq_read_index (sp_queue s) = sp_writes s ! k \<Longrightarrow>
    consumer_step pinned b (b\<lparr>qb_spsc := s\<lparr>sp_seen_writes := k\<rparr>\<rparr>)"
| c_some: "qb_consumer b = T_run \<Longrightarrow> qb_expected b < kQueueEvents \<Longrightarrow> s = qb_spsc b \<Longrightarrow> sp_consumer s = C_idle \<Longrightarrow>
    sp_seen_writes s \<le> k \<Longrightarrow> k < length (sp_writes s) \<Longrightarrow> read = fq_read_index (sp_queue s) \<Longrightarrow> read \<noteq> sp_writes s ! k \<Longrightarrow>
    consumer_step pinned b (b\<lparr>qb_spsc := s\<lparr>sp_seen_writes := k, sp_consumer := C_copy read\<rparr>\<rparr>)"
| c_too_small: "s = qb_spsc b \<Longrightarrow> sp_consumer s = C_copy read \<Longrightarrow> kPayloadCapacity < sl_payload_size (fq_slots (sp_queue s) ! read) \<Longrightarrow>
    consumer_step pinned b (b\<lparr>qb_spsc := s\<lparr>sp_consumer := C_idle\<rparr>\<rparr>)"
| c_copy: "s = qb_spsc b \<Longrightarrow> sp_consumer s = C_copy read \<Longrightarrow> sl_payload_size (fq_slots (sp_queue s) ! read) \<le> kPayloadCapacity \<Longrightarrow>
    consumer_step pinned b (b\<lparr>qb_spsc := s\<lparr>sp_consumer := C_release read (slot_record (fq_slots (sp_queue s) ! read))\<rparr>\<rparr>)"
| c_release: "s = qb_spsc b \<Longrightarrow> sp_consumer s = C_release read r \<Longrightarrow>
    consumer_step pinned b (b\<lparr>qb_spsc := s\<lparr>sp_queue := (sp_queue s)\<lparr>fq_read_index := increment (sp_queue s) read\<rparr>, sp_consumer := C_idle,
      sp_reads := sp_reads s @ [increment (sp_queue s) read], sp_popped := sp_popped s @ [r]\<rparr>,
      qb_expected := qb_expected b + 1, qb_terminated := rf_capture_index r \<noteq> of_nat (qb_expected b)\<rparr>)"
| c_end: "qb_consumer b = T_run \<Longrightarrow> sp_consumer (qb_spsc b) = C_idle \<Longrightarrow> \<not> qb_expected b < kQueueEvents \<Longrightarrow>
    consumer_step pinned b (b\<lparr>qb_consumer := T_done, qb_consumed := kQueueEvents\<rparr>)"

inductive main_step :: "queue_bench \<Rightarrow> queue_bench \<Rightarrow> bool" where
  m_start: "qb_main b = M_wait \<Longrightarrow> qb_ready b = 2 \<Longrightarrow> main_step b (b\<lparr>qb_main := M_join, qb_start := True\<rparr>)"
| m_join: "qb_main b = M_join \<Longrightarrow> qb_producer b = T_done \<Longrightarrow> qb_consumer b = T_done \<Longrightarrow>
    main_step b (if qb_consumed b \<noteq> kQueueEvents then b\<lparr>qb_terminated := True\<rparr> else b\<lparr>qb_main := M_done\<rparr>)"

text \<open>Any thread makes the next step; nothing runs after \<open>std::terminate\<close>. The processors are those of the source.\<close>

definition qb_step :: "(nat \<Rightarrow> bool) \<Rightarrow> queue_bench \<Rightarrow> queue_bench \<Rightarrow> bool" where
  "qb_step pins b b' \<longleftrightarrow> \<not> qb_terminated b \<and> (producer_step (pins 0) b b' \<or> consumer_step (pins 2) b b' \<or> main_step b b')"

section \<open>Invariant\<close>

text \<open>What the producer has sent is numbered from 0; the consumer has taken a prefix of it.\<close>

definition producer_busy :: "producer \<Rightarrow> bench_thread \<Rightarrow> nat \<Rightarrow> bool" where
  "producer_busy pc t index \<longleftrightarrow> (case pc of P_idle \<Rightarrow> True
     | P_fill w nxt h p \<Rightarrow> t = T_run \<and> index < kQueueEvents \<and> h = bench_header index \<and> p = bench_payload index
     | P_publish nxt r \<Rightarrow> t = T_run \<and> index < kQueueEvents \<and> r = bench_frame index)"

definition consumer_busy :: "consumer \<Rightarrow> bench_thread \<Rightarrow> nat \<Rightarrow> bool" where
  "consumer_busy pc t expected \<longleftrightarrow> pc \<noteq> C_idle \<longrightarrow> t = T_run \<and> expected < kQueueEvents"

lemma busy_simps [simp]:
  "producer_busy P_idle t i"
  "producer_busy (P_fill w nxt h p) t i \<longleftrightarrow> t = T_run \<and> i < kQueueEvents \<and> h = bench_header i \<and> p = bench_payload i"
  "producer_busy (P_publish nxt r) t i \<longleftrightarrow> t = T_run \<and> i < kQueueEvents \<and> r = bench_frame i"
  "consumer_busy C_idle t i"
  "consumer_busy (C_copy read) t i \<longleftrightarrow> t = T_run \<and> i < kQueueEvents"
  "consumer_busy (C_release read r') t i \<longleftrightarrow> t = T_run \<and> i < kQueueEvents"
  by (simp_all add: producer_busy_def consumer_busy_def)

lemma busy_other:
  "producer_busy pc t i \<Longrightarrow> t \<noteq> T_run \<Longrightarrow> pc = P_idle" "consumer_busy cc t i \<Longrightarrow> t \<noteq> T_run \<Longrightarrow> cc = C_idle"
  by (auto simp: producer_busy_def consumer_busy_def split: producer.splits)

definition queue_small :: "frame_queue \<Rightarrow> bool" where
  "queue_small q \<longleftrightarrow> fq_payload_capacity q = kPayloadCapacity \<and> list_all (\<lambda>s. sl_payload_size s \<le> kPayloadCapacity) (fq_slots q)"

definition phases_ok :: "queue_bench \<Rightarrow> bool" where
  "phases_ok b \<longleftrightarrow>
     qb_ready b = (if qb_producer b = T_new then 0 else 1) + (if qb_consumer b = T_new then 0 else 1) \<and>
     qb_start b = (qb_main b \<noteq> M_wait) \<and> (qb_start b \<longrightarrow> qb_ready b = 2) \<and>
     (qb_producer b \<in> {T_run, T_done} \<or> qb_consumer b \<in> {T_run, T_done} \<longrightarrow> qb_start b) \<and>
     (qb_producer b = T_done \<longrightarrow> qb_index b = kQueueEvents) \<and>
     (qb_consumer b = T_done \<longrightarrow> qb_expected b = kQueueEvents \<and> qb_consumed b = kQueueEvents) \<and>
     (qb_main b = M_done \<longrightarrow> qb_producer b = T_done \<and> qb_consumer b = T_done)"

definition qb_inv :: "queue_bench \<Rightarrow> bool" where
  "qb_inv b \<longleftrightarrow> spsc_inv kQueueSlots (qb_spsc b) \<and> queue_small (sp_queue (qb_spsc b)) \<and>
     sp_pushed (qb_spsc b) = map bench_frame [0..<qb_index b] \<and> length (sp_popped (qb_spsc b)) = qb_expected b \<and>
     qb_index b \<le> kQueueEvents \<and> producer_busy (sp_producer (qb_spsc b)) (qb_producer b) (qb_index b) \<and>
     consumer_busy (sp_consumer (qb_spsc b)) (qb_consumer b) (qb_expected b) \<and> phases_ok b \<and> \<not> qb_terminated b"

lemma length_bench_payload: "length (bench_payload i) \<le> kPayloadCapacity"
  by (simp add: bench_payload_def kPayloadCapacity_def)

lemma queue_small_fill: "queue_small q \<Longrightarrow> queue_small (fill_slot q i h (bench_payload j))"
  using length_bench_payload [of j]
  by (cases "i < length (fq_slots q)") (auto simp: queue_small_def fill_slot_def Let_def list_all_length nth_list_update)

lemma queue_small_simps [simp]:
  "queue_small (q\<lparr>fq_write_index := i\<rparr>) = queue_small q" "queue_small (q\<lparr>fq_read_index := i\<rparr>) = queue_small q"
  by (simp_all add: queue_small_def)

lemma phases_ok_spsc [simp]: "phases_ok (b\<lparr>qb_spsc := s\<rparr>) = phases_ok b"
  by (simp add: phases_ok_def)

lemma producer_step_inv: "producer_step True b b' \<Longrightarrow> qb_inv b \<Longrightarrow> qb_inv b'"
proof (induction rule: producer_step.induct)
  case (p_pin b)
  then show ?case by (auto simp: qb_inv_def phases_ok_def dest: busy_other)
next
  case (p_go b)
  then show ?case by (auto simp: qb_inv_def phases_ok_def dest: busy_other)
next
  case (p_full b s k)
  have "spsc_inv kQueueSlots (s\<lparr>sp_seen_reads := k\<rparr>)"
    using spsc_inv_push_load(1) [of kQueueSlots s k] p_full by (auto simp: qb_inv_def)
  with p_full show ?case by (simp add: qb_inv_def)
next
  case (p_room b s k w nxt)
  have "spsc_inv kQueueSlots (s\<lparr>sp_seen_reads := k, sp_producer := P_fill w nxt (bench_header (qb_index b)) (bench_payload (qb_index b))\<rparr>)"
    using spsc_inv_push_load(2) [of kQueueSlots s k] p_room by (auto simp: qb_inv_def)
  with p_room show ?case by (simp add: qb_inv_def)
next
  case (p_fill s b w nxt header payload)
  have "spsc_inv kQueueSlots (s\<lparr>sp_queue := fill_slot (sp_queue s) w header payload, sp_producer := P_publish nxt (frame_of header payload)\<rparr>)"
    using spsc_inv_push_fill [of kQueueSlots s w nxt header payload] p_fill by (simp add: qb_inv_def)
  with p_fill show ?case by (simp add: qb_inv_def queue_small_fill bench_frame_def)
next
  case (p_publish s b nxt r)
  have "spsc_inv kQueueSlots (s\<lparr>sp_queue := (sp_queue s)\<lparr>fq_write_index := nxt\<rparr>, sp_producer := P_idle,
      sp_writes := sp_writes s @ [nxt], sp_pushed := sp_pushed s @ [r]\<rparr>)"
    using spsc_inv_push_publish [of kQueueSlots s nxt r] p_publish by (simp add: qb_inv_def)
  with p_publish show ?case by (auto simp: qb_inv_def phases_ok_def)
next
  case (p_end b)
  then show ?case by (auto simp: qb_inv_def phases_ok_def)
qed

text \<open>The record that the consumer holds is the one it expects.\<close>

lemma consumer_holds:
  assumes "qb_inv b" "sp_consumer (qb_spsc b) = C_release read r"
  shows "r = bench_frame (qb_expected b)" "qb_expected b < kQueueEvents"
proof -
  let ?s = "qb_spsc b"
  note d = spsc_invD [of kQueueSlots ?s]
  have inv: "spsc_inv kQueueSlots ?s" using assms(1) by (simp add: qb_inv_def)
  have r: "r = sp_pushed ?s ! length (sp_popped ?s)" "length (sp_popped ?s) < sp_seen_writes ?s"
    using inv assms(2) by (auto simp: spsc_inv_def Let_def split: consumer.splits)
  moreover have "sp_seen_writes ?s \<le> qb_index b" using d(9) [OF inv] assms(1) by (simp add: qb_inv_def)
  ultimately show "r = bench_frame (qb_expected b)" using assms(1) by (simp add: qb_inv_def)
  show "qb_expected b < kQueueEvents" using assms by (simp add: qb_inv_def)
qed

lemma consumer_step_inv: "consumer_step True b b' \<Longrightarrow> qb_inv b \<Longrightarrow> qb_inv b'"
proof (induction rule: consumer_step.induct)
  case (c_pin b)
  then show ?case by (auto simp: qb_inv_def phases_ok_def dest: busy_other)
next
  case (c_go b)
  then show ?case by (auto simp: qb_inv_def phases_ok_def dest: busy_other)
next
  case (c_empty b s k)
  have "spsc_inv kQueueSlots (s\<lparr>sp_seen_writes := k\<rparr>)"
    using spsc_inv_pop_load(1) [of kQueueSlots s k] c_empty by (auto simp: qb_inv_def)
  with c_empty show ?case by (simp add: qb_inv_def)
next
  case (c_some b s k read)
  have "spsc_inv kQueueSlots (s\<lparr>sp_seen_writes := k, sp_consumer := C_copy read\<rparr>)"
    using spsc_inv_pop_load(2) [of kQueueSlots s k] c_some by (auto simp: qb_inv_def)
  with c_some show ?case by (simp add: qb_inv_def)
next
  case (c_too_small s b read)
  have "spsc_inv kQueueSlots (s\<lparr>sp_consumer := C_idle\<rparr>)"
    using spsc_inv_pop_copy(2) [of kQueueSlots s read] c_too_small by (simp add: qb_inv_def)
  with c_too_small show ?case by (simp add: qb_inv_def)
next
  case (c_copy s b read)
  have "spsc_inv kQueueSlots (s\<lparr>sp_consumer := C_release read (slot_record (fq_slots (sp_queue s) ! read))\<rparr>)"
    using spsc_inv_pop_copy(1) [of kQueueSlots s read] c_copy by (simp add: qb_inv_def)
  with c_copy show ?case by (simp add: qb_inv_def)
next
  case (c_release s b read r)
  note r = consumer_holds [OF c_release.prems, of read r]
  have "rf_capture_index r = of_nat (qb_expected b)"
    using r(1) c_release.hyps by (simp add: bench_frame_def frame_of_def bench_header_def)
  moreover have "spsc_inv kQueueSlots (s\<lparr>sp_queue := (sp_queue s)\<lparr>fq_read_index := increment (sp_queue s) read\<rparr>, sp_consumer := C_idle,
      sp_reads := sp_reads s @ [increment (sp_queue s) read], sp_popped := sp_popped s @ [r]\<rparr>)"
    using spsc_inv_pop_release [of kQueueSlots s read r] c_release by (simp add: qb_inv_def)
  ultimately show ?case using c_release r(2) by (auto simp: qb_inv_def phases_ok_def)
next
  case (c_end b)
  have "length (sp_popped (qb_spsc b)) \<le> length (sp_pushed (qb_spsc b))"
    using c_end spsc_invD(8,9) [of kQueueSlots "qb_spsc b"] by (simp add: qb_inv_def)
  with c_end show ?case by (auto simp: qb_inv_def phases_ok_def)
qed

lemma main_step_inv: "main_step b b' \<Longrightarrow> qb_inv b \<Longrightarrow> qb_inv b'"
  by (induction rule: main_step.induct) (auto simp: qb_inv_def phases_ok_def dest: busy_other)

lemma qb_step_inv: "qb_step pins b b' \<Longrightarrow> pins 0 \<Longrightarrow> pins 2 \<Longrightarrow> qb_inv b \<Longrightarrow> qb_inv b'"
  using producer_step_inv consumer_step_inv main_step_inv by (auto simp: qb_step_def)

lemma qb_inv_new: "fq_new kQueueSlots kPayloadCapacity = Value q \<Longrightarrow> qb_inv (qb_new q)"
  using spsc_inv_reachable [OF _ spsc_reachable.start, of kQueueSlots kPayloadCapacity q]
  by (auto simp: qb_inv_def qb_new_def phases_ok_def spsc_new_def queue_small_def fq_new_def list_all_iff split: if_splits)

lemma qb_inv_steps:
  assumes "(qb_step pins)\<^sup>*\<^sup>* b b'" "pins 0" "pins 2" "qb_inv b"
  shows "qb_inv b'"
  using assms(1,4) by (induction rule: rtranclp_induct) (use assms(2,3) qb_step_inv in blast)+

section \<open>Progress\<close>

text \<open>The steps that are left, if no load is stale and nobody waits in vain.\<close>

definition steps_left :: "queue_bench \<Rightarrow> nat" where
  "steps_left b =
     (case qb_main b of M_wait \<Rightarrow> 2 | M_join \<Rightarrow> 1 | M_done \<Rightarrow> 0) +
     (case qb_producer b of T_new \<Rightarrow> 3 | T_wait \<Rightarrow> 2 | T_run \<Rightarrow> 1 | T_done \<Rightarrow> 0) +
     (case qb_consumer b of T_new \<Rightarrow> 3 | T_wait \<Rightarrow> 2 | T_run \<Rightarrow> 1 | T_done \<Rightarrow> 0) +
     (3 * (kQueueEvents - qb_index b) - (case sp_producer (qb_spsc b) of P_idle \<Rightarrow> 0 | P_fill _ _ _ _ \<Rightarrow> 1 | P_publish _ _ \<Rightarrow> 2)) +
     (3 * (kQueueEvents - qb_expected b) - (case sp_consumer (qb_spsc b) of C_idle \<Rightarrow> 0 | C_copy _ \<Rightarrow> 1 | C_release _ _ \<Rightarrow> 2))"

lemma qb_invD:
  assumes "qb_inv b"
  shows "spsc_inv kQueueSlots (qb_spsc b)" "length (sp_pushed (qb_spsc b)) = qb_index b"
    "length (sp_popped (qb_spsc b)) = qb_expected b" "qb_index b \<le> kQueueEvents" "phases_ok b" "\<not> qb_terminated b"
    "queue_small (sp_queue (qb_spsc b))" "producer_busy (sp_producer (qb_spsc b)) (qb_producer b) (qb_index b)"
    "consumer_busy (sp_consumer (qb_spsc b)) (qb_consumer b) (qb_expected b)"
    "qb_expected b \<le> qb_index b" "qb_index b < qb_expected b + kQueueSlots"
proof -
  show inv: "spsc_inv kQueueSlots (qb_spsc b)" "length (sp_pushed (qb_spsc b)) = qb_index b"
    "length (sp_popped (qb_spsc b)) = qb_expected b" "qb_index b \<le> kQueueEvents" "phases_ok b" "\<not> qb_terminated b"
    "queue_small (sp_queue (qb_spsc b))" "producer_busy (sp_producer (qb_spsc b)) (qb_producer b) (qb_index b)"
    "consumer_busy (sp_consumer (qb_spsc b)) (qb_consumer b) (qb_expected b)"
    using assms by (simp_all add: qb_inv_def)
  show "qb_expected b \<le> qb_index b" "qb_index b < qb_expected b + kQueueSlots"
    using spsc_invD(7,8,9,10) [OF inv(1)] inv(2,3) by linarith+
qed

text \<open>A consumer that has something to take goes on.\<close>

lemma consumer_progress:
  assumes inv: "qb_inv b" and run: "qb_consumer b = T_run" and some: "qb_expected b < qb_index b"
  shows "\<exists>b'. consumer_step True b b' \<and> steps_left b' < steps_left b"
proof -
  let ?s = "qb_spsc b" and ?q = "sp_queue (qb_spsc b)"
  note q = qb_invD [OF inv] and d = spsc_invD [OF qb_invD(1) [OF inv]]
  have ev: "qb_expected b < kQueueEvents" using some q(4) by simp
  show ?thesis
  proof (cases "sp_consumer ?s")
    case C_idle
    have "length (sp_writes ?s) = Suc (qb_index b)" "sp_writes ?s ! qb_index b = qb_index b mod kQueueSlots"
      using ring_counts_nth [OF d(5)] q(2) by simp_all
    moreover have "qb_expected b mod kQueueSlots \<noteq> qb_index b mod kQueueSlots"
      using mod_close [of "qb_expected b" kQueueSlots "qb_index b"] some q(11) by auto
    ultimately have "consumer_step True b (b\<lparr>qb_spsc := ?s\<lparr>sp_seen_writes := qb_index b, sp_consumer := C_copy (fq_read_index ?q)\<rparr>\<rparr>)"
      using C_idle run ev d(4,9) q(2,3) by (intro c_some [where k = "qb_index b"]) auto
    then show ?thesis using C_idle ev by (intro exI conjI) (assumption, simp add: steps_left_def)
  next
    case (C_copy read)
    then have "read < length (fq_slots ?q)"
      using q(1) d(1,2) by (auto simp: spsc_inv_def Let_def)
    then have "sl_payload_size (fq_slots ?q ! read) \<le> kPayloadCapacity"
      using q(7) by (simp add: queue_small_def list_all_length)
    from c_copy [OF refl C_copy this, of True] show ?thesis
      using C_copy ev by (intro exI conjI) (assumption, simp add: steps_left_def)
  next
    case (C_release read r)
    from c_release [OF refl C_release, of True] show ?thesis
      using C_release ev by (intro exI conjI) (assumption, simp add: steps_left_def)
  qed
qed

text \<open>A producer with frames to send goes on, or the ring is full.\<close>

lemma producer_progress:
  assumes inv: "qb_inv b" and run: "qb_producer b = T_run" and ev: "qb_index b < kQueueEvents"
  shows "(\<exists>b'. producer_step True b b' \<and> steps_left b' < steps_left b) \<or> qb_expected b < qb_index b"
proof -
  let ?s = "qb_spsc b" and ?q = "sp_queue (qb_spsc b)"
  note q = qb_invD [OF inv] and d = spsc_invD [OF qb_invD(1) [OF inv]]
  show ?thesis
  proof (cases "sp_producer ?s")
    case P_idle
    have r: "length (sp_reads ?s) = Suc (qb_expected b)" "sp_reads ?s ! qb_expected b = qb_expected b mod kQueueSlots"
      using ring_counts_nth [OF d(6)] q(3) by simp_all
    have nxt: "increment ?q (fq_write_index ?q) = Suc (qb_index b) mod kQueueSlots"
      using increment_mod [of ?q "qb_index b"] d(1,2,3) q(2) by simp
    show ?thesis
    proof (cases "qb_expected b < qb_index b")
      case False
      then have e: "qb_expected b = qb_index b" using q(10) by simp
      then have "increment ?q (fq_write_index ?q) \<noteq> sp_reads ?s ! qb_expected b"
        using nxt r(2) mod_close [of "qb_index b" kQueueSlots "Suc (qb_index b)"] by (auto simp: kQueueSlots_def)
      then have "producer_step True b (b\<lparr>qb_spsc := ?s\<lparr>sp_seen_reads := qb_expected b, sp_producer :=
          P_fill (fq_write_index ?q) (increment ?q (fq_write_index ?q)) (bench_header (qb_index b)) (bench_payload (qb_index b))\<rparr>\<rparr>)"
        using P_idle run ev d(7) q(3,7) r(1) length_bench_payload
        by (intro p_room [where k = "qb_expected b"]) (auto simp: queue_small_def)
      then show ?thesis using P_idle ev by (intro disjI1 exI conjI) (assumption, simp add: steps_left_def)
    qed simp
  next
    case (P_fill w nxt h p)
    from p_fill [OF refl P_fill, of True] show ?thesis
      using P_fill ev by (intro disjI1 exI conjI) (assumption, simp add: steps_left_def)
  next
    case (P_publish nxt r)
    from p_publish [OF refl P_publish, of True] show ?thesis
      using P_publish ev by (intro disjI1 exI conjI) (assumption, simp add: steps_left_def)
  qed
qed

lemma qb_progress:
  assumes inv: "qb_inv b" and pins: "pins 0" "pins 2" and unfinished: "qb_main b \<noteq> M_done"
  shows "\<exists>b'. qb_step pins b b' \<and> steps_left b' < steps_left b"
proof -
  note q = qb_invD [OF inv]
  note ph = q(5) [unfolded phases_ok_def]
  have producer: ?thesis if "producer_step True b b'" "steps_left b' < steps_left b" for b'
    using that q(6) pins by (auto simp: qb_step_def)
  have consumer: ?thesis if "consumer_step True b b'" "steps_left b' < steps_left b" for b'
    using that q(6) pins by (auto simp: qb_step_def)
  have main: ?thesis if "main_step b b'" "steps_left b' < steps_left b" for b'
    using that q(6) by (auto simp: qb_step_def)
  consider "qb_producer b = T_new" | "qb_consumer b = T_new" | "qb_producer b \<noteq> T_new" "qb_consumer b \<noteq> T_new" "qb_main b = M_wait"
    | "qb_start b" "qb_producer b = T_wait" | "qb_start b" "qb_consumer b = T_wait"
    | "qb_producer b = T_run" "qb_consumer b = T_run" | "qb_producer b = T_done" "qb_consumer b = T_run"
    | "qb_producer b = T_run" "qb_consumer b = T_done" | "qb_main b = M_join" "qb_producer b = T_done" "qb_consumer b = T_done"
    using ph unfinished by (cases "qb_main b"; cases "qb_producer b"; cases "qb_consumer b") auto
  then show ?thesis
  proof cases
    case 1
    then show ?thesis using p_pin [OF 1, of True] by (intro producer) (auto simp: steps_left_def)
  next
    case 2
    then show ?thesis using c_pin [OF 2, of True] by (intro consumer) (auto simp: steps_left_def)
  next
    case 3
    then have "qb_ready b = 2" using ph by simp
    from m_start [OF 3(3) this] show ?thesis by (rule main) (simp add: steps_left_def 3)
  next
    case 4
    from p_go [OF 4(2,1), of True] show ?thesis by (rule producer) (simp add: steps_left_def 4)
  next
    case 5
    from c_go [OF 5(2,1), of True] show ?thesis by (rule consumer) (simp add: steps_left_def 5)
  next
    case 6
    show ?thesis
    proof (cases "qb_index b < kQueueEvents")
      case True
      from producer_progress [OF inv 6(1) True] consumer_progress [OF inv 6(2)] producer consumer show ?thesis by blast
    next
      case False
      then have "sp_producer (qb_spsc b) = P_idle" using q(8) by (cases "sp_producer (qb_spsc b)") auto
      from p_end [OF 6(1) this False, of True] show ?thesis by (rule producer) (simp add: steps_left_def 6)
    qed
  next
    case 7
    show ?thesis
    proof (cases "qb_expected b < kQueueEvents")
      case True
      then have "qb_expected b < qb_index b" using 7 ph by simp
      from consumer_progress [OF inv 7(2) this] consumer show ?thesis by blast
    next
      case False
      then have "sp_consumer (qb_spsc b) = C_idle" using q(9) by (cases "sp_consumer (qb_spsc b)") auto
      from c_end [OF 7(2) this False, of True] show ?thesis by (rule consumer) (simp add: steps_left_def 7)
    qed
  next
    case 8
    then have "\<not> qb_index b < kQueueEvents" using ph q(4,10) by simp
    moreover from this have "sp_producer (qb_spsc b) = P_idle" using q(8) by (cases "sp_producer (qb_spsc b)") auto
    ultimately show ?thesis using p_end [OF 8(1), of True] by (intro producer) (auto simp: steps_left_def 8)
  next
    case 9
    then have "qb_consumed b = kQueueEvents" using ph by simp
    with m_join [OF 9] show ?thesis by (intro main) (auto simp: steps_left_def 9)
  qed
qed

lemma qb_can_complete:
  assumes pins: "pins 0" "pins 2"
  shows "qb_inv b \<Longrightarrow> \<exists>b'. (qb_step pins)\<^sup>*\<^sup>* b b' \<and> qb_main b' = M_done"
proof (induction "steps_left b" arbitrary: b rule: less_induct)
  case less
  show ?case
  proof (cases "qb_main b = M_done")
    case True
    then show ?thesis by blast
  next
    case False
    then obtain b1 where b1: "qb_step pins b b1" "steps_left b1 < steps_left b"
      using qb_progress [of b pins] less.prems pins by blast
    then have "qb_inv b1" using qb_step_inv [OF b1(1) pins less.prems] by simp
    with less.hyps [OF b1(2)] obtain b' where "(qb_step pins)\<^sup>*\<^sup>* b1 b'" "qb_main b' = M_done" by blast
    then show ?thesis using b1(1) by (meson converse_rtranclp_into_rtranclp)
  qed
qed

section \<open>Properties\<close>

text \<open>
  C17. If both threads can be pinned, no interleaving of a sample of the queue benchmark, with stale index loads, reaches
  \<open>std::terminate\<close>; at each moment the consumer has taken the first frames in order, and when the main thread has joined both, it
  has taken all the frames that were sent. From every state that a sample reaches it can still complete: the spinning
  threads are never both stuck.
\<close>

theorem queue_benchmark_completes:
  assumes "fq_new kQueueSlots kPayloadCapacity = Value q" "pins 0" "pins 2" "(qb_step pins)\<^sup>*\<^sup>* (qb_new q) b"
  shows "\<not> qb_terminated b \<and> sp_popped (qb_spsc b) = map bench_frame [0..<qb_expected b] \<and>
    (qb_main b = M_done \<longrightarrow> qb_expected b = kQueueEvents) \<and>
    (\<exists>b'. (qb_step pins)\<^sup>*\<^sup>* b b' \<and> qb_main b' = M_done)"
proof -
  have inv: "qb_inv b" using qb_inv_steps [OF assms(4,2,3) qb_inv_new [OF assms(1)]] .
  note d = qb_invD [OF inv] and s = spsc_invD(11) [OF qb_invD(1) [OF inv]]
  have "sp_popped (qb_spsc b) = take (qb_expected b) (map bench_frame [0..<qb_index b])"
    using s inv by (simp add: qb_inv_def)
  then show ?thesis using d(5,6,10) qb_can_complete [OF assms(2,3) inv] by (simp add: take_map phases_ok_def)
qed

theorem queue_benchmark_completes_witness:
  "\<exists>q b. fq_new kQueueSlots kPayloadCapacity = Value q \<and> (qb_step (\<lambda>_. True))\<^sup>*\<^sup>* (qb_new q) b \<and> qb_main b = M_done \<and>
     sp_popped (qb_spsc b) = map bench_frame [0..<kQueueEvents]"
proof -
  obtain q where q: "fq_new kQueueSlots kPayloadCapacity = Value q"
    by (simp add: fq_new_def kQueueSlots_def kPayloadCapacity_def)
  obtain b where b: "(qb_step (\<lambda>_. True))\<^sup>*\<^sup>* (qb_new q) b" "qb_main b = M_done"
    using queue_benchmark_completes [OF q, of "\<lambda>_. True" "qb_new q"] by auto
  with queue_benchmark_completes [OF q _ _ b(1)] q show ?thesis by auto
qed

end
