(* ===== verification/Bench_Samples.thy ===== *)
theory Bench_Samples
  imports Bbo_Snapshot Feed_Recovery Bitmap_Backshift_Order_Book Benchmark_Traces
begin

text \<open>
  The samples of the small benchmarks, without the clock: publication and read of the best bid and offer by one thread
  (\<open>cpp/benchmarks/bbo_snapshot_uncontended.cpp\<close>), a feed without gaps (\<open>feed_sequence_recovery.cpp\<close>), the probe profile of the
  backward-shift index (\<open>bitmap_backshift_probe_profile.cpp\<close>), and the generator and the sum of \<open>sequential_sum.cpp\<close>.
\<close>

section \<open>Whole calls on the publication cell\<close>

text \<open>
  One thread makes all accesses, so each load returns the newest value. A call of \<open>publish\<close> makes six accesses, a call of
  \<open>try_read\<close> at most six; the argument of \<open>read_rounds\<close> bounds the accesses and the return.
\<close>

definition bbo_publish :: "bbo_snapshot \<Rightarrow> bbo_cell \<Rightarrow> bbo_cell" where
  "bbo_publish snapshot c = (publish_step snapshot ^^ 6) c"

definition next_var :: "reader \<Rightarrow> var" where
  "next_var r = (case r of R_field k version values \<Rightarrow> if k < 4 then field_var k else Version | _ \<Rightarrow> Version)"

definition read_newest :: "bbo_cell \<Rightarrow> bbo_cell option" where
  "read_newest c = try_read_step True (length (bc_memory c (next_var (bc_reader c))) - 1) c"

fun read_rounds :: "nat \<Rightarrow> bbo_cell \<Rightarrow> (bbo_snapshot option \<times> bbo_cell) option" where
  "read_rounds 0 c = None"
| "read_rounds (Suc n) c =
     (case bc_reader c of
        R_done r \<Rightarrow> Some (r, c\<lparr>bc_reader := R_idle\<rparr>)
      | _ \<Rightarrow> (case read_newest c of None \<Rightarrow> None | Some c' \<Rightarrow> read_rounds n c'))"

definition bbo_try_read :: "bbo_cell \<Rightarrow> (bbo_snapshot option \<times> bbo_cell) option" where
  "bbo_try_read c = read_rounds 7 c"

section \<open>The sample of the cell\<close>

definition kBboOperations :: nat where
  "kBboOperations = 100000"

text \<open>\<open>None\<close> is the early return of 2, when a read fails.\<close>

fun bbo_sample_loop :: "bbo_cell \<Rightarrow> u64 \<Rightarrow> u64 list \<Rightarrow> u64 option" where
  "bbo_sample_loop c dg [] = Some dg"
| "bbo_sample_loop c dg (v # vs) =
     (case bbo_try_read (bbo_publish \<lparr>bid_price = v, bid_quantity = v + 1, ask_price = v + 2, ask_quantity = v + 3\<rparr> c) of
        Some (Some snapshot, c') \<Rightarrow> bbo_sample_loop c' (dg XOR bid_price snapshot) vs
      | _ \<Rightarrow> None)"

definition bbo_sample :: "u64 option" where
  "bbo_sample = bbo_sample_loop bbo_new 0 (map of_nat [1..<kBboOperations + 1])"

section \<open>The other samples\<close>

definition kFeedEvents :: nat where
  "kFeedEvents = 262144"

fun feed_sample_loop :: "u64 feed_recovery \<Rightarrow> u64 list \<Rightarrow> u64 list \<Rightarrow> u64 list result" where
  "feed_sample_loop st ready [] = Value ready"
| "feed_sample_loop st ready (sequence # rest) =
     (case on_incremental st sequence sequence ready of (r, st', ready') \<Rightarrow>
        if r \<noteq> Apply then Raise (Logic_error ''incremental'') else feed_sample_loop st' ready' rest)"

definition feed_sample :: "((u64 \<times> u64) list \<Rightarrow> (u64 \<times> u64) list) \<Rightarrow> u64 list result" where
  "feed_sample sorter =
     (case finish_snapshot sorter (begin_snapshot (fr_new 0 0) 0) [] of (finished, st, ready) \<Rightarrow>
        if \<not> finished then Raise (Logic_error ''initial snapshot'')
        else and_then (feed_sample_loop st ready (map of_nat [1..<kFeedEvents + 1])) (\<lambda>ready.
          if length ready \<noteq> kFeedEvents then Raise (Logic_error ''ready count'') else Value ready))"

definition profile_add :: "nat \<Rightarrow> event" where
  "profile_add k =
     (let i = k + 1; side = (if i mod 2 = 0 then Bid else Ask)
      in bench_event Add (of_nat i) 0 side (if side = Bid then 100000 - of_nat (i mod 128) else 100001 + of_nat (i mod 128)) 1)"

definition kProfileOrders :: nat where
  "kProfileOrders = 16384"

text \<open>The three numbers that the profile prints: live orders, all probes, most probes.\<close>

definition probe_profile :: "(u64 \<times> u64 \<times> u64) result" where
  "probe_profile =
     and_then (bb_new 32768 99873 256) (\<lambda>b.
       case run_events bb_apply b (map profile_add [0..<kProfileOrders]) of
         Done b' \<Rightarrow> Value (bb_live b', bb_order_index_total_probes b', bb_order_index_maximum_probes b')
       | Threw x b' \<Rightarrow> Raise x
       | Diverges \<Rightarrow> Loops)"

text \<open>\<open>SplitMix64\<close>: the value and the next state.\<close>

definition split_mix_next :: "u64 \<Rightarrow> u64 \<times> u64" where
  "split_mix_next st =
     (let st = st + 0x9E3779B97F4A7C15;
          z = st;
          z = (z XOR drop_bit 30 z) * 0xBF58476D1CE4E5B9;
          z = (z XOR drop_bit 27 z) * 0x94D049BB133111EB
      in (z XOR drop_bit 31 z, st))"

fun split_mix_values :: "nat \<Rightarrow> u64 \<Rightarrow> u64 list" where
  "split_mix_values 0 st = []"
| "split_mix_values (Suc n) st = (case split_mix_next st of (z, st') \<Rightarrow> z # split_mix_values n st')"

definition sequential_sum :: "u64 list \<Rightarrow> u64" where
  "sequential_sum values = foldl (+) 0 values"

text \<open>The reports: the positions that each benchmark reads from its sorted samples.\<close>

definition sum_report :: "u64 list \<Rightarrow> u64 list" where
  "sum_report durations = (let sorted = sort durations in [sorted ! 49, sorted ! 89, sorted ! 94])"

definition bbo_report :: "u64 list \<Rightarrow> u64 list" where
  "bbo_report samples = (let sorted = sort samples in [sorted ! 99, sorted ! 197])"

definition churn_report :: "u64 list \<Rightarrow> u64 list" where
  "churn_report samples =
     (let sorted = sort samples in [sorted ! (length sorted div 2), sorted ! (length sorted * 99 div 100)])"

definition feed_report :: "u64 list \<Rightarrow> u64 list" where
  "feed_report samples =
     (let sorted = sort samples in [sorted ! (length sorted div 2), sorted ! (length sorted * 99 div 100)])"

section \<open>A read that nobody disturbs\<close>

definition views_ok :: "bbo_cell \<Rightarrow> bool" where
  "views_ok c \<longleftrightarrow> (\<forall>y. bc_writer_view c y < length (bc_memory c y) \<and> bc_reader_view c y < length (bc_memory c y) \<and>
     (\<forall>x. \<forall>m \<in> set (bc_memory c x). snd m y < length (bc_memory c y)))"

lemma views_ok_simps [simp]:
  "views_ok (c\<lparr>bc_writer := w\<rparr>) = views_ok c" "views_ok (c\<lparr>bc_reader := r\<rparr>) = views_ok c"
  "views_ok (c\<lparr>bc_published := p\<rparr>) = views_ok c"
  "views_ok (c\<lparr>bc_reader := r, bc_reader_view := vw\<rparr>) = views_ok (c\<lparr>bc_reader_view := vw\<rparr>)"
  by (simp_all add: views_ok_def)

lemma views_okD:
  assumes "views_ok c"
  shows "bc_writer_view c y < length (bc_memory c y)" "bc_reader_view c y < length (bc_memory c y)" "bc_memory c y \<noteq> []"
    "m \<in> set (bc_memory c x) \<Longrightarrow> snd m y < length (bc_memory c y)"
proof -
  show r: "bc_writer_view c y < length (bc_memory c y)" "bc_reader_view c y < length (bc_memory c y)"
    "m \<in> set (bc_memory c x) \<Longrightarrow> snd m y < length (bc_memory c y)"
    using assms by (simp_all add: views_ok_def)
  show "bc_memory c y \<noteq> []" using r(1) by auto
qed

lemma views_ok_store:
  assumes "views_ok c"
  shows "views_ok (store release x v c)"
proof -
  have pos: "0 < length (bc_memory c y)" for y using views_okD(3) [OF assms] by simp
  have le: "length (bc_memory c y) \<le> length (bc_memory (store release x v c) y)" for y by (simp add: store_def Let_def)
  have "snd m y < length (bc_memory (store release x v c) y)" if "m \<in> set (bc_memory (store release x v c) z)" for m y z
  proof (cases "m \<in> set (bc_memory c z)")
    case True
    then show ?thesis using assms le [of y] by (auto simp: views_ok_def intro: less_le_trans)
  next
    case False
    then show ?thesis using that pos [of y] assms
      by (auto simp: store_def Let_def views_ok_def intro: less_SucI split: if_splits)
  qed
  then show ?thesis using assms by (auto simp: views_ok_def store_def Let_def intro: less_SucI)
qed

lemma views_ok_publish: "views_ok c \<Longrightarrow> views_ok (publish_step s c)"
  by (auto simp: publish_step_def views_ok_store split: writer.splits)

lemma load_last:
  assumes "views_ok c"
  obtains vw where "load True acquire x (length (bc_memory c x) - 1) c = Some (newest c x, c\<lparr>bc_reader_view := vw\<rparr>)"
    "views_ok (c\<lparr>bc_reader_view := vw\<rparr>)"
proof -
  have ne: "bc_memory c x \<noteq> []" using views_okD(3) [OF assms] .
  let ?t = "length (bc_memory c x) - 1"
  define vw where "vw = (if acquire then (\<lambda>y. max (((bc_reader_view c)(x := ?t)) y) (snd (last (bc_memory c x)) y))
    else (bc_reader_view c)(x := ?t))"
  have "bc_reader_view c x \<le> ?t" using views_okD(2) [OF assms, of x] by simp
  then have "load True acquire x ?t c = Some (newest c x, c\<lparr>bc_reader_view := vw\<rparr>)"
    using ne by (auto simp: load_def last_conv_nth newest_def vw_def Let_def split: prod.splits)
  moreover have "vw y < length (bc_memory c y)" for y
    using views_okD [OF assms] views_okD(4) [OF assms last_in_set [OF ne]] by (simp add: vw_def)
  then have "views_ok (c\<lparr>bc_reader_view := vw\<rparr>)" using assms by (simp add: views_ok_def)
  ultimately show ?thesis using that by blast
qed

lemma read_field:
  assumes "views_ok c" "bc_reader c = R_field k v vs" "k < 4"
  obtains vw where "read_newest c = Some (c\<lparr>bc_reader_view := vw, bc_reader := R_field (k + 1) v (vs @ [newest c (field_var k)])\<rparr>)"
    "views_ok (c\<lparr>bc_reader_view := vw\<rparr>)"
proof -
  obtain vw where "load True False (field_var k) (length (bc_memory c (field_var k)) - 1) c =
      Some (newest c (field_var k), c\<lparr>bc_reader_view := vw\<rparr>)" "views_ok (c\<lparr>bc_reader_view := vw\<rparr>)"
    using load_last [OF assms(1)] .
  with that assms show ?thesis by (simp add: read_newest_def next_var_def try_read_step_def)
qed

lemma read_version:
  assumes "views_ok c" "bc_reader c = R_idle" "newest c Version AND 1 = 0"
  obtains vw where "read_newest c = Some (c\<lparr>bc_reader_view := vw, bc_reader := R_field 0 (newest c Version) []\<rparr>)"
    "views_ok (c\<lparr>bc_reader_view := vw\<rparr>)"
proof -
  obtain vw where "load True True Version (length (bc_memory c Version) - 1) c =
      Some (newest c Version, c\<lparr>bc_reader_view := vw\<rparr>)" "views_ok (c\<lparr>bc_reader_view := vw\<rparr>)"
    using load_last [OF assms(1)] .
  with that assms show ?thesis by (simp add: read_newest_def next_var_def try_read_step_def)
qed

lemma read_again:
  assumes "views_ok c" "bc_reader c = R_field 4 (newest c Version) [a, b, d, e]"
  obtains vw where "read_newest c = Some (c\<lparr>bc_reader_view := vw, bc_reader :=
      R_done (Some \<lparr>bid_price = a, bid_quantity = b, ask_price = d, ask_quantity = e\<rparr>)\<rparr>)"
    "views_ok (c\<lparr>bc_reader_view := vw\<rparr>)"
proof -
  obtain vw where "load True True Version (length (bc_memory c Version) - 1) c =
      Some (newest c Version, c\<lparr>bc_reader_view := vw\<rparr>)" "views_ok (c\<lparr>bc_reader_view := vw\<rparr>)"
    using load_last [OF assms(1)] .
  with that assms show ?thesis by (simp add: read_newest_def next_var_def try_read_step_def)
qed

text \<open>A cell at rest: no access is under way.\<close>

definition at_rest :: "bbo_cell \<Rightarrow> bool" where
  "at_rest c \<longleftrightarrow> writer_inv c \<and> views_ok c \<and> bc_writer c = W_idle \<and> bc_reader c = R_idle"

lemma fields_of_current:
  assumes "at_rest c"
  shows "newest c Version AND 1 = 0" "current c = \<lparr>bid_price = newest c (field_var 0), bid_quantity = newest c (field_var 1),
    ask_price = newest c (field_var 2), ask_quantity = newest c (field_var 3)\<rparr>"
proof -
  have w: "newest c Version = of_nat (2 * length (bc_published c))" "\<forall>k < 4. newest c (field_var k) = field (current c) k"
    using assms by (auto simp: at_rest_def writer_inv_def)
  show "newest c Version AND 1 = 0" unfolding w(1) by (rule u64_even)
  show "current c = \<lparr>bid_price = newest c (field_var 0), bid_quantity = newest c (field_var 1),
      ask_price = newest c (field_var 2), ask_quantity = newest c (field_var 3)\<rparr>"
    using w(2) by (simp add: field_def)
qed

lemma uncontended_read:
  assumes rest: "at_rest c"
  obtains vw where "bbo_try_read c = Some (Some (current c), c\<lparr>bc_reader_view := vw, bc_reader := R_idle\<rparr>)"
    "at_rest (c\<lparr>bc_reader_view := vw, bc_reader := R_idle\<rparr>)"
proof -
  let ?v = "newest c Version" and ?f = "\<lambda>k. newest c (field_var k)"
  let ?c = "\<lambda>vw r. c\<lparr>bc_reader_view := vw, bc_reader := r\<rparr>"
  have ok: "views_ok c" "bc_reader c = R_idle" using rest by (simp_all add: at_rest_def)
  have step: "\<exists>vw'. read_newest (?c vw (R_field k ?v vs)) = Some (?c vw' (R_field (k + 1) ?v (vs @ [?f k]))) \<and> views_ok (c\<lparr>bc_reader_view := vw'\<rparr>)"
    if "views_ok (c\<lparr>bc_reader_view := vw\<rparr>)" "k < 4" for vw k vs
  proof -
    have r: "views_ok (?c vw (R_field k ?v vs))" "bc_reader (?c vw (R_field k ?v vs)) = R_field k ?v vs" using that(1) by simp_all
    from read_field [OF r that(2)] show ?thesis by simp blast
  qed
  obtain v0 where 0: "read_newest c = Some (?c v0 (R_field 0 ?v []))" "views_ok (c\<lparr>bc_reader_view := v0\<rparr>)"
    using read_version [OF ok fields_of_current(1) [OF rest]] .
  obtain v1 where 1: "read_newest (?c v0 (R_field 0 ?v [])) = Some (?c v1 (R_field 1 ?v [?f 0]))" "views_ok (c\<lparr>bc_reader_view := v1\<rparr>)"
    using step [OF 0(2), of 0 "[]"] by auto
  obtain v2 where 2: "read_newest (?c v1 (R_field 1 ?v [?f 0])) = Some (?c v2 (R_field 2 ?v [?f 0, ?f 1]))" "views_ok (c\<lparr>bc_reader_view := v2\<rparr>)"
    using step [OF 1(2), of 1 "[?f 0]"] by (auto simp: numeral_eq_Suc)
  obtain v3 where 3: "read_newest (?c v2 (R_field 2 ?v [?f 0, ?f 1])) = Some (?c v3 (R_field 3 ?v [?f 0, ?f 1, ?f 2]))"
      "views_ok (c\<lparr>bc_reader_view := v3\<rparr>)"
    using step [OF 2(2), of 2 "[?f 0, ?f 1]"] by (auto simp: numeral_eq_Suc)
  obtain v4 where 4: "read_newest (?c v3 (R_field 3 ?v [?f 0, ?f 1, ?f 2])) = Some (?c v4 (R_field 4 ?v [?f 0, ?f 1, ?f 2, ?f 3]))"
      "views_ok (c\<lparr>bc_reader_view := v4\<rparr>)"
    using step [OF 3(2), of 3 "[?f 0, ?f 1, ?f 2]"] by (auto simp: numeral_eq_Suc)
  obtain v5 where 5: "read_newest (?c v4 (R_field 4 ?v [?f 0, ?f 1, ?f 2, ?f 3])) = Some (?c v5 (R_done (Some (current c))))"
      "views_ok (c\<lparr>bc_reader_view := v5\<rparr>)"
    using read_again [of "?c v4 (R_field 4 ?v [?f 0, ?f 1, ?f 2, ?f 3])"] 4(2) by (auto simp: fields_of_current(2) [OF rest])
  have seven: "7 = Suc (Suc (Suc (Suc (Suc (Suc (Suc 0))))))" by simp
  have "bbo_try_read c = Some (Some (current c), ?c v5 R_idle)"
    unfolding bbo_try_read_def seven using ok(2)
    by (simp add: 0(1) 1(1) [simplified] 2(1) [simplified] 3(1) [simplified] 4(1) [simplified] 5(1) [simplified])
  moreover have "at_rest (?c v5 R_idle)" using rest 5(2) by (auto simp: at_rest_def writer_inv_def current_def)
  ultimately show ?thesis using that by blast
qed

lemma publish_at_rest:
  assumes "at_rest c"
  shows "at_rest (bbo_publish s c)" "current (bbo_publish s c) = s"
proof -
  have "writer_inv ((publish_step s ^^ n) c) \<and> views_ok ((publish_step s ^^ n) c) \<and> bc_reader ((publish_step s ^^ n) c) = R_idle" for n
    using assms by (induction n) (simp_all add: at_rest_def writer_inv_publish views_ok_publish)
  moreover have "bc_writer (bbo_publish s c) = W_idle \<and> bc_published (bbo_publish s c) = bc_published c @ [s]"
    using assms by (simp add: at_rest_def bbo_publish_def numeral_eq_Suc publish_step_def)
  ultimately show "at_rest (bbo_publish s c)" "current (bbo_publish s c) = s"
    by (auto simp: at_rest_def bbo_publish_def current_def)
qed

lemma bbo_sample_loop_done: "at_rest c \<Longrightarrow> bbo_sample_loop c dg vs = Some (fold (\<lambda>v d. d XOR v) vs dg)"
proof (induction vs arbitrary: c dg)
  case (Cons v vs)
  let ?s = "\<lparr>bid_price = v, bid_quantity = v + 1, ask_price = v + 2, ask_quantity = v + 3\<rparr>"
  note p = publish_at_rest [OF Cons.prems, of ?s]
  obtain vw where r: "bbo_try_read (bbo_publish ?s c) = Some (Some ?s, (bbo_publish ?s c)\<lparr>bc_reader_view := vw, bc_reader := R_idle\<rparr>)"
      "at_rest ((bbo_publish ?s c)\<lparr>bc_reader_view := vw, bc_reader := R_idle\<rparr>)"
    using uncontended_read [OF p(1)] unfolding p(2) .
  from Cons.IH [OF r(2)] r(1) show ?case by simp
qed simp

text \<open>The exclusive or of 1, 2, ..., \<open>4 * k\<close> is its last term.\<close>

lemma plus_low:
  assumes "b < 4"
  shows "4 * a + b = 4 * a XOR (b :: u64)"
proof (rule disjunctive_add_eq_xor)
  have "b = take_bit 2 b" using assms by (simp add: take_bit_eq_mod mod_word_less)
  then have "4 * a AND b = take_bit 2 (4 * a) AND b" by (metis and.assoc and.commute take_bit_eq_mask)
  moreover have "4 * a = push_bit 2 a" by (simp add: push_bit_eq_mult)
  ultimately show "4 * a AND b = 0" by (simp add: take_bit_push_bit)
qed

lemma xor_upto: "fold (\<lambda>v d. d XOR v) (map of_nat [1..<4 * k + 1]) (0 :: u64) = of_nat (4 * k)"
proof (induction k)
  case (Suc k)
  let ?a = "4 * of_nat k :: u64"
  have "[1..<4 * Suc k + 1] = [1..<4 * k + 1] @ [4 * k + 1, 4 * k + 2, 4 * k + 3, 4 * k + 4]" by (simp add: numeral_eq_Suc)
  then have "fold (\<lambda>v d. d XOR v) (map of_nat [1..<4 * Suc k + 1]) (0 :: u64) =
      (((?a XOR (?a + 1)) XOR (?a + 2)) XOR (?a + 3)) XOR (?a + 4)"
    using Suc by (simp add: add.commute)
  also have "((?a XOR (?a + 1)) XOR (?a + 2)) XOR (?a + 3) = 0"
    by (simp add: plus_low xor.assoc xor.left_commute)
  finally show ?case by (simp add: algebra_simps)
qed simp

section \<open>Properties\<close>

text \<open>
  The sample of the publication cell: with one thread every read succeeds and returns the snapshot published last, so
  the loop never ends early; its digest is 100000, and the line that prints a digest of all ones is not reached.
\<close>

theorem bbo_sample_completes: "bbo_sample = Some 100000"
proof -
  have "at_rest bbo_new"
    by (simp add: at_rest_def views_ok_def writer_inv_def bbo_new_def newest_def current_def zero_snapshot_def field_def)
  then have "bbo_sample = Some (fold (\<lambda>v d. d XOR v) (map of_nat [1..<4 * 25000 + 1]) 0)"
    by (simp add: bbo_sample_def bbo_sample_loop_done kBboOperations_def)
  then show ?thesis unfolding xor_upto by simp
qed

lemma feed_sample_loop_done:
  "fr_state st = Live \<Longrightarrow> fr_expected st = of_nat i \<Longrightarrow>
     feed_sample_loop st ready (map of_nat [i..<i + n]) = Value (ready @ map of_nat [i..<i + n])"
proof (induction n arbitrary: st ready i)
  case (Suc n)
  have "on_incremental st (of_nat i) (of_nat i) ready = (Apply, st\<lparr>fr_expected := of_nat (Suc i)\<rparr>, ready @ [of_nat i])"
    using Suc.prems by (simp add: on_incremental_def add.commute)
  moreover have "[i..<i + Suc n] = i # [Suc i..<Suc i + n]" by (simp add: upt_conv_Cons del: upt_Suc)
  ultimately show ?case
    using Suc.IH [of "st\<lparr>fr_expected := of_nat (Suc i)\<rparr>" "Suc i"] Suc.prems(1) by (simp del: upt_Suc of_nat_Suc)
qed simp

text \<open>
  The sample of the feed recovery: with no buffer at all an empty snapshot is completed, and 262144 consecutive increments
  are all applied at once and handed out in order.
\<close>

theorem feed_sample_completes:
  assumes "sort_spec sorter"
  shows "feed_sample sorter = Value (map of_nat [1..<kFeedEvents + 1])"
proof -
  have "sorter [] = []" using assms by (metis mset_zero_iff sort_spec_def)
  then have "finish_snapshot sorter (begin_snapshot (fr_new 0 0) 0) ([] :: u64 list) =
      (True, (begin_snapshot (fr_new 0 0) 0)\<lparr>fr_replay := [], fr_replay_size := 0, fr_expected := 1, fr_state := Live\<rparr>, [])"
    by (simp add: finish_snapshot_def begin_snapshot_def fr_new_def Let_def)
  then show ?thesis
    using feed_sample_loop_done [of "(begin_snapshot (fr_new 0 0) 0)\<lparr>fr_replay := [], fr_replay_size := 0, fr_expected := 1, fr_state := Live\<rparr>" 1 "[]" kFeedEvents]
    by (simp add: feed_sample_def add.commute del: upt_Suc)
qed

lemma profile_adds: "numbered_adds profile_add"
  using bench_price_in_range [of "(k + 1) mod 128" Bid for k] bench_price_in_range [of "(k + 1) mod 128" Ask for k]
  by (simp add: numbered_adds_def profile_add_def bench_event_def bench_price_def Let_def)

text \<open>
  The probe profile: all 16384 orders are added, and finding one of them takes between one probe and as many as there are
  orders.
\<close>

theorem probe_profile_completes:
  "\<exists>total maximum. probe_profile = Value (of_nat kProfileOrders, total, maximum) \<and> maximum \<le> of_nat kProfileOrders"
proof -
  have k: "unat (32768 :: u64) = kOrderCount" by (simp add: kOrderCount_def)
  obtain b where b: "bb_new 32768 kMinimumPrice 256 = Value b" "bb_ok kOrderCount kMinimumPrice b" "bb_view b = Map.empty"
    using bb_new_ok [of 32768 kMinimumPrice] unfolding k by (auto simp: kOrderCount_def kMinimumPrice_def)
  have "l3_run kOrderCount (in_ladder kMinimumPrice kPriceCount) (bb_view b) (map profile_add [0..<kProfileOrders]) =
      Some (numbered_live profile_add 0 kProfileOrders)"
    using numbered_adds_run [OF profile_adds] b(3) by (simp add: kProfileOrders_def kOrderCount_def)
  from bb.run_refines [OF b(2) this] obtain b' where
    b': "run_events bb_apply b (map profile_add [0..<kProfileOrders]) = Done b'" "bb_ok kOrderCount kMinimumPrice b'"
      "bb_view b' = numbered_live profile_add 0 kProfileOrders" by auto
  note ix = index_okD [OF bb_okD(1) [OF b'(2)]]
  have live: "bb_live b' = of_nat kProfileOrders"
    using ix(3) b'(3) numbered_live_dom [of kProfileOrders profile_add] by (simp add: bb_view_def kProfileOrders_def)
  moreover have "bb_order_index_maximum_probes b' \<le> of_nat kProfileOrders"
    using fixed_probe_summary_ok(2) [OF ix(1)] ix(5) live by (simp add: bb_order_index_maximum_probes_def)
  ultimately show ?thesis using b(1) b'(1) by (simp add: probe_profile_def kMinimumPrice_def)
qed

section \<open>The generator\<close>

text \<open>\<open>SplitMix64\<close> is the identifier mixer along an arithmetic progression, so its values never repeat within a period.\<close>

lemma split_mix_next_eq: "split_mix_next st = (mix_order_id st, st + 0x9E3779B97F4A7C15)"
  by (simp add: split_mix_next_def mix_order_id_def Let_def)

lemma split_mix_values_eq: "split_mix_values n st = map (\<lambda>k. mix_order_id (st + of_nat k * 0x9E3779B97F4A7C15)) [0..<n]"
proof (induction n arbitrary: st)
  case (Suc n)
  have "[0..<Suc n] = 0 # map Suc [0..<n]" by (simp add: upt_conv_Cons map_Suc_upt del: upt_Suc)
  with Suc show ?case by (simp add: split_mix_next_eq algebra_simps del: upt_Suc)
qed simp

text \<open>
  The generator of the sum benchmark yields pairwise different values up to its full period of \<open>2\<^sup>6\<^sup>4\<close>, in particular for the
  1048576 inputs of the benchmark.
\<close>

theorem split_mix_values_distinct:
  assumes "n \<le> 2 ^ 64"
  shows "distinct (split_mix_values n st)"
proof -
  have inv: "(0x9E3779B97F4A7C15 :: u64) * 0xF1DE83E19937733D = 1" by simp
  have "i = j" if "i < n" "j < n" "mix_order_id (st + of_nat i * 0x9E3779B97F4A7C15) = mix_order_id (st + of_nat j * 0x9E3779B97F4A7C15)" for i j
  proof -
    from that(3) have "(of_nat i :: u64) * 0x9E3779B97F4A7C15 = of_nat j * 0x9E3779B97F4A7C15"
      unfolding mix_order_id_injective add_left_cancel .
    then have "(of_nat i :: u64) = of_nat j" by (rule odd_mult_inj [OF inv])
    moreover have "i < 2 ^ 64" "j < 2 ^ 64" using that(1,2) assms by linarith+
    ultimately show ?thesis using unat_of_nat_u64 by metis
  qed
  then show ?thesis by (auto simp: split_mix_values_eq distinct_map inj_on_def)
qed

lemma sequential_sum_list: "sequential_sum values = sum_list values"
proof -
  have "foldl (+) a values = a + sum_list values" for a
    by (induction "values" arbitrary: a) (simp_all add: add.assoc)
  then show ?thesis by (simp add: sequential_sum_def)
qed

section \<open>Reported percentiles\<close>

text \<open>
  The nearest rank, as \<open>specs/measurement_protocol.md\<close> and \<open>specs/benchmark_sanity.md\<close> require it: the percentile
  \<open>num / den\<close> of \<open>N\<close> samples is at the position \<open>ceil (num / den * N) - 1\<close> of the sorted samples.
\<close>

definition nearest_rank :: "nat \<Rightarrow> nat \<Rightarrow> u64 list \<Rightarrow> u64" where
  "nearest_rank num den samples = sort samples ! ((length samples * num + den - 1) div den - 1)"

text \<open>
  The reports of the sum and of the publication cell are the nearest ranks; those of the index and of the feed recovery read the
  sample after it, which is larger whenever the two samples differ.
\<close>

theorem reports_nearest_rank:
  "length durations = 100 \<Longrightarrow>
     sum_report durations = [nearest_rank 50 100 durations, nearest_rank 90 100 durations, nearest_rank 95 100 durations]"
  "length samples = 200 \<Longrightarrow> bbo_report samples = [nearest_rank 50 100 samples, nearest_rank 99 100 samples]"
  by (simp_all add: sum_report_def bbo_report_def nearest_rank_def Let_def)

theorem reports_after_nearest_rank:
  "churn_report (map of_nat [0..<200]) = [100, 198] \<and> feed_report (map of_nat [0..<200]) = [100, 198] \<and>
   nearest_rank 50 100 (map of_nat [0..<200]) = 99 \<and> nearest_rank 99 100 (map of_nat [0..<200]) = 197"
proof -
  have "sort (map of_nat [0..<200] :: u64 list) = map of_nat [0..<200]" by (simp add: upt_conv_Cons)
  then show ?thesis by (simp add: churn_report_def feed_report_def nearest_rank_def Let_def del: upt_Suc)
qed

end
