(* ===== verification/Spec2Isabelle.thy ===== *)
theory Spec2Isabelle
  imports Order_Book Parity_Order_Book Dense_Ladder_Order_Book Bitmap_Ladder_Order_Book
    Bitmap_Backshift_Order_Book Bitmap_Packed_Order_Book Feed_Recovery
    L2_Benchmark L2_Labels Index_Churn
    Capture_Processor Async_Recorder Bbo_Snapshot Thread_Ring Live_Session L2_Datasets Benchmark_Traces Queue_Benchmark Bench_Samples
begin

text \<open>
  A verification library for the C++ half of the performance laboratory (\<open>cpp/include/llab\<close>, \<open>cpp/src\<close> and, of
  \<open>cpp/benchmarks\<close>, the capture program, the two data-set programs and the benchmarks). The laboratory compares implementations of the same contract,
  so most results here have one of two forms: an implementation does what an abstract specification says, and therefore
  all implementations agree.

  \<^bold>\<open>The program.\<close> Six order books (level three: single orders) implement one interface: \<open>apply\<close> takes a canonical
  event, the observers show the best levels, the number of live orders and a digest. They differ in their
  level store (ordered map, sorted vector, dense ladder with cached best prices, ladder with occupancy bitmap) and in
  their order index (hash map, open addressing with tombstones, open addressing with backward shift). Three level-two books keep
  aggregated levels from numbered snapshots and deltas. Around them: recovery of a sequenced feed, a decoder of the
  exchange's messages, capture of raw frames through a queue into a file and its replay, a publication cell for the best
  bid and offer, labels for research data, and metrics. The capture program puts these together: it subscribes to a topic, records
  the frames it receives through the asynchronous recorder, feeds the book with them, and replays captures; the data-set programs
  read captures and write tables; the benchmarks run generated traces and feeds through the books, the indexes, the queue and the
  publication cell.

  \<^bold>\<open>How the theories follow the sources.\<close>
  \<^item> \<open>Prelude\<close>: machine integers, exceptions, the results of calls (\<open>outcome\<close> for calls that change an object, which keeps the state an
    exception leaves behind; \<open>result\<close> for calls that return a value), lemmas on words and lists.
  \<^item> \<open>Book_Types\<close>: the types of \<open>order_book.hpp\<close> and \<open>parity_order_book.hpp\<close>, the identifier mixer, the digest. \<open>L3_Spec\<close>: the specification of an
    order book as a map of live orders (\<open>specs/l3_order_book.md\<close>), its transition \<open>l3_step\<close>, its observers, and the locales of an
    order book and of a level store. \<open>Order_Index\<close>: the locale of an order index. \<open>Indexed_Book\<close>: the locale in which a book is
    built from a store and an index and proved to refine the specification once for all versions.
  \<^item> \<open>Order_Book\<close> (\<open>order_book.cpp\<close>), \<open>Parity_Order_Book\<close> (\<open>parity_order_book.cpp\<close>), \<open>Dense_Ladder_Order_Book\<close>, \<open>Bitmap_Ladder_Order_Book\<close>,
    \<open>Bitmap_Backshift_Order_Book\<close>, \<open>Bitmap_Packed_Order_Book\<close> (the files of these names): versions 1 to 6, one definition per member
    function. \<open>Ladder\<close>, \<open>Bitmap_Levels\<close>, \<open>Packed_Order\<close> hold what the ladder versions share; \<open>Table_Capacity\<close> the capacity functions;
    \<open>Probing\<close> the theory of linear probing; \<open>Tombstone_Index\<close> the index of versions 2 to 4; \<open>Fixed_Order_Index\<close> that of versions
    5 and 6 (\<open>fixed_order_index.hpp\<close>).
  \<^item> \<open>Feed_Recovery\<close> (\<open>feed_sequence_recovery.hpp\<close>): the recovery of a sequenced feed as a state machine.
  \<^item> \<open>L2_Spec\<close>: content of a level-two book after a feed and the locale of such a book; \<open>L2_Order_Book\<close>, \<open>L2_Dense_Ladder\<close>, \<open>L2_Ordered_Map\<close>
    (\<open>bybit_l2_order_book.hpp\<close>, \<open>bybit_l2_dense_ladder.hpp\<close>, \<open>bybit_l2_ordered_map.hpp\<close>): the three books and their interpretations;
    \<open>L2_Labels\<close> (\<open>bybit_l2_labels.hpp\<close>); \<open>L2_Decoder\<close> (\<open>bybit_v5_l2_decoder.hpp\<close>).
  \<^item> \<open>Raw_Frame_Record\<close>, \<open>Raw_Frame_Queue\<close>, \<open>Raw_Frame_Capture\<close> (the headers of these names): the record format with its checksum, the
    ring between two threads, the capture file. The capture program (\<open>bybit_l2_capture.cpp\<close>): \<open>Capture_Processor\<close> (\<open>Processor\<close>, \<open>depth_from_topic\<close>, \<open>replay\<close>),
    \<open>Async_Recorder\<close> (\<open>AsyncRecorder\<close>), \<open>Capture_Config\<close> (\<open>load_dotenv\<close>, \<open>env_or\<close>, \<open>parse_config\<close>), \<open>Live_Session\<close> (\<open>live\<close>, \<open>main\<close>).
  \<^item> \<open>L2_Datasets\<close> (\<open>bybit_l2_state_export.cpp\<close>, \<open>bybit_l2_feature_extract.cpp\<close>): the programs over captures. \<open>Benchmark_Traces\<close>
    (\<open>mixed_lifecycle.cpp\<close>, \<open>order_book_lifecycle.cpp\<close> and its copies, \<open>dense_ladder_best_level_churn.cpp\<close>): the generated traces and one
    sample of each order-book benchmark. \<open>Index_Churn\<close> (\<open>order_index_churn.cpp\<close>): the tombstone index of the benchmark, and the sample as a
    client of the locale \<open>churn_index\<close> that both indexes interpret. \<open>L2_Benchmark\<close> (\<open>bybit_l2_book_benchmark.cpp\<close>): the feed of each workload and a
    sample of each level-two book. \<open>Queue_Benchmark\<close> (\<open>raw_frame_queue_benchmark.cpp\<close>): producer, consumer and main thread as step relations over
    the ring. \<open>Bench_Samples\<close> (\<open>bbo_snapshot_uncontended.cpp\<close>, \<open>feed_sequence_recovery.cpp\<close>, \<open>bitmap_backshift_probe_profile.cpp\<close>,
    \<open>sequential_sum.cpp\<close>): one sample of each, and the percentiles the benchmarks report.
  \<^item> \<open>Bbo_Snapshot\<close> (\<open>bbo_snapshot.hpp\<close>), \<open>Feed_Receive_Metrics\<close> (\<open>feed_receive_metrics.hpp\<close>), \<open>Thread_Ring\<close> (\<open>metrics.hpp\<close>, and the
    builds of \<open>mixed_lifecycle.cpp\<close> with metrics).

  \<^bold>\<open>What is shown.\<close>
  \<^item> Order books: every event on a well-formed book of any version does exactly the transition of the specification or throws where
    it has none; observers and digest are functions of the live orders; so all six versions agree on every trace (in this theory). An event
    on one order that throws leaves versions 1 to 4 as they were, except for updates that overflow; a \<open>Replace\<close> whose add throws has removed the
    old order already. In version 5 an add that is refused for its price stays in the index for good (in this theory), and in version 6 an
    update to a price outside the ladder takes the order out of the levels (\<open>bp_upsert_out_of_ladder\<close>).
  \<^item> Indexes: any sequence of operations answers like a bounded finite map; backward-shift erasure ends and removes exactly one
    entry; probe counts are bounded; the capacity functions return a fitting power of two up to \<open>2\<^sup>6\<^sup>2\<close> orders, and beyond it their
    guards fail.
  \<^item> Feeds: what recovery hands out is consecutive, it succeeds exactly on gap-free buffers and does so once the increments have
    arrived. The vector book accepts a delta exactly when it is admissible and is never left in a stale or unsorted state; the three level-two
    books agree on accepted feeds (in this theory) and differ after refused ones.
  \<^item> Capture: decoding inverts encoding exactly, a changed byte is detected, the reader accepts exactly the complete captures, the writer
    publishes atomically, the queue delivers in order under every interleaving, the recorder writes a prefix of what it
    accepted, and closing it ends and publishes everything if no write fails. Altogether: a recorded live session that
    returns can be replayed with the same result, one that fails publishes nothing, and one that is served by the network returns. The decoder reads decimals exactly and yields well-typed
    messages.
  \<^item> Data sets: the export of a capture has a row for every market message after which both sides of the book have levels, with
    the state of the book there; the feature rows are those
    with a future, and their labels compare with the first observation beyond each horizon, moves below the threshold counting as none. Benchmarks: on the generated traces every
    version ends with the empty book and all compute the same digest (in this theory), and the metric rings are exactly full. No sample
    of the other benchmarks ends in an exception or, if both threads of the queue benchmark can be pinned, in \<open>std::terminate\<close>: both indexes find every order they have to erase and end with the same
    entries, the level-two books accept every change of every workload, the frames of the queue arrive in order under every interleaving and the
    sample can always still complete, an undisturbed read of the publication cell returns what was published last, a feed without gaps is
    handed out as it comes. Two of the reports are not at the nearest rank that the measurement protocol asks for.
  \<^item> Concurrency: a read of the publication cell is consistent under sequential consistency, and under the memory
    orders of the code it can return any mixture of two consecutive publications; the receive metrics count every frame in its class and its bucket; the recorder can lose its last frame when it is closed.

  \<^bold>\<open>Conventions and bounds.\<close> Prices, quantities, identifiers, counters and timestamps are 64-bit words and wrap; sizes of containers in
  memory are natural numbers unless their overflow matters (\<open>Table_Capacity\<close>). Loops over data are structural recursions. The
  erasure loop of the backward-shift index and the capacity loops, which may run forever, are partial functions into \<open>option\<close>; that
  they return is proved under the invariant and up to \<open>2\<^sup>6\<^sup>2\<close> orders. \<open>drain\<close>, \<open>replay_loop\<close> and \<open>reader_loop\<close>, the loops that read a capture, have a bound on their rounds; one more than the number of records is
  enough, and this is part of the theorems. The publication cell is consistent for fewer than \<open>2\<^sup>6\<^sup>3\<close> publications, after
  which its version repeats. In \<open>Raw_Frame_Queue\<close> an index load returns any value not older than the last one seen by that thread,
  and what was written before a release store is visible to who sees its value. In \<open>Bbo_Snapshot\<close> each variable has the history of its
  values and each thread a view, so that acquire, release and relaxed accesses differ. \<open>std::sort\<close> is an argument of
  \<open>Feed_Recovery\<close> with its specification as a hypothesis, since its order of equal elements is unspecified; Boost's property tree
  is an argument of \<open>L2_Decoder\<close>. The clock, the cycle counter and the fate of each write to a file are arguments.
  In \<open>Live_Session\<close> the network is an argument (\<open>network\<close>): which of its calls throw, what the reads return, and how many steps the recorder's
  worker makes between them; fewer than 4095 frames cannot overflow the queue of 4096 slots, so that the session returns under any timing.

  In \<open>Queue_Benchmark\<close> the processor pinning is an argument; \<open>steps_left\<close> bounds the steps to completion. In \<open>Bench_Samples\<close> a call of
  \<open>try_read\<close> gets seven rounds, for at most six loads and the return, and the theorem shows that it returns.

  \<^bold>\<open>Not modelled.\<close> Clocks, floating-point means and rates, the text of the reports, raw sample files and command lines of the
  benchmarks: they are measurements and output, without state that anything else reads. The percentile functions in \<open>long double\<close> and the
  floating-point columns of the feature extraction: there is no theory of floating-point numbers in the library this development is built on. The sum of
  the million generated values of \<open>sequential_sum\<close> is not evaluated. \<open>bitfinex_live_probe\<close>, a sequence of calls of the network library;
  the output file of the feature extraction; the text of the status line of the capture program. The builds of \<open>order_index_churn\<close> with other hashes. The
  bucket count of the standard hash map (version 1), memory layout and alignment, creation of directories, a failing rename, other programs that write the
  same files. The Rust implementation.
\<close>

section \<open>All versions compute the specification\<close>

text \<open>What one version does with a trace, from its constructor to its observers.\<close>

definition shows_state :: "('b \<Rightarrow> event \<Rightarrow> 'b outcome) \<Rightarrow> ('b \<Rightarrow> level option result) \<Rightarrow> ('b \<Rightarrow> level option result)
    \<Rightarrow> ('b \<Rightarrow> u64) \<Rightarrow> ('b \<Rightarrow> u64 result) \<Rightarrow> 'b result \<Rightarrow> event list \<Rightarrow> orders \<Rightarrow> bool" where
  "shows_state apply_ev bid ask live_of dig new es m \<longleftrightarrow>
     (\<exists>b b'. new = Value b \<and> run_events apply_ev b es = Done b' \<and>
        bid b' = Value (spec_best m Bid) \<and> ask b' = Value (spec_best m Ask) \<and>
        live_of b' = of_nat (card (dom m)) \<and> dig b' = Value (spec_digest m))"

lemma ob_shows_state:
  assumes "unat (maximum :: u64) \<le> 2 ^ 62" "minimum \<le> uint64_max - 255"
    and "l3_run (unat maximum) (in_ladder minimum kPriceCount) Map.empty events = Some m"
  shows "shows_state ob_apply (\<lambda>b. Value (ob_best_bid b)) (\<lambda>b. Value (ob_best_ask b)) ob_live_order_count ob_state_digest
    (Value ob_new) events m"
proof -
  have "unat maximum \<le> 2 ^ 64" using unat_less_2p64 [of maximum] by simp
  from ob.run_observations [OF ob_ok_new(1)] l3_run_mono [OF this _ assms(3)] show ?thesis
    by (simp add: shows_state_def ob_ok_new(2))
qed

lemma pob_shows_state:
  assumes "unat maximum \<le> 2 ^ 62" "minimum \<le> uint64_max - 255"
    and "l3_run (unat maximum) (in_ladder minimum kPriceCount) Map.empty events = Some m"
  shows "shows_state pob_apply (\<lambda>b. Value (pob_best_bid b)) (\<lambda>b. Value (pob_best_ask b)) pob_live_order_count pob_state_digest
    (pob_new maximum) events m"
proof -
  obtain b n where b: "pob_new maximum = Value b" "pob_ok n b" "pob_view b = Map.empty" "2 * unat maximum \<le> n"
    using pob_new_ok [OF assms(1)] by blast
  from pob.run_observations [OF b(2)] l3_run_mono [OF _ _ assms(3), of n "\<lambda>_. True"] b show ?thesis
    by (simp add: shows_state_def)
qed

lemma dl_shows_state:
  assumes "unat maximum \<le> 2 ^ 62" "minimum \<le> uint64_max - 255"
    and "l3_run (unat maximum) (in_ladder minimum kPriceCount) Map.empty events = Some m"
  shows "shows_state dl_apply dl_best_bid dl_best_ask dl_live dl_state_digest
    (dl_new maximum minimum 256) events m"
proof -
  have k: "unat (256 :: u64) = kPriceCount" by (simp add: kPriceCount_def)
  obtain b n where b: "dl_new maximum minimum 256 = Value b" "dl_ok n minimum kPriceCount b" "dl_view b = Map.empty"
      "2 * unat maximum \<le> n"
    using dl_new_ok [OF assms(1), of 256 minimum] assms(2) unfolding k by (auto simp: not_less)
  from dl.run_observations [OF b(2)] l3_run_mono [OF _ _ assms(3), of n "in_ladder minimum kPriceCount"] b show ?thesis
    by (simp add: shows_state_def)
qed

lemma bl_shows_state:
  assumes "unat maximum \<le> 2 ^ 62" "minimum \<le> uint64_max - 255"
    and "l3_run (unat maximum) (in_ladder minimum kPriceCount) Map.empty events = Some m"
  shows "shows_state bl_apply (\<lambda>b. Value (bl_best_bid b)) (\<lambda>b. Value (bl_best_ask b)) bl_live (\<lambda>b. Value (bl_state_digest b))
    (bl_new maximum minimum 256) events m"
proof -
  obtain b n where b: "bl_new maximum minimum 256 = Value b" "bl_ok n minimum b" "bl_view b = Map.empty"
      "2 * unat maximum \<le> n"
    using bl_new_ok [OF assms(1,2)] by blast
  from bl.run_observations [OF b(2)] l3_run_mono [OF _ _ assms(3), of n "in_ladder minimum kPriceCount"] b show ?thesis
    by (simp add: shows_state_def)
qed

lemma bb_shows_state:
  assumes "unat maximum \<le> 2 ^ 62" "minimum \<le> uint64_max - 255"
    and "l3_run (unat maximum) (in_ladder minimum kPriceCount) Map.empty events = Some m"
  shows "shows_state bb_apply (\<lambda>b. Value (bb_best_bid b)) (\<lambda>b. Value (bb_best_ask b)) bb_live (\<lambda>b. Value (bb_state_digest b))
    (bb_new maximum minimum 256) events m"
  using bb_new_ok [OF assms(1,2)] bb.run_observations assms(3) unfolding shows_state_def by metis

lemma bp_shows_state:
  assumes "unat maximum \<le> 2 ^ 62" "minimum \<le> uint64_max - 255"
    and "l3_run (unat maximum) (in_ladder minimum kPriceCount) Map.empty events = Some m"
  shows "shows_state bp_apply (\<lambda>b. Value (bp_best_bid b)) (\<lambda>b. Value (bp_best_ask b)) bp_live (\<lambda>b. Value (bp_state_digest b))
    (bp_new maximum minimum 256) events m"
  using bp_new_ok [OF assms(1,2)] bp.run_observations assms(3) unfolding shows_state_def by metis

text \<open>
  C1. The six order books agree: on every trace the specification admits (within the maximum of live
  orders and the 256-tick range), each version, from its constructor, applies the whole trace without
  an exception and ends with the same best bid, best ask, live-order count and state digest, those
  of the specification.
\<close>

theorem all_versions_agree:
  assumes "unat maximum \<le> 2 ^ 62" "minimum \<le> uint64_max - 255"
    and "l3_run (unat maximum) (in_ladder minimum kPriceCount) Map.empty events = Some m"
  shows "shows_state ob_apply (\<lambda>b. Value (ob_best_bid b)) (\<lambda>b. Value (ob_best_ask b)) ob_live_order_count ob_state_digest (Value ob_new) events m \<and>
    shows_state pob_apply (\<lambda>b. Value (pob_best_bid b)) (\<lambda>b. Value (pob_best_ask b)) pob_live_order_count pob_state_digest (pob_new maximum) events m \<and>
    shows_state dl_apply dl_best_bid dl_best_ask dl_live dl_state_digest (dl_new maximum minimum 256) events m \<and>
    shows_state bl_apply (\<lambda>b. Value (bl_best_bid b)) (\<lambda>b. Value (bl_best_ask b)) bl_live (\<lambda>b. Value (bl_state_digest b)) (bl_new maximum minimum 256) events m \<and>
    shows_state bb_apply (\<lambda>b. Value (bb_best_bid b)) (\<lambda>b. Value (bb_best_ask b)) bb_live (\<lambda>b. Value (bb_state_digest b)) (bb_new maximum minimum 256) events m \<and>
    shows_state bp_apply (\<lambda>b. Value (bp_best_bid b)) (\<lambda>b. Value (bp_best_ask b)) bp_live (\<lambda>b. Value (bp_state_digest b)) (bp_new maximum minimum 256) events m"
  by (intro conjI ob_shows_state [OF assms] pob_shows_state [OF assms] dl_shows_state [OF assms] bl_shows_state [OF assms] bb_shows_state [OF assms] bp_shows_state [OF assms])

lemma sample_run: "l3_run 4 (in_ladder 1000 kPriceCount) Map.empty [sample_add] = Some [7 \<mapsto> ev_order sample_add]"
proof -
  have "admitted 4 (in_ladder 1000 kPriceCount) Map.empty sample_add = Some [7 \<mapsto> ev_order sample_add]"
    unfolding admitted_def fits_def sample_add_def
    by (simp add: l3_step_def l3_add_def ev_order_def in_ladder_def kPriceCount_def level_total_new contrib_def)
  then show ?thesis by simp
qed

theorem all_versions_agree_witness:
  "shows_state bp_apply (\<lambda>b. Value (bp_best_bid b)) (\<lambda>b. Value (bp_best_ask b)) bp_live
     (\<lambda>b. Value (bp_state_digest b)) (bp_new 4 1000 256) [sample_add] [7 \<mapsto> ev_order sample_add]"
  using all_versions_agree [of 4 1000 "[sample_add]"] sample_run by simp

section \<open>The benchmark samples\<close>

text \<open>
  One sample of each version on a trace that leads back to the empty book: it ends without an exception, with the digest of the
  best levels that the specification gives.
\<close>

definition samples_as_specified :: "('b \<Rightarrow> event \<Rightarrow> 'b outcome) \<Rightarrow> ('b \<Rightarrow> level option result) \<Rightarrow> ('b \<Rightarrow> level option result)
    \<Rightarrow> ('b \<Rightarrow> u64) \<Rightarrow> 'b result \<Rightarrow> event list \<Rightarrow> bool" where
  "samples_as_specified apply_ev bid ask live_of new es \<longleftrightarrow>
     (\<forall>not_empty read acc. run_sample not_empty apply_ev bid ask live_of read new es acc = Value (spec_sample read Map.empty es acc))"

lemma ob_samples:
  assumes "unat (maximum :: u64) \<le> 2 ^ 62" "minimum \<le> uint64_max - 255"
    and "l3_run (unat maximum) (in_ladder minimum kPriceCount) Map.empty events = Some Map.empty"
  shows "samples_as_specified ob_apply (\<lambda>b. Value (ob_best_bid b)) (\<lambda>b. Value (ob_best_ask b)) ob_live_order_count (Value ob_new) events"
proof -
  have "unat maximum \<le> 2 ^ 64" using unat_less_2p64 [of maximum] by simp
  from l3_book.run_sample_spec [OF ob.l3_book_axioms, OF refl ob_ok_new] l3_run_mono [OF this _ assms(3)] show ?thesis by (simp add: samples_as_specified_def)
qed

lemma pob_samples:
  assumes "unat maximum \<le> 2 ^ 62" "minimum \<le> uint64_max - 255"
    and "l3_run (unat maximum) (in_ladder minimum kPriceCount) Map.empty events = Some Map.empty"
  shows "samples_as_specified pob_apply (\<lambda>b. Value (pob_best_bid b)) (\<lambda>b. Value (pob_best_ask b)) pob_live_order_count (pob_new maximum) events"
proof -
  obtain b n where b: "pob_new maximum = Value b" "pob_ok n b" "pob_view b = Map.empty" "2 * unat maximum \<le> n"
    using pob_new_ok [OF assms(1)] by blast
  from l3_book.run_sample_spec [OF pob.l3_book_axioms, OF b(1-3)] l3_run_mono [OF _ _ assms(3), of n "\<lambda>_. True"] b(4) show ?thesis
    by (simp add: samples_as_specified_def)
qed

lemma dl_samples:
  assumes "unat maximum \<le> 2 ^ 62" "minimum \<le> uint64_max - 255"
    and "l3_run (unat maximum) (in_ladder minimum kPriceCount) Map.empty events = Some Map.empty"
  shows "samples_as_specified dl_apply dl_best_bid dl_best_ask dl_live (dl_new maximum minimum 256) events"
proof -
  have k: "unat (256 :: u64) = kPriceCount" by (simp add: kPriceCount_def)
  obtain b n where b: "dl_new maximum minimum 256 = Value b" "dl_ok n minimum kPriceCount b" "dl_view b = Map.empty"
      "2 * unat maximum \<le> n"
    using dl_new_ok [OF assms(1), of 256 minimum] assms(2) unfolding k by (auto simp: not_less)
  from l3_book.run_sample_spec [OF dl.l3_book_axioms, OF b(1-3)] l3_run_mono [OF _ _ assms(3), of n "in_ladder minimum kPriceCount"] b(4) show ?thesis
    by (simp add: samples_as_specified_def)
qed

lemma bl_samples:
  assumes "unat maximum \<le> 2 ^ 62" "minimum \<le> uint64_max - 255"
    and "l3_run (unat maximum) (in_ladder minimum kPriceCount) Map.empty events = Some Map.empty"
  shows "samples_as_specified bl_apply (\<lambda>b. Value (bl_best_bid b)) (\<lambda>b. Value (bl_best_ask b)) bl_live (bl_new maximum minimum 256) events"
proof -
  obtain b n where b: "bl_new maximum minimum 256 = Value b" "bl_ok n minimum b" "bl_view b = Map.empty" "2 * unat maximum \<le> n"
    using bl_new_ok [OF assms(1,2)] by blast
  from l3_book.run_sample_spec [OF bl.l3_book_axioms, OF b(1-3)] l3_run_mono [OF _ _ assms(3), of n "in_ladder minimum kPriceCount"] b(4) show ?thesis
    by (simp add: samples_as_specified_def)
qed

lemma bb_samples:
  assumes "unat maximum \<le> 2 ^ 62" "minimum \<le> uint64_max - 255"
    and "l3_run (unat maximum) (in_ladder minimum kPriceCount) Map.empty events = Some Map.empty"
  shows "samples_as_specified bb_apply (\<lambda>b. Value (bb_best_bid b)) (\<lambda>b. Value (bb_best_ask b)) bb_live (bb_new maximum minimum 256) events"
  using bb_new_ok [OF assms(1,2)] l3_book.run_sample_spec [OF bb.l3_book_axioms] assms(3) unfolding samples_as_specified_def by metis

lemma bp_samples:
  assumes "unat maximum \<le> 2 ^ 62" "minimum \<le> uint64_max - 255"
    and "l3_run (unat maximum) (in_ladder minimum kPriceCount) Map.empty events = Some Map.empty"
  shows "samples_as_specified bp_apply (\<lambda>b. Value (bp_best_bid b)) (\<lambda>b. Value (bp_best_ask b)) bp_live (bp_new maximum minimum 256) events"
  using bp_new_ok [OF assms(1,2)] l3_book.run_sample_spec [OF bp.l3_book_axioms] assms(3) unfolding samples_as_specified_def by metis

text \<open>
  C16. The benchmarks measure what they mean to: on each of the three generated traces, with the bounds the benchmarks choose, every version
  applies every event without an exception, ends with the empty book, so that the check after the sample never fails, and, where
  the best levels are read after each event, all versions compute the same digest.
\<close>

theorem benchmark_samples_agree:
  assumes "events \<in> {mixed_trace, lifecycle_churn_trace, best_level_churn_trace}"
  shows "samples_as_specified ob_apply (\<lambda>b. Value (ob_best_bid b)) (\<lambda>b. Value (ob_best_ask b)) ob_live_order_count (Value ob_new) events \<and>
    samples_as_specified pob_apply (\<lambda>b. Value (pob_best_bid b)) (\<lambda>b. Value (pob_best_ask b)) pob_live_order_count (pob_new 32768) events \<and>
    samples_as_specified dl_apply dl_best_bid dl_best_ask dl_live (dl_new 32768 99873 256) events \<and>
    samples_as_specified bl_apply (\<lambda>b. Value (bl_best_bid b)) (\<lambda>b. Value (bl_best_ask b)) bl_live (bl_new 32768 99873 256) events \<and>
    samples_as_specified bb_apply (\<lambda>b. Value (bb_best_bid b)) (\<lambda>b. Value (bb_best_ask b)) bb_live (bb_new 32768 99873 256) events \<and>
    samples_as_specified bp_apply (\<lambda>b. Value (bp_best_bid b)) (\<lambda>b. Value (bp_best_ask b)) bp_live (bp_new 32768 99873 256) events"
proof -
  have "l3_run (unat (32768 :: u64)) (in_ladder 99873 kPriceCount) Map.empty events = Some Map.empty"
    using assms mixed_trace_restores_empty lifecycle_trace_restores_empty best_level_trace_restores_empty
    by (auto simp: kOrderCount_def kMinimumPrice_def)
  moreover have "unat (32768 :: u64) \<le> 2 ^ 62" "(99873 :: u64) \<le> uint64_max - 255" by simp_all
  ultimately show ?thesis
    by (intro conjI ob_samples [of 32768] pob_samples dl_samples bl_samples bb_samples bp_samples)
qed

theorem benchmark_samples_agree_witness:
  "run_sample ''mixed lifecycle did not restore empty book'' bp_apply (\<lambda>b. Value (bp_best_bid b)) (\<lambda>b. Value (bp_best_ask b)) bp_live True (bp_new 32768 99873 256) mixed_trace 0 =
   run_sample ''mixed lifecycle did not restore empty book'' ob_apply (\<lambda>b. Value (ob_best_bid b)) (\<lambda>b. Value (ob_best_ask b)) ob_live_order_count True (Value ob_new) mixed_trace 0"
  using benchmark_samples_agree [of mixed_trace] by (simp add: samples_as_specified_def)

section \<open>Exceptions that are not atomic\<close>

definition order_event :: "event_type \<Rightarrow> order_id \<Rightarrow> side \<Rightarrow> price \<Rightarrow> quantity \<Rightarrow> event" where
  "order_event t oid s p q =
     \<lparr>ev_type = t, ev_order_id = oid, ev_replacement_order_id = 0, ev_side = s, ev_price_ticks = p, ev_quantity = q\<rparr>"

text \<open>
  C37. Version 5 inserts an order before it tests its price. For every well-formed book with room, every add of
  a new identifier with a quantity and a price outside the ladder throws, and leaves the order in the
  index with no level and no count. From then on the identifier is stuck: every event on it, of whatever
  type, throws and leaves the book as it is, and a valid add of it is refused as a duplicate.
\<close>

theorem backshift_add_keeps_refused_order:
  assumes "bb_ok n base b" "i \<noteq> 0" "q \<noteq> 0" "bb_view b i = None" "card (dom (bb_view b)) < n" "\<not> in_ladder base kPriceCount p"
  shows "\<exists>b'. bb_apply b (order_event Add i s p q) = Threw (Invalid_argument ''price'') b' \<and>
     fixed_find (bb_orders b') i = Some \<lparr>ord_side = s, ord_price_ticks = p, ord_remaining_quantity = q\<rparr> \<and>
     bb_levels b' = bb_levels b \<and> bb_live b' = bb_live b \<and>
     (\<forall>e. ev_order_id e = i \<longrightarrow> (\<exists>x. bb_apply b' e = Threw x b')) \<and>
     (\<forall>t p' q'. q' \<noteq> 0 \<longrightarrow> bb_apply b' (order_event Add i t p' q') = Threw (Invalid_argument ''index'') b')"
proof -
  let ?r = "\<lparr>ord_side = s, ord_price_ticks = p, ord_remaining_quantity = q\<rparr>"
  obtain b' where b': "bb_add b i s p q = Threw (Invalid_argument ''price'') b'" "fixed_ok (bb_orders b')"
    "bb_view b' = (bb_view b)(i \<mapsto> ?r)" "bb_levels b' = bb_levels b" "bb_live b' = bb_live b"
    using bb_add_out_of_ladder [OF assms refl] by blast
  then have at: "bb_view b' i = Some ?r" "bm_ok base (bb_levels b')" using book_okD(2) [OF assms(1)] by simp_all
  then have "\<exists>x. bb_apply b' e = Threw x b'" if "ev_order_id e = i" for e
    using bb_stuck_order [OF b'(2) at(2,1) _ that] assms(6) by simp
  moreover have "bb_apply b' (order_event Add i t p' q') = Threw (Invalid_argument ''index'') b'" if "q' \<noteq> 0" for t p' q'
    using that assms(2) at(1) fixed_insert_refused [OF b'(2), of i] by (simp add: bb_apply_def order_event_def bb_add_def bb_view_def)
  ultimately show ?thesis
    using b' at(1) fixed_find_map [OF b'(2), of i] by (auto simp: bb_apply_def order_event_def bb_view_def)
qed

theorem backshift_add_keeps_refused_order_witness:
  "\<exists>b b'. bb_new 4 1000 256 = Value b \<and> bb_ok 4 1000 b \<and> bb_view b 7 = None \<and> card (dom (bb_view b)) < 4 \<and>
     \<not> in_ladder 1000 kPriceCount 5 \<and> bb_apply b (order_event Add 7 Bid 5 10) = Threw (Invalid_argument ''price'') b' \<and>
     bb_live b' = 0 \<and> bb_apply b' (order_event Add 7 Bid 1005 10) = Threw (Invalid_argument ''index'') b'"
proof -
  obtain b where b: "bb_new 4 1000 256 = Value b" "bb_ok 4 1000 b" "bb_view b = Map.empty" using bb_new_ok [of 4 1000] by auto
  moreover have "\<not> in_ladder 1000 kPriceCount 5" by (simp add: in_ladder_def)
  moreover have "bb_live b = 0" using b index_okD(3) [OF bb_okD(1) [OF b(2)]] by (simp add: bb_view_def)
  ultimately show ?thesis
    using backshift_add_keeps_refused_order [of 4 1000 b 7 10 5 Bid] by auto
qed

text \<open>
  Version 1 stores the new state of an order before it tests its new level. An update whose level
  would overflow throws with the order moved: its old level is gone and its new level does not
  count it, so the aggregates no longer match the orders.
\<close>

theorem upsert_overflow_breaks_aggregates:
  "\<exists>b x b'. run_events ob_apply ob_new [order_event Add 1 Bid 1000 5, order_event Add 2 Bid 1001 uint64_max] = Done b \<and>
     ob_apply b (order_event OrderUpsert 1 Bid 1001 5) = Threw x b' \<and>
     x = Overflow_error ''price-level quantity overflow'' \<and>
     ob_at b' 1 = Value \<lparr>ord_side = Bid, ord_price_ticks = 1001, ord_remaining_quantity = 5\<rparr> \<and>
     ob_level_quantity b' Bid 1000 = None \<and> ob_level_quantity b' Bid 1001 = Some uint64_max \<and>
     ob_live_order_count b' = 2"
proof -
  have "case run_events ob_apply ob_new [order_event Add 1 Bid 1000 5, order_event Add 2 Bid 1001 uint64_max] of
      Done b \<Rightarrow>
        (case ob_apply b (order_event OrderUpsert 1 Bid 1001 5) of
           Threw x b' \<Rightarrow>
             x = Overflow_error ''price-level quantity overflow'' \<and>
             ob_at b' 1 = Value \<lparr>ord_side = Bid, ord_price_ticks = 1001, ord_remaining_quantity = 5\<rparr> \<and>
             ob_level_quantity b' Bid 1000 = None \<and> ob_level_quantity b' Bid 1001 = Some uint64_max \<and>
             ob_live_order_count b' = 2
         | _ \<Rightarrow> False)
    | _ \<Rightarrow> False"
    by code_simp
  then show ?thesis by (auto split: result.splits outcome.splits)
qed

section \<open>The level-two books agree\<close>

text \<open>
  C10. On every feed that the vector book accepts message by message, and whose prices lie within the
  ladder, the ordered-map book and the ladder book accept every message too, and the three show the same
  best bid and best ask.
\<close>

theorem l2_books_agree:
  assumes run: "l2_run vb_apply_snapshot vb_apply_delta (vb_new maximum) ms = Some v"
    and feed: "ms \<noteq> []" "ladder_fits base n" "list_all (prices_fit (in_ladder base n)) ms"
  shows "\<exists>m d. l2_run om_apply_snapshot om_apply_delta om_new ms = Some m \<and>
    l2_run dn_apply_snapshot dn_apply_delta (dn_new base n) ms = Some d \<and>
    om_best_bid m = vb_best_bid v \<and> dn_best_bid d = vb_best_bid v \<and>
    om_best_ask m = vb_best_ask v \<and> dn_best_ask d = vb_best_ask v"
  using l2_runs_same [OF assms] .

definition sample_feed :: "l2_message list" where
  "sample_feed = [Snapshot 7 sample_bids sample_asks, Delta 8 sample_changes]"

theorem l2_books_agree_witness:
  "\<exists>v m d. l2_run vb_apply_snapshot vb_apply_delta (vb_new 2) sample_feed = Some v \<and>
    l2_run om_apply_snapshot om_apply_delta om_new sample_feed = Some m \<and>
    l2_run dn_apply_snapshot dn_apply_delta (dn_new 90 20) sample_feed = Some d \<and>
    om_best_bid m = vb_best_bid v \<and> dn_best_bid d = vb_best_bid v"
proof -
  have "l2_run vb_apply_snapshot vb_apply_delta (vb_new 2) sample_feed \<noteq> None" by code_simp
  then obtain v where v: "l2_run vb_apply_snapshot vb_apply_delta (vb_new 2) sample_feed = Some v" by blast
  have "sample_feed \<noteq> []" "ladder_fits 90 20" "list_all (prices_fit (in_ladder 90 20)) sample_feed"
    by (simp_all add: sample_feed_def ladder_fits_def sample_bids_def sample_asks_def sample_changes_def in_ladder_def)
  from l2_books_agree [OF v this] v show ?thesis by blast
qed

text \<open>
  The three level-two books differ where a message is refused or the numbers wrap. After a delta
  with a wrong number the vector book shows nothing, while the other two still show the stale best bid;
  after the update \<open>UINT64_MAX\<close> the vector book refuses the number 0 and the other two accept it.
\<close>

theorem l2_books_differ_when_invalid:
  "vb_best_bid (snd (vb_apply_delta sample_l2 9 [])) = None \<and>
   om_best_bid (snd (om_apply_delta (snd (om_apply_snapshot om_new 7 sample_bids sample_asks)) 9 [])) = Some (hd sample_bids) \<and>
   dn_best_bid (snd (dn_apply_delta (snd (dn_apply_snapshot (dn_new 90 20) 7 sample_bids sample_asks)) 9 [])) = Some (hd sample_bids) \<and>
   \<not> fst (vb_apply_delta (snd (vb_apply_snapshot (vb_new 2) uint64_max sample_bids sample_asks)) 0 []) \<and>
   fst (om_apply_delta (snd (om_apply_snapshot om_new uint64_max sample_bids sample_asks)) 0 []) \<and>
   fst (dn_apply_delta (snd (dn_apply_snapshot (dn_new 90 20) uint64_max sample_bids sample_asks)) 0 [])"
  by code_simp

end
